(* ===== verification/Prelude.thy ===== *)
theory Prelude
  imports Main "HOL-Library.Word" "HOL-Library.Monad_Syntax" "HOL-Library.Signed_Division"
begin

unbundle bit_operations_syntax

text \<open>
  Shared vocabulary of the development: the C integer types of the port
  (\<^verbatim>\<open>core_portme.h\<close>, \<^verbatim>\<open>stdint.h\<close>) as machine words, the theorem collections the
  component theories add to, and the generic facts on bits and lists that
  their proofs use.
\<close>

section \<open>Machine integers\<close>

text \<open>
  Both signed and unsigned C integers of a width are words of that width: the
  operations wrap, \<^const>\<open>uint\<close> and \<^const>\<open>unat\<close> read the unsigned value and
  \<^const>\<open>sint\<close> the two's complement one. Integer promotion of a signed 16-bit
  value is sign extension to 32 bits.
\<close>

type_synonym u8 = "8 word"
type_synonym u16 = "16 word"
type_synonym u32 = "32 word"
type_synonym s16 = "16 word"
type_synonym s32 = "32 word"

abbreviation promote16 :: "s16 \<Rightarrow> s32" where
  "promote16 x \<equiv> scast x"

text \<open>
  Return codes: the functions return 0 or a negated \<^verbatim>\<open>errno\<close> constant, whose numeric
  values belong to the C library.
\<close>

datatype errno = EINVAL | EBUSY | ETIMEDOUT | ENOTSUP

datatype rc = RC_OK | RC_ERR errno

text \<open>
  Second-level interrupt numbers: the kernel keeps the number of a second-level line, plus one, above the \<open>b1\<close> bits of its
  first-level line; \<open>from_l2\<close> is the arithmetic with which the drivers recover it.
\<close>

definition from_l2 :: "nat \<Rightarrow> nat \<Rightarrow> u32 \<Rightarrow> u32" where
  "from_l2 b1 b2 irq = (drop_bit b1 irq AND mask b2) - 1"

lemma from_l2_encoded:
  assumes "l1 < 2 ^ b1" "l2 + 1 < 2 ^ b2" "b1 + b2 \<le> 32"
  shows "from_l2 b1 b2 (word_of_nat ((l2 + 1) * 2 ^ b1 + l1)) = word_of_nat l2"
proof -
  let ?n = "(l2 + 1) * 2 ^ b1 + l1"
  have "(l2 + 2) * 2 ^ b1 \<le> 2 ^ b2 * 2 ^ b1" using assms(2) by (intro mult_le_mono1) simp
  also have "\<dots> = 2 ^ (b1 + b2)" by (simp add: power_add)
  also have "\<dots> \<le> (2 :: nat) ^ 32" using assms(3) by (intro power_increasing) simp_all
  finally have n: "?n < 2 ^ 32" using assms(1) by simp
  have u: "unat (word_of_nat ?n :: u32) = ?n" using n by (simp only: unsigned_of_nat) (simp add: take_bit_nat_eq_self)
  have "unat (drop_bit b1 (word_of_nat ?n :: u32)) = l2 + 1"
  proof -
    have "?n div 2 ^ b1 = l2 + 1" using assms(1) by (simp only: div_mult_self3 [of "2 ^ b1"]) simp
    then show ?thesis unfolding unsigned_drop_bit_eq u using n by (simp add: take_bit_nat_eq_self drop_bit_eq_div)
  qed
  then have "drop_bit b1 (word_of_nat ?n :: u32) = word_of_nat (l2 + 1)" by (metis of_nat_unat ucast_id)
  moreover have "word_of_nat (l2 + 1) AND mask b2 = (word_of_nat (l2 + 1) :: u32)"
    using assms(2) by (simp only: take_bit_eq_mask [symmetric] take_bit_of_nat take_bit_nat_eq_self)
  ultimately show ?thesis by (simp add: from_l2_def)
qed

section \<open>Theorem collections\<close>

named_theorems bit_eval \<open>enumeration of the bit positions of fixed-width words\<close>
named_theorems crc_simps \<open>equations of the CRC step\<close>
named_theorems heap_simps \<open>field reads and writes of the list heap\<close>
named_theorems cache_simps \<open>address arithmetic of the data cache\<close>
named_theorems bus_simps \<open>one bus transaction of a memory-mapped device\<close>

section \<open>Bits\<close>

lemma word_eq_bits:
  "a = b \<longleftrightarrow> list_all (\<lambda>n. bit a n = bit b n) [0..<LENGTH('a)]" for a b :: "'a::len word"
  by (auto simp: list_all_iff bit_eq_iff intro: bit_word_eqI)

lemma upt_8 [bit_eval]: "[0..<8] = [0, 1, 2, 3, 4, 5, 6, 7]"
  by code_simp

lemma upt_16 [bit_eval]: "[0..<16] = [0, 1, 2, 3, 4, 5, 6, 7, 8, 9, 10, 11, 12, 13, 14, 15]"
  by code_simp

lemma not_bit_16 [simp]: "\<not> bit (w :: 16 word) 16"
  using bit_imp_le_length [of w 16] by auto

lemma odd_ucast: "odd (ucast (w :: 'a::len word) :: 'b::len word) = odd w"
  by (metis bit_unsigned_iff bit_0 possible_bit_0)

lemma bit_xor_neq: "bit (a XOR b) n = (bit a n \<noteq> bit b n)" for a b :: "'a::len word"
  by (simp add: bit_xor_iff)

lemma xor_cancel_right [simp]: "a XOR c = b XOR c \<longleftrightarrow> a = b" for a b c :: "'a::len word"
  by (metis xor.assoc xor.right_neutral xor_self_eq)

lemma xor_eq_0_iff [simp]: "a XOR b = 0 \<longleftrightarrow> a = b" for a b :: "'a::len word"
  by (metis xor.left_neutral xor_cancel_right xor_self_eq)

lemma unat32_less: "unat (w :: 32 word) < 4294967296"
  using unsigned_less [of w, where 'a = nat] by simp

section \<open>Counting loops\<close>

text \<open>\<open>for_up n body s\<close> is the loop \<^verbatim>\<open>for (i = 0; i < n; i++) body\<close> over the state \<open>s\<close>.\<close>

definition for_up :: "nat \<Rightarrow> (nat \<Rightarrow> 's \<Rightarrow> 's) \<Rightarrow> 's \<Rightarrow> 's" where
  "for_up n body s = fold body [0..<n] s"

lemma for_up_0 [simp]: "for_up 0 body s = s"
  by (simp add: for_up_def)

lemma for_up_Suc [simp]: "for_up (Suc n) body s = body n (for_up n body s)"
  by (simp add: for_up_def)

lemma for_up_cong:
  "(\<And>i s. i < n \<Longrightarrow> b i s = c i s) \<Longrightarrow> for_up n b s = for_up n c s"
  by (induction n) simp_all

lemma for_up_add: "for_up (m + n) b s = for_up n (\<lambda>i. b (m + i)) (for_up m b s)"
  by (induction n) simp_all

text \<open>A row-major double loop is one loop over the cells.\<close>

lemma for_up_nested: "for_up M (\<lambda>i. for_up N (\<lambda>j. b (i * N + j))) s = for_up (M * N) b s"
  by (induction M) (simp_all add: for_up_add [of "_ * N" N] add.commute [of N])

lemma for_up_rows: "for_up M (\<lambda>i. for_up N (\<lambda>j. b i j)) s = for_up (M * N) (\<lambda>n. b (n div N) (n mod N)) s"
  unfolding for_up_nested [of M N "\<lambda>n. b (n div N) (n mod N)", symmetric]
  by (intro for_up_cong) (simp add: for_up_def cong: fold_cong)

lemma for_up_induct:
  "P 0 s \<Longrightarrow> (\<And>i t. i < n \<Longrightarrow> P i t \<Longrightarrow> P (Suc i) (b i t)) \<Longrightarrow> P n (for_up n b s)"
  by (induction n) simp_all

text \<open>A loop that rewrites the cells of an array one after the other is a map.\<close>

lemma for_up_cells:
  assumes "n \<le> length xs"
    and "\<And>i ys. i < n \<Longrightarrow> length ys = length xs \<Longrightarrow> body i ys = ys[i := f i (ys ! i)]"
  shows "for_up n body xs = map (\<lambda>i. f i (xs ! i)) [0..<n] @ drop n xs"
  using assms
proof (induction n)
  case (Suc n)
  then have "body n (for_up n body xs) = (for_up n body xs)[n := f n (for_up n body xs ! n)]"
    by simp
  with Suc show ?case
    by (auto simp: list_update_append nth_append Cons_nth_drop_Suc [symmetric])
qed simp

section \<open>Lists\<close>

lemma upt_split: "i \<le> j \<Longrightarrow> j \<le> k \<Longrightarrow> [i..<k] = [i..<j] @ [j..<k]"
  using upt_add_eq_append [of i j "k - j"] by simp

lemma map_eq_replicate: "(\<And>x. x \<in> set xs \<Longrightarrow> f x = c) \<Longrightarrow> map f xs = replicate (length xs) c"
  by (induction xs) auto

end
