(* ===== verification/Intc.thy ===== *)
theory Intc
  imports Prelude
begin

text \<open>
  The interrupt aggregator: the hardware block \<^verbatim>\<open>src/intc.v\<close> as a clocked machine and its
  driver \<^verbatim>\<open>zephyr/drivers/interrupt_controller/intc_rv32_5stage.c\<close> on top. Every bus access of the
  driver is one clock cycle of the block, after a number of cycles without access that the
  environment chooses; the environment also gives the level of the eight source lines in
  every cycle. The handlers of the second-level interrupts are a parameter, functions on the
  whole state, as the driver only calls them through the kernel's table.
\<close>

section \<open>The hardware\<close>

record intc =
  enable :: u8
  pending :: u8
  irq_in_prev :: u8

datatype bus = BusIdle | BusRead u32 | BusWrite u32 u32

definition is_intc_addr :: "u32 \<Rightarrow> bool" where "is_intc_addr a \<longleftrightarrow> drop_bit 12 a = 4"
definition is_enable_reg :: "u32 \<Rightarrow> bool" where "is_enable_reg a \<longleftrightarrow> a AND 0xFFF = 0"
definition is_pending_reg :: "u32 \<Rightarrow> bool" where "is_pending_reg a \<longleftrightarrow> a AND 0xFFF = 4"

definition irq_edge :: "u8 \<Rightarrow> intc \<Rightarrow> u8" where
  "irq_edge irq_in h = irq_in AND NOT (irq_in_prev h)"

definition irq_out :: "intc \<Rightarrow> bool" where
  "irq_out h \<longleftrightarrow> pending h AND enable h \<noteq> 0"

text \<open>One clock edge: the bus transaction, the lines, and the value driven on \<^verbatim>\<open>d_rdata\<close>.\<close>

definition intc_clock :: "bus \<Rightarrow> u8 \<Rightarrow> intc \<Rightarrow> u32 \<times> intc" where
  "intc_clock op irq_in h =
     (let latched = pending h OR irq_edge irq_in h;
          h' = h\<lparr>irq_in_prev := irq_in, pending := latched\<rparr>
      in case op of
           BusWrite a d \<Rightarrow>
             (if is_intc_addr a \<and> is_enable_reg a then (0, h'\<lparr>enable := ucast d\<rparr>)
              else if is_intc_addr a \<and> is_pending_reg a then (0, h'\<lparr>pending := latched AND NOT (ucast d)\<rparr>)
              else (0, h'))
         | BusRead a \<Rightarrow>
             (if is_intc_addr a \<and> is_enable_reg a then (ucast (enable h), h')
              else if is_intc_addr a \<and> is_pending_reg a then (ucast (pending h), h')
              else (0, h'))
         | BusIdle \<Rightarrow> (0, h'))"

section \<open>The system around it\<close>

record intc_env =
  irq_lines :: "nat \<Rightarrow> u8"
  bus_gap :: "nat \<Rightarrow> nat"

record 'c intc_sys =
  hw :: intc
  now :: nat
  accesses :: nat
  child :: 'c

record intc_config =
  base :: u32
  isr_table_offset :: nat

definition tick :: "intc_env \<Rightarrow> bus \<Rightarrow> 'c intc_sys \<Rightarrow> u32 \<times> 'c intc_sys" where
  "tick env op s =
     (let (r, h) = intc_clock op (irq_lines env (now s)) (hw s) in (r, s\<lparr>hw := h, now := Suc (now s)\<rparr>))"

fun idle :: "intc_env \<Rightarrow> nat \<Rightarrow> 'c intc_sys \<Rightarrow> 'c intc_sys" where
  "idle env 0 s = s"
| "idle env (Suc n) s = idle env n (snd (tick env BusIdle s))"

definition bus_access :: "intc_env \<Rightarrow> bus \<Rightarrow> 'c intc_sys \<Rightarrow> u32 \<times> 'c intc_sys" where
  "bus_access env op s =
     tick env op (idle env (bus_gap env (accesses s)) (s\<lparr>accesses := Suc (accesses s)\<rparr>))"

definition sys_read32 :: "intc_env \<Rightarrow> u32 \<Rightarrow> 'c intc_sys \<Rightarrow> u32 \<times> 'c intc_sys" where
  "sys_read32 env a s = bus_access env (BusRead a) s"

definition sys_write32 :: "intc_env \<Rightarrow> u32 \<Rightarrow> u32 \<Rightarrow> 'c intc_sys \<Rightarrow> 'c intc_sys" where
  "sys_write32 env v a s = snd (bus_access env (BusWrite a v) s)"

section \<open>The driver\<close>

definition NUM_SOURCES :: nat where "NUM_SOURCES = 8"
definition ENABLE_REG :: u32 where "ENABLE_REG = 0x0"
definition PENDING_REG :: u32 where "PENDING_REG = 0x4"

definition BIT :: "nat \<Rightarrow> u32" where "BIT n = push_bit n 1"

definition BIT_MASK :: "nat \<Rightarrow> u32" where "BIT_MASK n = BIT n - 1"

text \<open>The kernel's \<^verbatim>\<open>find_lsb_set\<close>: one more than the position of the lowest set bit, 0 for none.\<close>

definition find_lsb_set :: "u32 \<Rightarrow> nat" where
  "find_lsb_set w = (case List.find (bit w) [0..<32] of None \<Rightarrow> 0 | Some n \<Rightarrow> Suc n)"

lemma find_lsb_set_bit:
  assumes "w \<noteq> 0"
  obtains b where "find_lsb_set w = Suc b" "b < 32" "bit w b" "\<forall>c < b. \<not> bit w c"
proof -
  obtain n where n: "bit w n" using assms by (auto simp: bit_eq_iff)
  then have "n < 32" using bit_imp_le_length [of w n] by simp
  with n have "\<exists>n \<in> set [0..<32]. bit w n" by auto
  then obtain b where "List.find (bit w) [0..<32] = Some b"
    by (metis find_None_iff option.exhaust)
  then obtain i where "i < 32" "bit w i" "b = i" "\<forall>j < i. \<not> bit w j"
    by (auto simp: find_Some_iff)
  then show ?thesis using that \<open>List.find (bit w) [0..<32] = Some b\<close> by (simp add: find_lsb_set_def)
qed

lemma clear_lowest:
  assumes "bit w b"
  shows "unat (w AND NOT (BIT b)) < unat w"
proof -
  have "b < 32" using bit_imp_le_length [OF assms] by simp
  then have "\<not> bit (w AND NOT (BIT b)) b" by (simp add: BIT_def bit_simps)
  then have "w AND NOT (BIT b) \<noteq> w" using assms by auto
  moreover have "w AND NOT (BIT b) \<le> w" by (rule word_and_le2)
  ultimately show ?thesis by (simp add: word_less_nat_alt [symmetric] order.not_eq_order_implies_strict)
qed

function isr_loop :: "(nat \<Rightarrow> 's \<Rightarrow> 's) \<Rightarrow> nat \<Rightarrow> u32 \<Rightarrow> 's \<Rightarrow> 's" where
  "isr_loop isr_table off pnd s =
     (if pnd = 0 then s
      else (let b = find_lsb_set pnd - 1
            in isr_loop isr_table off (pnd AND NOT (BIT b)) (isr_table (off + b) s)))"
  by pat_completeness auto
termination
proof (relation "measure (\<lambda>(_, _, pnd, _). unat pnd)", goal_cases)
  case (2 isr_table off pnd s b)
  then obtain c where "find_lsb_set pnd = Suc c" "bit pnd c" using find_lsb_set_bit by metis
  with 2 show ?case by (simp add: clear_lowest)
qed simp

declare isr_loop.simps [simp del]

definition intc_isr :: "intc_env \<Rightarrow> intc_config \<Rightarrow> (nat \<Rightarrow> 'c intc_sys \<Rightarrow> 'c intc_sys) \<Rightarrow> 'c intc_sys \<Rightarrow> 'c intc_sys" where
  "intc_isr env cfg isr_table s =
     (let (p, s) = sys_read32 env (base cfg + PENDING_REG) s;
          (e, s) = sys_read32 env (base cfg + ENABLE_REG) s;
          pnd = p AND e;
          s = sys_write32 env pnd (base cfg + PENDING_REG) s
      in isr_loop isr_table (isr_table_offset cfg) pnd s)"

definition intr_enable :: "intc_env \<Rightarrow> intc_config \<Rightarrow> nat \<Rightarrow> 'c intc_sys \<Rightarrow> 'c intc_sys" where
  "intr_enable env cfg irq s =
     (let (en, s) = sys_read32 env (base cfg + ENABLE_REG) s;
          s = sys_write32 env (BIT irq) (base cfg + PENDING_REG) s
      in sys_write32 env (en OR BIT irq) (base cfg + ENABLE_REG) s)"

definition intr_disable :: "intc_env \<Rightarrow> intc_config \<Rightarrow> nat \<Rightarrow> 'c intc_sys \<Rightarrow> 'c intc_sys" where
  "intr_disable env cfg irq s =
     (let (en, s) = sys_read32 env (base cfg + ENABLE_REG) s
      in sys_write32 env (en AND NOT (BIT irq)) (base cfg + ENABLE_REG) s)"

definition intr_get_state :: "intc_env \<Rightarrow> intc_config \<Rightarrow> 'c intc_sys \<Rightarrow> bool \<times> 'c intc_sys" where
  "intr_get_state env cfg s =
     (let (en, s) = sys_read32 env (base cfg + ENABLE_REG) s in (en \<noteq> 0, s))"

definition intr_get_line_state :: "intc_env \<Rightarrow> intc_config \<Rightarrow> nat \<Rightarrow> 'c intc_sys \<Rightarrow> bool \<times> 'c intc_sys" where
  "intr_get_line_state env cfg irq s =
     (let (en, s) = sys_read32 env (base cfg + ENABLE_REG) s in (en AND BIT irq \<noteq> 0, s))"

text \<open>\<^verbatim>\<open>config_func\<close> connects the handler and enables the first-level line; it does not touch the block.\<close>

definition intc_initialize :: "intc_env \<Rightarrow> intc_config \<Rightarrow> ('c intc_sys \<Rightarrow> 'c intc_sys) \<Rightarrow> 'c intc_sys \<Rightarrow> rc \<times> 'c intc_sys" where
  "intc_initialize env cfg config_func s =
     (let s = sys_write32 env 0 (base cfg + ENABLE_REG) s;
          s = sys_write32 env (BIT_MASK NUM_SOURCES) (base cfg + PENDING_REG) s
      in (RC_OK, config_func s))"

section \<open>Edges and one cycle\<close>

text \<open>Source \<open>i\<close> rises in cycle \<open>n\<close>; it does so within a stretch of cycles.\<close>

definition edge :: "intc_env \<Rightarrow> nat \<Rightarrow> nat \<Rightarrow> bool" where
  "edge env n i \<longleftrightarrow> bit (irq_lines env n) i \<and> (n = 0 \<or> \<not> bit (irq_lines env (n - 1)) i)"

definition edges_in :: "intc_env \<Rightarrow> nat \<Rightarrow> nat \<Rightarrow> nat \<Rightarrow> bool" where
  "edges_in env m n i \<longleftrightarrow> (\<exists>k. m \<le> k \<and> k < n \<and> edge env k i)"

lemma edges_in_empty [simp]: "\<not> edges_in env n n i"
  by (simp add: edges_in_def)

lemma edges_in_Suc: "m \<le> n \<Longrightarrow> edges_in env m (Suc n) i \<longleftrightarrow> edges_in env m n i \<or> edge env n i"
  by (auto simp: edges_in_def less_Suc_eq)

lemma edges_in_join: "m \<le> n \<Longrightarrow> n \<le> k \<Longrightarrow> edges_in env m k i \<longleftrightarrow> edges_in env m n i \<or> edges_in env n k i"
  unfolding edges_in_def by (metis le_trans less_le_trans not_le)

lemma edges_in_join3: "a < b \<Longrightarrow> b < c \<Longrightarrow> c < d \<Longrightarrow>
    edges_in env a d i \<longleftrightarrow> edges_in env a b i \<or> edges_in env b c i \<or> edges_in env c d i"
  using edges_in_join [of a b c env i] edges_in_join [of a c d env i] by auto

text \<open>The block has seen the lines of the previous cycle.\<close>

definition tracks :: "intc_env \<Rightarrow> 'c intc_sys \<Rightarrow> bool" where
  "tracks env s \<longleftrightarrow> irq_in_prev (hw s) = (if now s = 0 then 0 else irq_lines env (now s - 1))"

definition clears :: "bus \<Rightarrow> nat \<Rightarrow> bool" where
  "clears op i \<longleftrightarrow> (case op of BusWrite a d \<Rightarrow> is_intc_addr a \<and> \<not> is_enable_reg a \<and> is_pending_reg a \<and> bit d i | _ \<Rightarrow> False)"

definition enable_after :: "bus \<Rightarrow> u8 \<Rightarrow> u8" where
  "enable_after op e = (case op of BusWrite a d \<Rightarrow> if is_intc_addr a \<and> is_enable_reg a then ucast d else e | _ \<Rightarrow> e)"

lemma tick_simps [simp]:
  "now (snd (tick env op s)) = Suc (now s)" "tracks env (snd (tick env op s))"
  "child (snd (tick env op s)) = child s" "accesses (snd (tick env op s)) = accesses s"
  "enable (hw (snd (tick env op s))) = enable_after op (enable (hw s))"
  by (auto simp: tick_def intc_clock_def Let_def tracks_def enable_after_def split: bus.splits)

lemma tick_pending:
  assumes "tracks env s" "i < 8"
  shows "bit (pending (hw (snd (tick env op s)))) i \<longleftrightarrow>
    (bit (pending (hw s)) i \<or> edge env (now s) i) \<and> \<not> clears op i"
proof -
  have "bit (irq_edge (irq_lines env (now s)) (hw s)) i \<longleftrightarrow> edge env (now s) i"
    using assms by (auto simp: irq_edge_def edge_def tracks_def bit_simps)
  then show ?thesis using assms(2)
    by (auto simp: tick_def intc_clock_def Let_def clears_def bit_simps split: bus.splits)
qed

section \<open>Bus accesses\<close>

lemma enable_after_idle [simp]: "enable_after BusIdle e = e" "enable_after (BusRead a) e = e"
  by (simp_all add: enable_after_def)

lemma clears_simps [simp]: "\<not> clears BusIdle i" "\<not> clears (BusRead a) i"
  by (simp_all add: clears_def)

lemma idle_simps [simp]:
  "now (idle env n s) = now s + n" "child (idle env n s) = child s" "accesses (idle env n s) = accesses s"
  "enable (hw (idle env n s)) = enable (hw s)" "tracks env s \<Longrightarrow> tracks env (idle env n s)"
  by (induction n arbitrary: s) simp_all

lemma idle_pending:
  "tracks env s \<Longrightarrow> i < 8 \<Longrightarrow> bit (pending (hw (idle env n s))) i \<longleftrightarrow>
     bit (pending (hw s)) i \<or> edges_in env (now s) (now s + n) i"
proof (induction n arbitrary: s)
  case (Suc n)
  then show ?case
    using edges_in_join [of "now s" "Suc (now s)" "Suc (now s + n)" env i] edges_in_Suc [of "now s" "now s" env i]
    by (simp add: tick_pending)
qed simp

lemma access_simps [simp]:
  "now s < now (snd (bus_access env op s))" "tracks env (snd (bus_access env op s))"
  "child (snd (bus_access env op s)) = child s"
  "enable (hw (snd (bus_access env op s))) = enable_after op (enable (hw s))"
  by (simp_all add: bus_access_def)

lemma tracks_update [simp]: "tracks env (s\<lparr>accesses := n\<rparr>) = tracks env s"
  by (simp add: tracks_def)

lemma access_pending:
  assumes "tracks env s" "i < 8"
  shows "bit (pending (hw (snd (bus_access env op s)))) i \<longleftrightarrow>
    (bit (pending (hw s)) i \<or> edges_in env (now s) (now (snd (bus_access env op s))) i) \<and> \<not> clears op i"
  using assms by (simp add: bus_access_def tick_pending idle_pending edges_in_Suc)

lemma read_enable:
  assumes "is_intc_addr a" "is_enable_reg a"
  shows "fst (bus_access env (BusRead a) s) = ucast (enable (hw s))"
  using assms by (simp add: bus_access_def tick_def [of _ "BusRead a"] intc_clock_def Let_def)

lemma read_pending:
  assumes "is_intc_addr a" "\<not> is_enable_reg a" "is_pending_reg a" "tracks env s" "i < 8"
  shows "bit (fst (bus_access env (BusRead a) s)) i \<longleftrightarrow>
    bit (pending (hw s)) i \<or> edges_in env (now s) (now (snd (bus_access env (BusRead a) s)) - 1) i"
proof -
  have "fst (bus_access env (BusRead a) s) =
      ucast (pending (hw (idle env (bus_gap env (accesses s)) (s\<lparr>accesses := Suc (accesses s)\<rparr>))))"
    using assms(1-3) by (simp add: bus_access_def tick_def [of _ "BusRead a"] intc_clock_def Let_def)
  then show ?thesis using assms(4,5) by (simp add: bit_simps idle_pending) (simp add: bus_access_def)
qed

section \<open>The register window of the board\<close>

definition intc_cfg_ok :: "intc_config \<Rightarrow> bool" where
  "intc_cfg_ok cfg \<longleftrightarrow> base cfg = 0x4000"

lemma reg_decode:
  assumes "intc_cfg_ok cfg"
  shows "is_intc_addr (base cfg + ENABLE_REG)" "is_enable_reg (base cfg + ENABLE_REG)"
    "is_intc_addr (base cfg + PENDING_REG)" "\<not> is_enable_reg (base cfg + PENDING_REG)"
    "is_pending_reg (base cfg + PENDING_REG)"
  using assms by (simp_all add: intc_cfg_ok_def is_intc_addr_def is_enable_reg_def is_pending_reg_def
      ENABLE_REG_def PENDING_REG_def)

lemma reg_writes [simp]:
  assumes "intc_cfg_ok cfg"
  shows "clears (BusWrite (base cfg + PENDING_REG) d) i \<longleftrightarrow> bit d i"
    "\<not> clears (BusWrite (base cfg + ENABLE_REG) d) i"
    "enable_after (BusWrite (base cfg + PENDING_REG) d) e = e"
    "enable_after (BusWrite (base cfg + ENABLE_REG) d) e = ucast d"
  using reg_decode [OF assms] by (simp_all add: clears_def enable_after_def)

lemma bit_BIT: "bit (BIT n) i \<longleftrightarrow> n = i \<and> i < 32"
  by (auto simp: BIT_def bit_simps)

section \<open>Dispatch\<close>

lemma filter_bits_lowest:
  assumes "b < 32" "bit w b" "\<forall>c < b. \<not> bit w c"
  shows "filter (bit w) [0..<32] = b # filter (bit (w AND NOT (BIT b))) [0..<32]"
proof -
  have split: "[0..<32] = [0..<b] @ b # [Suc b..<32]"
    using assms(1) by (metis less_imp_le upt_conv_Cons upt_split zero_le)
  have "filter (bit (w AND NOT (BIT b))) [Suc b..<32] = filter (bit w) [Suc b..<32]"
    by (rule filter_cong) (auto simp: bit_simps bit_BIT)
  moreover have "filter (bit w) [0..<b] = []" "filter (bit (w AND NOT (BIT b))) [0..<b] = []"
    using assms(3) by (auto simp: bit_simps filter_empty_conv)
  ultimately show ?thesis using assms unfolding split by (simp add: bit_simps bit_BIT)
qed

lemma isr_loop_fold:
  "isr_loop isr_table off p s = fold (\<lambda>b. isr_table (off + b)) (filter (bit p) [0..<32]) s"
proof (induction isr_table off p s rule: isr_loop.induct)
  case (1 isr_table off p s)
  show ?case
  proof (cases "p = 0")
    case False
    then obtain b where "find_lsb_set p = Suc b" "b < 32" "bit p b" "\<forall>c < b. \<not> bit p c"
      using find_lsb_set_bit by metis
    with 1 [OF False refl] False show ?thesis
      by (subst isr_loop.simps) (simp add: Let_def filter_bits_lowest)
  qed (simp add: isr_loop.simps)
qed

lemma bit_ucast8: "bit (ucast (w :: u8) :: u32) i \<longleftrightarrow> bit w i"
  using bit_imp_le_length [of w i] by (auto simp: bit_simps)

definition serviced :: "intc_env \<Rightarrow> intc_config \<Rightarrow> 'c intc_sys \<Rightarrow> u32" where
  "serviced env cfg s =
     fst (bus_access env (BusRead (base cfg + PENDING_REG)) s) AND ucast (enable (hw s))"

definition isr_entry :: "intc_env \<Rightarrow> intc_config \<Rightarrow> 'c intc_sys \<Rightarrow> 'c intc_sys" where
  "isr_entry env cfg s =
     snd (bus_access env (BusWrite (base cfg + PENDING_REG) (serviced env cfg s))
       (snd (bus_access env (BusRead (base cfg + ENABLE_REG))
         (snd (bus_access env (BusRead (base cfg + PENDING_REG)) s)))))"

lemma intc_isr_eq:
  assumes "intc_cfg_ok cfg"
  shows "intc_isr env cfg isr_table s =
    fold (\<lambda>b. isr_table (isr_table_offset cfg + b)) (filter (bit (serviced env cfg s)) [0..<32]) (isr_entry env cfg s)"
  using reg_decode [OF assms]
  by (simp add: intc_isr_def Let_def split_beta sys_read32_def sys_write32_def isr_loop_fold read_enable
      serviced_def isr_entry_def)

lemma serviced_bits:
  assumes "intc_cfg_ok cfg" "tracks env s"
  shows "bit (serviced env cfg s) i \<longleftrightarrow> i < 8 \<and> bit (enable (hw s)) i \<and>
    (bit (pending (hw s)) i \<or>
     edges_in env (now s) (now (snd (bus_access env (BusRead (base cfg + PENDING_REG)) s)) - 1) i)"
proof (cases "i < 8")
  case True
  with read_pending [of "base cfg + PENDING_REG" env s i] reg_decode [OF assms(1)] assms(2) show ?thesis
    by (auto simp: serviced_def bit_simps bit_ucast8)
next
  case False
  then have "\<not> bit (enable (hw s)) i" using bit_imp_le_length [of "enable (hw s)" i] by auto
  then show ?thesis by (simp add: serviced_def bit_simps bit_ucast8 False)
qed

lemma isr_entry_state:
  assumes "intc_cfg_ok cfg" "tracks env s"
  shows "tracks env (isr_entry env cfg s)" "child (isr_entry env cfg s) = child s" "now s < now (isr_entry env cfg s)"
    "enable (hw (isr_entry env cfg s)) = enable (hw s)"
    "i < 8 \<Longrightarrow> bit (pending (hw (isr_entry env cfg s))) i \<longleftrightarrow>
      (bit (pending (hw s)) i \<or> edges_in env (now s) (now (isr_entry env cfg s)) i) \<and> \<not> bit (serviced env cfg s) i"
proof -
  let ?s1 = "snd (bus_access env (BusRead (base cfg + PENDING_REG)) s)"
  let ?s2 = "snd (bus_access env (BusRead (base cfg + ENABLE_REG)) ?s1)"
  let ?s3 = "snd (bus_access env (BusWrite (base cfg + PENDING_REG) (serviced env cfg s)) ?s2)"
  have t: "now s < now ?s1" "now ?s1 < now ?s2" "now ?s2 < now ?s3" by simp_all
  then show "now s < now (isr_entry env cfg s)" unfolding isr_entry_def by (meson less_trans)
  show "tracks env (isr_entry env cfg s)" "child (isr_entry env cfg s) = child s"
    "enable (hw (isr_entry env cfg s)) = enable (hw s)"
    using assms(1) by (simp_all add: isr_entry_def)
  show "bit (pending (hw (isr_entry env cfg s))) i \<longleftrightarrow>
      (bit (pending (hw s)) i \<or> edges_in env (now s) (now (isr_entry env cfg s)) i) \<and> \<not> bit (serviced env cfg s) i"
    if "i < 8"
    using assms that edges_in_join3 [OF t, of env i] by (simp add: isr_entry_def access_pending)
qed

section \<open>The next-level interrupt interface\<close>

text \<open>
  What drivers behind the aggregator rely on when they enable and disable their lines:
  a line is enabled after it was enabled and until it is disabled, whatever happens to the
  others.
\<close>

locale irq_next_level =
  fixes on :: "nat \<Rightarrow> 's \<Rightarrow> 's"
    and off :: "nat \<Rightarrow> 's \<Rightarrow> 's"
    and line :: "nat \<Rightarrow> 's \<Rightarrow> bool"
    and valid :: "nat \<Rightarrow> bool"
  assumes line_on: "valid i \<Longrightarrow> valid j \<Longrightarrow> line j (on i s) \<longleftrightarrow> i = j \<or> line j s"
    and line_off: "valid i \<Longrightarrow> valid j \<Longrightarrow> line j (off i s) \<longleftrightarrow> i \<noteq> j \<and> line j s"
begin

text \<open>A sequence of calls, each with the line and whether it is switched on.\<close>

definition switch :: "(nat \<times> bool) \<Rightarrow> 's \<Rightarrow> 's" where
  "switch c s = (if snd c then on (fst c) s else off (fst c) s)"

lemma line_sequence:
  "\<forall>c \<in> set cs. valid (fst c) \<Longrightarrow> valid j \<Longrightarrow>
   line j (fold switch cs s) = (case map_of (rev cs) j of None \<Rightarrow> line j s | Some b \<Rightarrow> b)"
proof (induction cs arbitrary: s)
  case (Cons c cs)
  then show ?case
    using line_on [of "fst c" j s] line_off [of "fst c" j s]
    by (cases c) (auto simp: switch_def map_add_def split: option.splits)
qed simp

end

lemma enable_intr_enable:
  "intc_cfg_ok cfg \<Longrightarrow> enable (hw (intr_enable env cfg irq s)) = enable (hw s) OR ucast (BIT irq)"
  using reg_decode [of cfg]
  by (simp add: intr_enable_def Let_def split_beta sys_read32_def sys_write32_def read_enable)
    (simp add: bit_eq_iff bit_simps bit_ucast8)

lemma enable_intr_disable:
  "intc_cfg_ok cfg \<Longrightarrow> enable (hw (intr_disable env cfg irq s)) = enable (hw s) AND NOT (ucast (BIT irq))"
  using reg_decode [of cfg]
  by (simp add: intr_disable_def Let_def split_beta sys_read32_def sys_write32_def read_enable)
    (auto simp: bit_eq_iff bit_simps bit_ucast8)

lemma line_state_eq:
  assumes "intc_cfg_ok cfg" "irq < 8"
  shows "fst (intr_get_line_state env cfg irq s) \<longleftrightarrow> bit (enable (hw s)) irq"
proof -
  have "w AND BIT irq \<noteq> 0 \<longleftrightarrow> bit w irq" for w :: u32
  proof -
    have "bit (w AND BIT irq) n \<longleftrightarrow> n = irq \<and> bit w irq" for n
      using assms(2) by (auto simp: bit_simps bit_BIT)
    then show ?thesis by (metis bit_0_eq bot_apply bot_bool_def bit_eqI)
  qed
  then show ?thesis using reg_decode [OF assms(1)]
    by (simp add: intr_get_line_state_def Let_def split_beta sys_read32_def read_enable bit_ucast8)
qed

definition board_intc :: "nat \<Rightarrow> intc_config" where
  "board_intc offset = \<lparr>base = 0x4000, isr_table_offset = offset\<rparr>"

lemma board_intc_ok [simp]: "intc_cfg_ok (board_intc offset)"
  by (simp add: intc_cfg_ok_def board_intc_def)

interpretation intc_lines: irq_next_level "intr_enable env (board_intc offset)" "intr_disable env (board_intc offset)"
    "\<lambda>i s. fst (intr_get_line_state env (board_intc offset) i s)" "\<lambda>i. i < 8" for env offset
  by unfold_locales
    (auto simp: line_state_eq enable_intr_enable enable_intr_disable bit_simps bit_BIT)

section \<open>Properties\<close>

definition run_bus :: "intc_env \<Rightarrow> bus list \<Rightarrow> 'c intc_sys \<Rightarrow> 'c intc_sys" where
  "run_bus env ops s = fold (\<lambda>op s. snd (tick env op s)) ops s"

definition held :: "bus list \<Rightarrow> nat \<Rightarrow> bool" where
  "held ops i \<longleftrightarrow> (\<forall>op \<in> set ops. \<not> clears op i)"

lemma run_bus_snoc: "run_bus env (ops @ [op]) s = snd (tick env op (run_bus env ops s))"
  by (simp add: run_bus_def)

lemma run_bus_time: "now (run_bus env ops s) = now s + length ops" "tracks env s \<Longrightarrow> tracks env (run_bus env ops s)"
  by (induction ops rule: rev_induct) (simp_all add: run_bus_snoc run_bus_def [of _ "[]"])

lemma pending_trace_aux:
  assumes "tracks env s" "i < 8"
  shows "bit (pending (hw (run_bus env ops s))) i \<longleftrightarrow>
    (bit (pending (hw s)) i \<and> held ops i) \<or>
    (\<exists>k < length ops. edge env (now s + k) i \<and> held (drop k ops) i)"
proof (induction ops rule: rev_induct)
  case (snoc op ops)
  have h: "held (drop k (ops @ [op])) i \<longleftrightarrow> held (drop k ops) i \<and> \<not> clears op i" if "k \<le> length ops" for k
    using that by (auto simp: held_def)
  have "(\<exists>k < length (ops @ [op]). edge env (now s + k) i \<and> held (drop k (ops @ [op])) i) \<longleftrightarrow>
      ((\<exists>k < length ops. edge env (now s + k) i \<and> held (drop k ops) i) \<or> edge env (now s + length ops) i) \<and> \<not> clears op i"
    using h by (auto simp: less_Suc_eq held_def)
  moreover have "held (ops @ [op]) i \<longleftrightarrow> held ops i \<and> \<not> clears op i" by (auto simp: held_def)
  ultimately show ?case
    using snoc tick_pending [OF run_bus_time(2) [OF assms(1)] assms(2), of op ops]
    by (auto simp: run_bus_snoc run_bus_time)
qed (simp add: run_bus_def held_def)

text \<open>
  C30. The pending register after any sequence of cycles: source \<open>i\<close> is pending exactly if
  some rising edge of it was not followed by a write that clears it, in the same cycle or
  later, or it was pending at the start and never cleared.
\<close>

theorem pending_trace:
  assumes "tracks env s" "i < 8"
  shows "bit (pending (hw (run_bus env ops s))) i \<longleftrightarrow>
    (bit (pending (hw s)) i \<and> held ops i) \<or>
    (\<exists>k < length ops. edge env (now s + k) i \<and> held (drop k ops) i)"
  using assms by (rule pending_trace_aux)

definition quiet_intc :: "nat intc_sys" where
  "quiet_intc = \<lparr>hw = \<lparr>enable = 0, pending = 0, irq_in_prev = 0\<rparr>, now = 0, accesses = 0, child = 0\<rparr>"

definition demo_lines :: intc_env where
  "demo_lines = \<lparr>irq_lines = (\<lambda>n. if n = 1 then 0x06 else 0), bus_gap = (\<lambda>_. 1)\<rparr>"

lemma quiet_tracks: "tracks env quiet_intc"
  by (simp add: tracks_def quiet_intc_def)

theorem pending_trace_witness:
  "bit (pending (hw (run_bus demo_lines [BusIdle, BusIdle, BusWrite 0x4004 0x02] quiet_intc))) 2"
proof -
  have "edge demo_lines (now quiet_intc + 1) 2" by (simp add: edge_def demo_lines_def quiet_intc_def)
  moreover have "held (drop 1 [BusIdle, BusIdle, BusWrite 0x4004 0x02]) 2"
    by (simp add: held_def clears_def)
  ultimately show ?thesis
    using pending_trace [OF quiet_tracks, of 2 demo_lines "[BusIdle, BusIdle, BusWrite 0x4004 0x02]"] by auto
qed

text \<open>
  C13. The handler of the aggregated line: it calls the second-level handlers of exactly the
  enabled sources found pending, each once, lowest first. When the first of them starts,
  the enable mask is unchanged, and a source is still pending exactly if it fired before
  and is not one of those served: no event is lost, and none is both served and kept.
\<close>

theorem intc_isr_dispatch:
  assumes "intc_cfg_ok cfg" "tracks env s"
  shows "\<exists>s1 srv. intc_isr env cfg isr_table s = fold (\<lambda>b. isr_table (isr_table_offset cfg + b)) srv s1 \<and>
    sorted_wrt (<) srv \<and> (\<forall>i. i \<in> set srv \<longrightarrow> i < 8 \<and> bit (enable (hw s)) i) \<and>
    (\<forall>i < 8. bit (enable (hw s)) i \<and> bit (pending (hw s)) i \<longrightarrow> i \<in> set srv) \<and>
    tracks env s1 \<and> child s1 = child s \<and> enable (hw s1) = enable (hw s) \<and>
    (\<forall>i < 8. (i \<in> set srv \<or> bit (pending (hw s1)) i \<longleftrightarrow> bit (pending (hw s)) i \<or> edges_in env (now s) (now s1) i) \<and>
       \<not> (i \<in> set srv \<and> bit (pending (hw s1)) i))"
proof -
  let ?srv = "filter (bit (serviced env cfg s)) [0..<32]" and ?s1 = "isr_entry env cfg s"
  let ?s = "snd (bus_access env (BusRead (base cfg + PENDING_REG)) s)"
  have mem: "i \<in> set ?srv \<longleftrightarrow> bit (serviced env cfg s) i" for i
    using serviced_bits [OF assms, of i] by auto
  have "now ?s < now ?s1" unfolding isr_entry_def by (meson access_simps(1) less_trans)
  then have fired: "bit (pending (hw s)) i \<or> edges_in env (now s) (now ?s1) i" if "bit (serviced env cfg s) i" for i
    using that serviced_bits [OF assms, of i] unfolding edges_in_def by (metis less_imp_diff_less less_trans)
  have pend: "i \<in> set ?srv \<or> bit (pending (hw ?s1)) i \<longleftrightarrow> bit (pending (hw s)) i \<or> edges_in env (now s) (now ?s1) i"
      "\<not> (i \<in> set ?srv \<and> bit (pending (hw ?s1)) i)" if "i < 8" for i
    using isr_entry_state(5) [OF assms that] fired [of i] mem by auto
  have "sorted_wrt (<) ?srv" by (intro sorted_wrt_filter) (rule sorted_wrt_upt)
  moreover have "\<forall>i. i \<in> set ?srv \<longrightarrow> i < 8 \<and> bit (enable (hw s)) i"
    "\<forall>i < 8. bit (enable (hw s)) i \<and> bit (pending (hw s)) i \<longrightarrow> i \<in> set ?srv"
    unfolding mem by (auto simp: serviced_bits [OF assms])
  ultimately show ?thesis
    using intc_isr_eq [OF assms(1), of env isr_table s] isr_entry_state(1,2,4) [OF assms] pend
    by (intro exI [of _ ?s1] exI [of _ ?srv] conjI) simp_all
qed

theorem intc_isr_dispatch_witness:
  "child (intc_isr demo_lines (board_intc 16) (\<lambda>n s. s\<lparr>child := child s * 100 + n\<rparr>)
     (quiet_intc\<lparr>hw := \<lparr>enable = 0x0A, pending = 0x0E, irq_in_prev = 0\<rparr>\<rparr>)) = 1719"
proof -
  let ?s = "quiet_intc\<lparr>hw := \<lparr>enable = 0x0A, pending = 0x0E, irq_in_prev = 0\<rparr>\<rparr>"
    and ?t = "\<lambda>n s. s\<lparr>child := child s * 100 + n\<rparr> :: nat intc_sys"
  have tr: "tracks demo_lines ?s" by (simp add: tracks_def quiet_intc_def)
  obtain s1 srv where r: "intc_isr demo_lines (board_intc 16) ?t ?s = fold (\<lambda>b. ?t (16 + b)) srv s1"
      "sorted_wrt (<) srv" "\<forall>i. i \<in> set srv \<longrightarrow> i < 8 \<and> bit (0x0A :: u8) i"
      "\<forall>i < 8. bit (0x0A :: u8) i \<and> bit (0x0E :: u8) i \<longrightarrow> i \<in> set srv" "child s1 = 0"
    using intc_isr_dispatch [OF board_intc_ok tr, of 16 ?t]
    by (auto simp: board_intc_def quiet_intc_def)
  have bits: "bit (0x0A :: u8) i \<longleftrightarrow> i = 1 \<or> i = 3" if "i < 8" for i
    using that unfolding less_eq_Suc_le by (auto simp: numeral_eq_Suc le_Suc_eq bit_Suc)
  have "srv = [1, 3]"
  proof (rule sorted_distinct_set_unique)
    show "set srv = set [1, 3]" using r(3,4) bits by (auto simp: numeral_eq_Suc)
  qed (use r(2) in \<open>auto simp: strict_sorted_iff\<close>)
  with r(1,5) show ?thesis by simp
qed


text \<open>
  Enabling a line: the mask gains that line and no other; whatever the line had latched
  while it was masked is discarded, and only edges after the discarding cycle can be pending;
  the other lines keep what they had latched and go on latching.
\<close>

theorem intr_enable_discards:
  assumes "intc_cfg_ok cfg" "tracks env s" "irq < 8"
  shows "\<exists>c. now s \<le> c \<and> c < now (intr_enable env cfg irq s) \<and>
    (\<forall>j < 8. bit (enable (hw (intr_enable env cfg irq s))) j \<longleftrightarrow> j = irq \<or> bit (enable (hw s)) j) \<and>
    (bit (pending (hw (intr_enable env cfg irq s))) irq \<longleftrightarrow>
       edges_in env (Suc c) (now (intr_enable env cfg irq s)) irq) \<and>
    (\<forall>j < 8. j \<noteq> irq \<longrightarrow> (bit (pending (hw (intr_enable env cfg irq s))) j \<longleftrightarrow>
       bit (pending (hw s)) j \<or> edges_in env (now s) (now (intr_enable env cfg irq s)) j))"
proof -
  let ?s1 = "snd (bus_access env (BusRead (base cfg + ENABLE_REG)) s)"
  let ?s2 = "snd (bus_access env (BusWrite (base cfg + PENDING_REG) (BIT irq)) ?s1)"
  let ?s3 = "snd (bus_access env (BusWrite (base cfg + ENABLE_REG)
      (ucast (enable (hw s)) OR BIT irq)) ?s2)"
  have eq: "intr_enable env cfg irq s = ?s3"
    using reg_decode [OF assms(1)]
    by (simp add: intr_enable_def Let_def split_beta sys_read32_def sys_write32_def read_enable)
  have t: "now s < now ?s1" "now ?s1 < now ?s2" "now ?s2 < now ?s3" by simp_all
  have en: "bit (enable (hw (intr_enable env cfg irq s))) j \<longleftrightarrow> j = irq \<or> bit (enable (hw s)) j" if "j < 8" for j
    using that assms(3) by (auto simp: enable_intr_enable [OF assms(1)] bit_simps bit_BIT)
  have suc: "Suc (now ?s2 - 1) = now ?s2" using t(2) by linarith
  have p: "bit (pending (hw ?s3)) irq \<longleftrightarrow> edges_in env (Suc (now ?s2 - 1)) (now ?s3) irq"
    using assms unfolding suc by (simp add: access_pending bit_BIT)
  have o: "bit (pending (hw ?s3)) j \<longleftrightarrow> bit (pending (hw s)) j \<or> edges_in env (now s) (now ?s3) j"
    if "j < 8" "j \<noteq> irq" for j
    using assms that edges_in_join3 [OF t, of env j] by (simp add: access_pending bit_BIT)
  have "now s \<le> now ?s2 - 1" "now ?s2 - 1 < now ?s3" using t by linarith+
  then show ?thesis using en p o unfolding eq by blast
qed

theorem intr_enable_discards_witness:
  "\<not> bit (pending (hw (intr_enable demo_lines (board_intc 0) 3
     (quiet_intc\<lparr>hw := \<lparr>enable = 0, pending = 0x08, irq_in_prev = 0\<rparr>\<rparr>)))) 3"
proof -
  have tr: "tracks demo_lines (quiet_intc\<lparr>hw := \<lparr>enable = 0, pending = 0x08, irq_in_prev = 0\<rparr>\<rparr>)"
    by (simp add: tracks_def quiet_intc_def)
  have "\<not> edges_in demo_lines m n 3" for m n by (simp add: edges_in_def edge_def demo_lines_def)
  with intr_enable_discards [OF board_intc_ok tr, of 3 0] show ?thesis by auto
qed

text \<open>
  The lines as their drivers see them: after any sequence of enabling and disabling
  calls a line reads as its last call set it, or as before if there was none.
\<close>

theorem line_state_sequence:
  assumes "\<forall>c \<in> set cs. fst c < 8" "j < 8"
  shows "fst (intr_get_line_state env (board_intc offset) j
      (fold (\<lambda>c s. if snd c then intr_enable env (board_intc offset) (fst c) s
                   else intr_disable env (board_intc offset) (fst c) s) cs s)) =
    (case map_of (rev cs) j of None \<Rightarrow> fst (intr_get_line_state env (board_intc offset) j s) | Some b \<Rightarrow> b)"
  using intc_lines.line_sequence [OF assms, of env offset s]
  unfolding intc_lines.switch_def [abs_def] .

theorem line_state_sequence_witness:
  "fst (intr_get_line_state demo_lines (board_intc 0) 2
     (fold (\<lambda>c s. if snd c then intr_enable demo_lines (board_intc 0) (fst c) s
                  else intr_disable demo_lines (board_intc 0) (fst c) s) [(2, True), (1, True), (1, False)] quiet_intc))"
  using line_state_sequence [of "[(2, True), (1, True), (1, False)]" 2 demo_lines 0 quiet_intc] by simp

text \<open>
  Initialisation: whatever was enabled or latched before, no line is enabled, nothing is
  pending and the aggregated line is low when \<^verbatim>\<open>config_func\<close> connects it.
\<close>

theorem intc_initialize_quiet:
  assumes "intc_cfg_ok cfg" "tracks env s"
  shows "\<exists>s1. intc_initialize env cfg config_func s = (RC_OK, config_func s1) \<and> enable (hw s1) = 0 \<and>
    pending (hw s1) = 0 \<and> \<not> irq_out (hw s1) \<and> tracks env s1"
proof -
  let ?s1 = "snd (bus_access env (BusWrite (base cfg + ENABLE_REG) 0) s)"
  let ?s2 = "snd (bus_access env (BusWrite (base cfg + PENDING_REG) (BIT_MASK NUM_SOURCES)) ?s1)"
  have mask: "bit (BIT_MASK NUM_SOURCES) i" if "i < 8" for i
  proof -
    have "BIT_MASK NUM_SOURCES = mask 8" by (simp add: BIT_MASK_def BIT_def NUM_SOURCES_def mask_eq_exp_minus_1)
    then show ?thesis using that by (simp add: bit_simps)
  qed
  have "\<not> bit (pending (hw ?s2)) i" if "i < 8" for i
    using that assms by (simp add: access_pending mask)
  then have "pending (hw ?s2) = 0" by (intro bit_word_eqI) simp
  moreover have "intc_initialize env cfg config_func s = (RC_OK, config_func ?s2)"
    by (simp add: intc_initialize_def Let_def sys_write32_def)
  ultimately show ?thesis using assms(1) by (intro exI [of _ ?s2]) (simp add: irq_out_def)
qed

theorem intc_initialize_quiet_witness:
  "\<exists>s1. intc_initialize demo_lines (board_intc 0) id (quiet_intc\<lparr>hw := \<lparr>enable = 3, pending = 3, irq_in_prev = 0\<rparr>\<rparr>) =
     (RC_OK, s1) \<and> \<not> irq_out (hw s1)"
proof -
  have "tracks demo_lines (quiet_intc\<lparr>hw := \<lparr>enable = 3, pending = 3, irq_in_prev = 0\<rparr>\<rparr>)"
    by (simp add: tracks_def quiet_intc_def)
  from intc_initialize_quiet [OF board_intc_ok this, of 0 id] show ?thesis by auto
qed

text \<open>
  C31. A rising edge in the very cycle of a write that clears its source is dropped, and
  when the line then stays high, as a completion flag does, it is never latched again.
\<close>

theorem same_cycle_edge_lost:
  assumes "tracks env s" "i < 8" "clears op i" "\<forall>k \<ge> now s. bit (irq_lines env k) i"
  shows "\<not> bit (pending (hw (idle env n (snd (tick env op s))))) i"
proof -
  have "\<not> edges_in env (Suc (now s)) (Suc (now s) + n) i"
    using assms(4) by (auto simp: edges_in_def edge_def)
  then show ?thesis using assms(1-3) by (simp add: idle_pending tick_pending)
qed

theorem same_cycle_edge_lost_witness:
  "\<not> bit (pending (hw (idle \<lparr>irq_lines = (\<lambda>n. if n < 5 then 0 else 4), bus_gap = (\<lambda>_. 0)\<rparr> 1000
     (snd (tick \<lparr>irq_lines = (\<lambda>n. if n < 5 then 0 else 4), bus_gap = (\<lambda>_. 0)\<rparr> (BusWrite 0x4004 4)
       (quiet_intc\<lparr>now := 5\<rparr>)))))) 2"
proof -
  let ?e = "\<lparr>irq_lines = (\<lambda>n. if n < 5 then 0 else 4), bus_gap = (\<lambda>_. 0)\<rparr> :: intc_env"
  have "tracks ?e (quiet_intc\<lparr>now := 5\<rparr>)" "clears (BusWrite 0x4004 4) 2"
    by (simp_all add: tracks_def quiet_intc_def clears_def is_intc_addr_def is_enable_reg_def is_pending_reg_def)
  from same_cycle_edge_lost [OF this(1) _ this(2)] show ?thesis by simp
qed

end
