(* ===== verification/Uart.thy ===== *)
theory Uart
  imports Intc
begin

text \<open>
  The serial port: the hardware blocks \<^verbatim>\<open>src/uart_tx.v\<close> and \<^verbatim>\<open>src/uart_mmio.v\<close> as a clocked
  machine and the driver \<^verbatim>\<open>zephyr/drivers/serial/uart_rv32_5stage.c\<close>. Bus accesses are
  single cycles at moments the environment chooses, at least one cycle apart; the environment also
  gives the bytes the receiver delivers. The driver's interrupt lines belong to the aggregator: its operations
  are the parameters of the interface \<^verbatim>\<open>irq_next_level\<close>. The registered callback is an
  identifier, and what it does a parameter.
\<close>

section \<open>The transmitter\<close>

datatype tx_fsm = IDLE | START | DATA | STOP

record uart_tx =
  fsm :: tx_fsm
  clock_count :: nat
  bit_index :: nat
  saved_data :: u8
  tx :: bool
  tx_ready :: bool

text \<open>A clock edge of \<^verbatim>\<open>uart_tx\<close> with \<open>n\<close> clocks per bit.\<close>

definition uart_tx_clock :: "nat \<Rightarrow> bool \<Rightarrow> u8 \<Rightarrow> uart_tx \<Rightarrow> uart_tx" where
  "uart_tx_clock n start d t =
     (case fsm t of
        IDLE \<Rightarrow> (let t = t\<lparr>tx := True, clock_count := 0, bit_index := 0\<rparr>
                 in if start then t\<lparr>tx_ready := False, saved_data := d, fsm := START\<rparr> else t\<lparr>tx_ready := True\<rparr>)
      | START \<Rightarrow> (let t = t\<lparr>tx := False\<rparr>
                 in if clock_count t < n - 1 then t\<lparr>clock_count := clock_count t + 1\<rparr>
                    else t\<lparr>clock_count := 0, fsm := DATA\<rparr>)
      | DATA \<Rightarrow> (let t = t\<lparr>tx := bit (saved_data t) (bit_index t)\<rparr>
                 in if clock_count t < n - 1 then t\<lparr>clock_count := clock_count t + 1\<rparr>
                    else if bit_index t < 7 then t\<lparr>clock_count := 0, bit_index := bit_index t + 1\<rparr>
                    else t\<lparr>clock_count := 0, fsm := STOP\<rparr>)
      | STOP \<Rightarrow> (let t = t\<lparr>tx := True\<rparr>
                 in if clock_count t < n - 1 then t\<lparr>clock_count := clock_count t + 1\<rparr>
                    else t\<lparr>clock_count := 0, fsm := IDLE\<rparr>))"

section \<open>The bus block\<close>

text \<open>
  \<open>sent\<close> records the bytes the transmitter has accepted and \<open>wire\<close> the level of the \<^verbatim>\<open>tx\<close> wire at every clock edge
  so far.
\<close>

record uart =
  txu :: uart_tx
  tx_start :: bool
  tx_data :: u8
  tx_ready_prev :: bool
  tx_irq :: bool
  rx_holding :: u8
  rx_has_data :: bool
  sent :: "u8 list"
  wire :: "bool list"

definition is_uart_addr :: "u32 \<Rightarrow> bool" where "is_uart_addr a \<longleftrightarrow> drop_bit 12 a = 0x40001"

definition uart_clock :: "nat \<Rightarrow> bus \<Rightarrow> u8 option \<Rightarrow> uart \<Rightarrow> u32 \<times> uart" where
  "uart_clock n op rx u =
     (let u' = u\<lparr>txu := uart_tx_clock n (tx_start u) (tx_data u) (txu u),
                 sent := (if tx_start u \<and> fsm (txu u) = IDLE then sent u @ [tx_data u] else sent u),
                 wire := wire u @ [tx (txu u)],
                 tx_ready_prev := tx_ready (txu u),
                 tx_irq := tx_ready (txu u) \<and> \<not> tx_ready_prev u,
                 tx_start := False,
                 rx_holding := (case rx of None \<Rightarrow> rx_holding u | Some b \<Rightarrow> b),
                 rx_has_data := (rx_has_data u \<or> rx \<noteq> None)\<rparr>
      in case op of
           BusWrite a d \<Rightarrow>
             (0, if is_uart_addr a \<and> a AND 0xFFF = 0 then u'\<lparr>tx_data := ucast d, tx_start := True\<rparr> else u')
         | BusRead a \<Rightarrow>
             (if \<not> is_uart_addr a then (0, u')
              else if a AND 0xFFF = 4 then (of_bool (tx_ready (txu u)), u')
              else if a AND 0xFFF = 8 then (ucast (rx_holding u), u'\<lparr>rx_has_data := (rx \<noteq> None)\<rparr>)
              else if a AND 0xFFF = 0xC then (of_bool (rx_has_data u), u')
              else (0, u'))
         | BusIdle \<Rightarrow> (0, u'))"

section \<open>The system around it\<close>

record uart_env =
  clocks_per_bit :: nat
  rx_in :: "nat \<Rightarrow> u8 option"
  access_gap :: "nat \<Rightarrow> nat"

record 'i uart_sys =
  dev :: uart
  cycle :: nat
  n_access :: nat
  intc_dev :: 'i
  cb :: "nat option"
  cb_data :: nat

record uart_config =
  uart_base :: u32
  tx_line :: nat
  rx_line :: nat

definition uart_cycle :: "uart_env \<Rightarrow> bus \<Rightarrow> 'i uart_sys \<Rightarrow> u32 \<times> 'i uart_sys" where
  "uart_cycle env op s =
     (let (r, u) = uart_clock (clocks_per_bit env) op (rx_in env (cycle s)) (dev s)
      in (r, s\<lparr>dev := u, cycle := Suc (cycle s)\<rparr>))"

fun uart_wait :: "uart_env \<Rightarrow> nat \<Rightarrow> 'i uart_sys \<Rightarrow> 'i uart_sys" where
  "uart_wait env 0 s = s"
| "uart_wait env (Suc n) s = uart_wait env n (snd (uart_cycle env BusIdle s))"

text \<open>An access: at least one cycle passes before it.\<close>

definition uart_access :: "uart_env \<Rightarrow> bus \<Rightarrow> 'i uart_sys \<Rightarrow> u32 \<times> 'i uart_sys" where
  "uart_access env op s =
     uart_cycle env op (uart_wait env (Suc (access_gap env (n_access s))) (s\<lparr>n_access := Suc (n_access s)\<rparr>))"

definition uart_read32 :: "uart_env \<Rightarrow> u32 \<Rightarrow> 'i uart_sys \<Rightarrow> u32 \<times> 'i uart_sys" where
  "uart_read32 env a s = uart_access env (BusRead a) s"

definition uart_write32 :: "uart_env \<Rightarrow> u32 \<Rightarrow> u32 \<Rightarrow> 'i uart_sys \<Rightarrow> 'i uart_sys" where
  "uart_write32 env v a s = snd (uart_access env (BusWrite a v) s)"

section \<open>The driver\<close>

definition TX_DATA :: u32 where "TX_DATA = 0x0"
definition TX_STATUS :: u32 where "TX_STATUS = 0x4"
definition RX_DATA :: u32 where "RX_DATA = 0x8"
definition RX_STATUS :: u32 where "RX_STATUS = 0xC"
definition TX_READY_BIT :: u32 where "TX_READY_BIT = 1"
definition RX_HAS_DATA_BIT :: u32 where "RX_HAS_DATA_BIT = 1"

text \<open>The local line of an interrupt number, for the numbers of level bits of the build.\<close>

definition UART_IRQ_FROM_L2 :: "nat \<Rightarrow> nat \<Rightarrow> u32 \<Rightarrow> u32" where
  "UART_IRQ_FROM_L2 b1 b2 irq = from_l2 b1 b2 irq"

text \<open>The transmission loop on the addresses of the status and data registers.\<close>

partial_function (option) tx_poll :: "uart_env \<Rightarrow> u32 \<Rightarrow> u32 \<Rightarrow> u8 \<Rightarrow> 'i uart_sys \<Rightarrow> 'i uart_sys option" where
  "tx_poll env status_reg data_reg c s =
     (let (st, s) = uart_read32 env status_reg s
      in if st AND TX_READY_BIT = 0 then tx_poll env status_reg data_reg c s
         else Some (uart_write32 env (ucast c) data_reg s))"

definition poll_out :: "uart_env \<Rightarrow> uart_config \<Rightarrow> u8 \<Rightarrow> 'i uart_sys \<Rightarrow> 'i uart_sys option" where
  "poll_out env cfg c s = tx_poll env (uart_base cfg + TX_STATUS) (uart_base cfg + TX_DATA) c s"

text \<open>\<^const>\<open>None\<close> is the return value -1.\<close>

definition poll_in :: "uart_env \<Rightarrow> uart_config \<Rightarrow> 'i uart_sys \<Rightarrow> u8 option \<times> 'i uart_sys" where
  "poll_in env cfg s =
     (let (st, s) = uart_read32 env (uart_base cfg + RX_STATUS) s
      in if st AND RX_HAS_DATA_BIT = 0 then (None, s)
         else (let (d, s) = uart_read32 env (uart_base cfg + RX_DATA) s in (Some (ucast d), s)))"

definition irq_tx_ready :: "uart_env \<Rightarrow> uart_config \<Rightarrow> 'i uart_sys \<Rightarrow> bool \<times> 'i uart_sys" where
  "irq_tx_ready env cfg s =
     (let (st, s) = uart_read32 env (uart_base cfg + TX_STATUS) s in (st AND TX_READY_BIT \<noteq> 0, s))"

definition irq_tx_complete :: "uart_env \<Rightarrow> uart_config \<Rightarrow> 'i uart_sys \<Rightarrow> bool \<times> 'i uart_sys" where
  "irq_tx_complete env cfg s = irq_tx_ready env cfg s"

definition irq_rx_ready :: "uart_env \<Rightarrow> uart_config \<Rightarrow> 'i uart_sys \<Rightarrow> bool \<times> 'i uart_sys" where
  "irq_rx_ready env cfg s =
     (let (st, s) = uart_read32 env (uart_base cfg + RX_STATUS) s in (st AND RX_HAS_DATA_BIT \<noteq> 0, s))"

definition fifo_fill :: "uart_env \<Rightarrow> uart_config \<Rightarrow> u8 list \<Rightarrow> 'i uart_sys \<Rightarrow> nat \<times> 'i uart_sys" where
  "fifo_fill env cfg bytes s =
     (case bytes of
        [] \<Rightarrow> (0, s)
      | b # _ \<Rightarrow>
          (let (st, s) = uart_read32 env (uart_base cfg + TX_STATUS) s
           in if st AND TX_READY_BIT = 0 then (0, s)
              else (1, uart_write32 env (ucast b) (uart_base cfg + TX_DATA) s)))"

text \<open>The bytes stored into the caller's buffer; their number is the return value.\<close>

definition fifo_read :: "uart_env \<Rightarrow> uart_config \<Rightarrow> nat \<Rightarrow> 'i uart_sys \<Rightarrow> u8 list \<times> 'i uart_sys" where
  "fifo_read env cfg n s =
     (if n < 1 then ([], s)
      else (let (st, s) = uart_read32 env (uart_base cfg + RX_STATUS) s
            in if st AND RX_HAS_DATA_BIT = 0 then ([], s)
               else (let (d, s) = uart_read32 env (uart_base cfg + RX_DATA) s in ([ucast d], s))))"

definition run_cb :: "(nat \<Rightarrow> nat \<Rightarrow> 'i uart_sys \<Rightarrow> 'i uart_sys) \<Rightarrow> 'i uart_sys \<Rightarrow> 'i uart_sys" where
  "run_cb call s = (case cb s of None \<Rightarrow> s | Some f \<Rightarrow> call f (cb_data s) s)"

definition irq_tx_enable ::
    "(nat \<Rightarrow> 'i \<Rightarrow> 'i) \<Rightarrow> (nat \<Rightarrow> nat \<Rightarrow> 'i uart_sys \<Rightarrow> 'i uart_sys) \<Rightarrow> uart_env \<Rightarrow> uart_config \<Rightarrow> 'i uart_sys \<Rightarrow> 'i uart_sys" where
  "irq_tx_enable irq_on call env cfg s =
     (let s = s\<lparr>intc_dev := irq_on (tx_line cfg) (intc_dev s)\<rparr>;
          (ready, s) = irq_tx_ready env cfg s
      in if ready then run_cb call s else s)"

definition irq_tx_disable :: "(nat \<Rightarrow> 'i \<Rightarrow> 'i) \<Rightarrow> uart_config \<Rightarrow> 'i uart_sys \<Rightarrow> 'i uart_sys" where
  "irq_tx_disable irq_off cfg s = s\<lparr>intc_dev := irq_off (tx_line cfg) (intc_dev s)\<rparr>"

definition irq_rx_enable :: "(nat \<Rightarrow> 'i \<Rightarrow> 'i) \<Rightarrow> uart_config \<Rightarrow> 'i uart_sys \<Rightarrow> 'i uart_sys" where
  "irq_rx_enable irq_on cfg s = s\<lparr>intc_dev := irq_on (rx_line cfg) (intc_dev s)\<rparr>"

definition irq_rx_disable :: "(nat \<Rightarrow> 'i \<Rightarrow> 'i) \<Rightarrow> uart_config \<Rightarrow> 'i uart_sys \<Rightarrow> 'i uart_sys" where
  "irq_rx_disable irq_off cfg s = s\<lparr>intc_dev := irq_off (rx_line cfg) (intc_dev s)\<rparr>"

definition irq_is_pending :: "uart_env \<Rightarrow> uart_config \<Rightarrow> 'i uart_sys \<Rightarrow> bool \<times> 'i uart_sys" where
  "irq_is_pending env cfg s =
     (let (t, s) = irq_tx_ready env cfg s in if t then (True, s) else irq_rx_ready env cfg s)"

definition irq_update :: "'i uart_sys \<Rightarrow> 'i uart_sys" where
  "irq_update s = s"


definition uart_isr :: "(nat \<Rightarrow> nat \<Rightarrow> 'i uart_sys \<Rightarrow> 'i uart_sys) \<Rightarrow> 'i uart_sys \<Rightarrow> 'i uart_sys" where
  "uart_isr call s = run_cb call s"

definition uart_init :: "('i uart_sys \<Rightarrow> 'i uart_sys) \<Rightarrow> 'i uart_sys \<Rightarrow> rc \<times> 'i uart_sys" where
  "uart_init irq_config_func s = (RC_OK, irq_config_func s)"

section \<open>The transmitter's progress\<close>

definition uart_ok :: "nat \<Rightarrow> uart \<Rightarrow> bool" where
  "uart_ok n u \<longleftrightarrow> clock_count (txu u) < n \<and> bit_index (txu u) \<le> 7 \<and>
     (fsm (txu u) = START \<longrightarrow> bit_index (txu u) = 0) \<and> (tx_ready (txu u) \<longrightarrow> fsm (txu u) = IDLE) \<and> (tx_start u \<longrightarrow> fsm (txu u) = IDLE)"

text \<open>Cycles until the transmitter is ready for another byte.\<close>

definition busy_for :: "nat \<Rightarrow> uart \<Rightarrow> nat" where
  "busy_for n u = (let t = txu u; rest = n - clock_count t in
     case fsm t of
       IDLE \<Rightarrow> (if tx_start u then 10 * n + 2 else if tx_ready t then 0 else 1)
     | START \<Rightarrow> rest + 9 * n + 1
     | DATA \<Rightarrow> rest + (7 - bit_index t) * n + n + 1
     | STOP \<Rightarrow> rest + 1)"

text \<open>The bytes accepted so far, with the one being handed over.\<close>

definition outbox :: "uart \<Rightarrow> u8 list" where
  "outbox u = sent u @ (if tx_start u then [tx_data u] else [])"

definition tx_write :: "bus \<Rightarrow> bool" where
  "tx_write op \<longleftrightarrow> (case op of BusWrite a d \<Rightarrow> is_uart_addr a \<and> a AND 0xFFF = 0 | _ \<Rightarrow> False)"

lemma busy_for_0: "uart_ok n u \<Longrightarrow> busy_for n u = 0 \<longleftrightarrow> fsm (txu u) = IDLE \<and> \<not> tx_start u \<and> tx_ready (txu u)"
  by (auto simp: busy_for_def uart_ok_def Let_def split: tx_fsm.splits)

lemma clock_txu: "txu (snd (uart_clock n op rx u)) = uart_tx_clock n (tx_start u) (tx_data u) (txu u)"
  "\<not> tx_write op \<Longrightarrow> \<not> tx_start (snd (uart_clock n op rx u))"
  "sent (snd (uart_clock n op rx u)) = (if tx_start u \<and> fsm (txu u) = IDLE then sent u @ [tx_data u] else sent u)"
  by (auto simp: uart_clock_def Let_def tx_write_def split: bus.splits)

lemma tx_clock_ok:
  assumes "uart_ok n u"
  shows "let t = uart_tx_clock n (tx_start u) (tx_data u) (txu u) in
    clock_count t < n \<and> bit_index t \<le> 7 \<and> (fsm t = START \<longrightarrow> bit_index t = 0) \<and> (tx_ready t \<longrightarrow> fsm t = IDLE)"
  using assms by (auto simp: uart_ok_def uart_tx_clock_def Let_def split: tx_fsm.splits)

lemma clock_busy:
  assumes "uart_ok n u" "\<not> tx_write op"
  shows "uart_ok n (snd (uart_clock n op rx u))" "busy_for n (snd (uart_clock n op rx u)) = busy_for n u - 1"
    "outbox (snd (uart_clock n op rx u)) = outbox u"
proof -
  let ?u = "snd (uart_clock n op rx u)"
  note c = clock_txu(1) [of n op rx u] clock_txu(2) [OF assms(2), of n rx u] clock_txu(3) [of n op rx u]
  show "uart_ok n ?u" using tx_clock_ok [OF assms(1)] c by (simp add: uart_ok_def Let_def)
  show "outbox ?u = outbox u" using assms(1) c by (auto simp: outbox_def uart_ok_def)
  have "n + (7 - Suc b) * n = (7 - b) * n" if "b < 7" for b :: nat
  proof -
    have "7 - b = Suc (7 - Suc b)" using that by simp
    then show ?thesis by simp
  qed
  then show "busy_for n ?u = busy_for n u - 1"
    using assms(1) c by (cases "fsm (txu u)")
      (auto simp: busy_for_def uart_ok_def uart_tx_clock_def Let_def)
qed


abbreviation sys_ok :: "uart_env \<Rightarrow> 'i uart_sys \<Rightarrow> bool" where
  "sys_ok env s \<equiv> uart_ok (clocks_per_bit env) (dev s)"

abbreviation busy :: "uart_env \<Rightarrow> 'i uart_sys \<Rightarrow> nat" where
  "busy env s \<equiv> busy_for (clocks_per_bit env) (dev s)"

text \<open>What accesses leave alone: the aggregator and the registered callback.\<close>

definition client_of :: "'i uart_sys \<Rightarrow> 'i \<times> nat option \<times> nat" where
  "client_of s = (intc_dev s, cb s, cb_data s)"

lemma client_of_access [simp]: "client_of (s\<lparr>n_access := k\<rparr>) = client_of s"
  by (simp add: client_of_def)

lemma ucast_u8 [simp]: "ucast (ucast c :: u32) = c" for c :: u8
  by (rule bit_word_eqI) (simp add: bit_simps)

lemma cycle_simps [simp]:
  "client_of (snd (uart_cycle env op s)) = client_of s" "n_access (snd (uart_cycle env op s)) = n_access s"
  "cycle (snd (uart_cycle env op s)) = Suc (cycle s)"
  "dev (snd (uart_cycle env op s)) = snd (uart_clock (clocks_per_bit env) op (rx_in env (cycle s)) (dev s))"
  by (simp_all add: uart_cycle_def client_of_def split_beta)

lemma wait_simps [simp]:
  "client_of (uart_wait env n s) = client_of s" "cycle (uart_wait env n s) = cycle s + n"
  by (induction n arbitrary: s) simp_all

lemma wait_busy:
  "sys_ok env s \<Longrightarrow> sys_ok env (uart_wait env n s) \<and> busy env (uart_wait env n s) = busy env s - n \<and>
     outbox (dev (uart_wait env n s)) = outbox (dev s)"
  by (induction n arbitrary: s) (simp_all add: clock_busy tx_write_def)

lemma wait_Suc: "uart_wait env (Suc n) s = snd (uart_cycle env BusIdle (uart_wait env n s))"
  by (induction n arbitrary: s) simp_all

lemma wait_start: "\<not> tx_start (dev (uart_wait env (Suc n) s))"
  unfolding wait_Suc by (simp add: clock_txu tx_write_def)

text \<open>The state in which the access of a call takes place.\<close>

definition before_access :: "uart_env \<Rightarrow> 'i uart_sys \<Rightarrow> 'i uart_sys" where
  "before_access env s = uart_wait env (Suc (access_gap env (n_access s))) (s\<lparr>n_access := Suc (n_access s)\<rparr>)"

lemma access_eq: "uart_access env op s = uart_cycle env op (before_access env s)"
  by (simp add: uart_access_def before_access_def)

lemma before_access_ok:
  assumes "sys_ok env s"
  shows "sys_ok env (before_access env s)" "busy env (before_access env s) \<le> busy env s - 1"
    "outbox (dev (before_access env s)) = outbox (dev s)" "\<not> tx_start (dev (before_access env s))"
    "client_of (before_access env s) = client_of s" "cycle s < cycle (before_access env s)"
  using wait_busy [of env "s\<lparr>n_access := Suc (n_access s)\<rparr>" "Suc (access_gap env (n_access s))"] assms
    wait_start [of env "access_gap env (n_access s)" "s\<lparr>n_access := Suc (n_access s)\<rparr>"]
  by (simp_all add: before_access_def del: uart_wait.simps)

definition uart_cfg_ok :: "uart_config \<Rightarrow> bool" where
  "uart_cfg_ok cfg \<longleftrightarrow> uart_base cfg = 0x40001000"

lemma uart_decode:
  assumes "uart_cfg_ok cfg"
  shows "is_uart_addr (uart_base cfg + TX_DATA)" "(uart_base cfg + TX_DATA) AND 0xFFF = 0"
    "is_uart_addr (uart_base cfg + TX_STATUS)" "(uart_base cfg + TX_STATUS) AND 0xFFF = 4"
    "is_uart_addr (uart_base cfg + RX_DATA)" "(uart_base cfg + RX_DATA) AND 0xFFF = 8"
    "is_uart_addr (uart_base cfg + RX_STATUS)" "(uart_base cfg + RX_STATUS) AND 0xFFF = 0xC"
  using assms by (simp_all add: uart_cfg_ok_def is_uart_addr_def TX_DATA_def TX_STATUS_def RX_DATA_def RX_STATUS_def)

lemma read_tx_status:
  assumes "uart_cfg_ok cfg" "sys_ok env s"
  shows "fst (uart_read32 env (uart_base cfg + TX_STATUS) s) AND TX_READY_BIT \<noteq> 0 \<longleftrightarrow> busy env (before_access env s) = 0"
    (is ?rdy)
    and "sys_ok env (snd (uart_read32 env a s))" "outbox (dev (snd (uart_read32 env a s))) = outbox (dev s)"
    "busy env (snd (uart_read32 env a s)) = busy env (before_access env s) - 1"
    "client_of (snd (uart_read32 env a s)) = client_of s"
proof -
  note b = before_access_ok [OF assms(2)]
  have "fst (uart_read32 env (uart_base cfg + TX_STATUS) s) = of_bool (tx_ready (txu (dev (before_access env s))))"
    using uart_decode [OF assms(1)] by (simp add: uart_read32_def access_eq uart_cycle_def uart_clock_def Let_def)
  then show ?rdy using busy_for_0 [OF b(1)] b(1,4) by (auto simp: TX_READY_BIT_def uart_ok_def)
  show "sys_ok env (snd (uart_read32 env a s))" "outbox (dev (snd (uart_read32 env a s))) = outbox (dev s)"
    "busy env (snd (uart_read32 env a s)) = busy env (before_access env s) - 1"
    "client_of (snd (uart_read32 env a s)) = client_of s"
    using b clock_busy [OF b(1), of "BusRead a"] by (simp_all add: uart_read32_def access_eq tx_write_def)
qed

lemma write_tx_data:
  assumes "uart_cfg_ok cfg" "sys_ok env s" "busy env s = 0"
  shows "sys_ok env (uart_write32 env (ucast c) (uart_base cfg + TX_DATA) s)"
    "outbox (dev (uart_write32 env (ucast c) (uart_base cfg + TX_DATA) s)) = outbox (dev s) @ [c]"
    "client_of (uart_write32 env (ucast c) (uart_base cfg + TX_DATA) s) = client_of s"
proof -
  note b = before_access_ok [OF assms(2)]
  let ?u = "dev (before_access env s)"
  let ?w = "BusWrite (uart_base cfg + TX_DATA) (ucast c)"
  have idle: "fsm (txu ?u) = IDLE" "\<not> tx_start ?u" using b(1,2) assms(3) busy_for_0 [OF b(1)] by simp_all
  have u: "dev (uart_write32 env (ucast c) (uart_base cfg + TX_DATA) s) =
      snd (uart_clock (clocks_per_bit env) ?w (rx_in env (cycle (before_access env s))) ?u)"
    by (simp add: uart_write32_def access_eq)
  have w: "tx_start (snd (uart_clock n ?w rx ?u))" "tx_data (snd (uart_clock n ?w rx ?u)) = c" for n rx
    using uart_decode [OF assms(1)] by (simp_all add: uart_clock_def Let_def)
  show "sys_ok env (uart_write32 env (ucast c) (uart_base cfg + TX_DATA) s)"
    using b(1) idle unfolding u uart_ok_def clock_txu(1)
    by (simp add: uart_tx_clock_def)
  show "outbox (dev (uart_write32 env (ucast c) (uart_base cfg + TX_DATA) s)) = outbox (dev s) @ [c]"
    using b(3) idle unfolding u outbox_def clock_txu(3) by (simp add: w)
  show "client_of (uart_write32 env (ucast c) (uart_base cfg + TX_DATA) s) = client_of s"
    using b(5) by (simp add: uart_write32_def access_eq)
qed

lemma poll_out_returns:
  assumes "uart_cfg_ok cfg" "sys_ok env s"
  shows "\<exists>s'. poll_out env cfg c s = Some s' \<and> sys_ok env s' \<and> outbox (dev s') = outbox (dev s) @ [c] \<and>
    client_of s' = client_of s"
  using assms(2)
proof (induction "busy env s" arbitrary: s rule: less_induct)
  case less
  note r = read_tx_status [OF assms(1) less.prems]
  let ?s1 = "snd (uart_read32 env (uart_base cfg + TX_STATUS) s)"
  show ?case
  proof (cases "busy env (before_access env s) = 0")
    case True
    with r(1) r(4) [of "uart_base cfg + TX_STATUS"]
    have "poll_out env cfg c s = Some (uart_write32 env (ucast c) (uart_base cfg + TX_DATA) ?s1)" "busy env ?s1 = 0"
      by (simp_all add: poll_out_def tx_poll.simps [of env "uart_base cfg + TX_STATUS"] split_beta)
    with write_tx_data [OF assms(1) r(2) this(2), of c] r(3,5) show ?thesis by simp
  next
    case False
    with r(1) have "poll_out env cfg c s = poll_out env cfg c ?s1"
      unfolding poll_out_def by (subst tx_poll.simps) (simp add: split_beta)
    moreover have "busy env ?s1 < busy env s"
      using False r(4) [of "uart_base cfg + TX_STATUS"] before_access_ok(2) [OF less.prems] by simp
    ultimately show ?thesis using less.hyps [OF _ r(2)] r(3,5) by simp
  qed
qed


section \<open>The serial frame\<close>

text \<open>The ten bits of a frame: start bit, the byte with its low bit first, stop bit.\<close>

definition frame_bit :: "u8 \<Rightarrow> nat \<Rightarrow> bool" where
  "frame_bit d k = (if k = 0 then False else if k \<le> 8 then bit d (k - 1) else True)"

definition frame_state :: "nat \<Rightarrow> u8 \<Rightarrow> nat \<Rightarrow> uart_tx \<Rightarrow> bool" where
  "frame_state n d k t \<longleftrightarrow> saved_data t = d \<and> clock_count t = k mod n \<and>
     (if k < n then fsm t = START \<and> bit_index t = 0
      else if k < 9 * n then fsm t = DATA \<and> bit_index t = k div n - 1
      else if k < 10 * n then fsm t = STOP
      else fsm t = IDLE)"

lemma div_bounds:
  assumes "0 < (n :: nat)"
  shows "k < n \<longleftrightarrow> k div n = 0" "k < 9 * n \<longleftrightarrow> k div n < 9" "k < 10 * n \<longleftrightarrow> k div n < 10"
  using assms by (simp_all add: div_less_iff_less_mult div_eq_0_iff)

lemma frame_step:
  assumes n: "0 < n" and t: "frame_state n d k t" and k: "k < 10 * n"
  shows "frame_state n d (Suc k) (uart_tx_clock n start x t)" "tx (uart_tx_clock n start x t) = frame_bit d (k div n)"
proof -
  have s: "Suc k mod n = (if k mod n < n - 1 then Suc (k mod n) else 0)"
    "Suc k div n = (if k mod n < n - 1 then k div n else Suc (k div n))"
    using n mod_less_divisor [OF n, of k] by (auto simp: mod_Suc div_Suc)
  have q: "k div n < 10" using k div_bounds(3) [OF n] by blast
  show "frame_state n d (Suc k) (uart_tx_clock n start x t)"
    using t q unfolding frame_state_def div_bounds [OF n] s
    by (auto simp: uart_tx_clock_def Let_def split: if_splits)
  show "tx (uart_tx_clock n start x t) = frame_bit d (k div n)"
    using t q unfolding frame_state_def div_bounds [OF n]
    by (auto simp: uart_tx_clock_def Let_def frame_bit_def split: if_splits)
qed

lemma frame_states:
  assumes n: "0 < n" and t: "frame_state n d 0 t"
  shows "k \<le> 10 * n \<Longrightarrow> frame_state n d k ((uart_tx_clock n False x ^^ k) t)"
proof (induction k)
  case (Suc k)
  then show ?case using frame_step(1) [OF n, of d k] by simp
qed (use t in simp)

lemma uart_frame_aux:
  assumes "0 < n" "fsm t = IDLE" "k < 10 * n"
  shows "tx ((uart_tx_clock n False x ^^ Suc k) (uart_tx_clock n True d t)) = frame_bit d (k div n)"
proof -
  have 0: "frame_state n d 0 (uart_tx_clock n True d t)"
    using assms(1,2) by (simp add: frame_state_def uart_tx_clock_def Let_def)
  show ?thesis using frame_step(2) [OF assms(1) frame_states [OF assms(1) 0, of k x] assms(3)] assms(3) by simp
qed

section \<open>Completion and reception\<close>

lemma tx_complete_pulse:
  assumes "sys_ok env s" "0 < busy env s" "\<not> tx_start (dev s)"
  shows "tx_irq (dev (uart_wait env (Suc (busy env s)) s))" "\<not> tx_irq (dev (uart_wait env (busy env s) s))"
proof -
  obtain b where b: "busy env s = Suc b" using assms(2) by (cases "busy env s") auto
  let ?w = "uart_wait env b s" and ?n = "clocks_per_bit env"
  have w: "sys_ok env ?w" "busy env ?w = 1" using wait_busy [OF assms(1), of b] b by simp_all
  have ns: "\<not> tx_start (dev ?w)" using assms(3) wait_start [of env _ s] by (cases b) simp_all
  have "fsm (txu (dev ?w)) = IDLE" "\<not> tx_ready (txu (dev ?w))"
    using w ns by (auto simp: busy_for_def uart_ok_def Let_def split: tx_fsm.splits if_splits)
  then show "tx_irq (dev (uart_wait env (Suc (busy env s)) s))" "\<not> tx_irq (dev (uart_wait env (busy env s) s))"
    unfolding b wait_Suc using ns by (simp_all add: uart_clock_def Let_def uart_tx_clock_def)
qed





definition latest :: "uart_env \<Rightarrow> nat \<Rightarrow> nat \<Rightarrow> u8 \<Rightarrow> u8" where
  "latest env a b h = fold (\<lambda>k h. case rx_in env k of None \<Rightarrow> h | Some v \<Rightarrow> v) [a..<b] h"

definition arrives :: "uart_env \<Rightarrow> nat \<Rightarrow> nat \<Rightarrow> bool" where
  "arrives env a b \<longleftrightarrow> (\<exists>k. a \<le> k \<and> k < b \<and> rx_in env k \<noteq> None)"

lemma latest_join: "a \<le> b \<Longrightarrow> b \<le> c \<Longrightarrow> latest env b c (latest env a b h) = latest env a c h"
  by (simp add: latest_def upt_split [of a b c])

lemma latest_Suc: "latest env a (Suc a) h = (case rx_in env a of None \<Rightarrow> h | Some v \<Rightarrow> v)"
  by (simp add: latest_def)

lemma arrives_Suc: "a \<le> b \<Longrightarrow> arrives env a (Suc b) \<longleftrightarrow> arrives env a b \<or> rx_in env b \<noteq> None"
  by (auto simp: arrives_def less_Suc_eq)

definition rx_read :: "bus \<Rightarrow> bool" where
  "rx_read op \<longleftrightarrow> (case op of BusRead a \<Rightarrow> is_uart_addr a \<and> a AND 0xFFF = 8 | _ \<Rightarrow> False)"

lemma clock_rx:
  "rx_holding (snd (uart_clock n op rx u)) = (case rx of None \<Rightarrow> rx_holding u | Some v \<Rightarrow> v)"
  "rx_has_data (snd (uart_clock n op rx u)) \<longleftrightarrow> rx_has_data u \<and> \<not> rx_read op \<or> rx \<noteq> None"
  by (auto simp: uart_clock_def Let_def rx_read_def split: bus.splits)

lemma wait_rx:
  "rx_holding (dev (uart_wait env n s)) = latest env (cycle s) (cycle s + n) (rx_holding (dev s))"
  "rx_has_data (dev (uart_wait env n s)) \<longleftrightarrow> rx_has_data (dev s) \<or> arrives env (cycle s) (cycle s + n)"
proof (induction n arbitrary: s)
  case (Suc n)
  { case 1
    show ?case using Suc(1) [of "snd (uart_cycle env BusIdle s)"]
        latest_join [of "cycle s" "Suc (cycle s)" "Suc (cycle s + n)" env "rx_holding (dev s)"]
      by (simp add: clock_rx latest_Suc)
  next
    case 2
    have "arrives env (cycle s) (Suc (cycle s + n)) \<longleftrightarrow>
        rx_in env (cycle s) \<noteq> None \<or> arrives env (Suc (cycle s)) (Suc (cycle s + n))"
      unfolding arrives_def by (metis Suc_le_eq le_add1 le_less less_Suc_eq_le)
    then show ?case using Suc(2) [of "snd (uart_cycle env BusIdle s)"]
      by (auto simp: clock_rx rx_read_def) }
qed (auto simp: latest_def arrives_def)

lemma before_access_rx:
  "rx_holding (dev (before_access env s)) = latest env (cycle s) (cycle (before_access env s)) (rx_holding (dev s))"
  "rx_has_data (dev (before_access env s)) \<longleftrightarrow> rx_has_data (dev s) \<or> arrives env (cycle s) (cycle (before_access env s))"
  unfolding before_access_def wait_rx by simp_all

lemma before_access_later: "cycle s < cycle (before_access env s)"
  by (simp add: before_access_def del: uart_wait.simps)

lemma read_rx:
  assumes "uart_cfg_ok cfg"
  shows "fst (uart_read32 env (uart_base cfg + RX_STATUS) s) AND RX_HAS_DATA_BIT \<noteq> 0 \<longleftrightarrow>
      rx_has_data (dev (before_access env s))"
    "fst (uart_read32 env (uart_base cfg + RX_DATA) s) = ucast (rx_holding (dev (before_access env s)))"
    "cycle (snd (uart_read32 env a s)) = Suc (cycle (before_access env s))"
    "rx_holding (dev (snd (uart_read32 env a s))) = latest env (cycle s) (Suc (cycle (before_access env s))) (rx_holding (dev s))"
    "rx_has_data (dev (snd (uart_read32 env (uart_base cfg + RX_DATA) s))) \<longleftrightarrow> rx_in env (cycle (before_access env s)) \<noteq> None"
    "rx_has_data (dev (snd (uart_read32 env (uart_base cfg + RX_STATUS) s))) \<longleftrightarrow>
      rx_has_data (dev s) \<or> arrives env (cycle s) (Suc (cycle (before_access env s)))"
proof -
  note d = uart_decode [OF assms]
  show "fst (uart_read32 env (uart_base cfg + RX_STATUS) s) AND RX_HAS_DATA_BIT \<noteq> 0 \<longleftrightarrow>
      rx_has_data (dev (before_access env s))"
    "fst (uart_read32 env (uart_base cfg + RX_DATA) s) = ucast (rx_holding (dev (before_access env s)))"
    using d by (auto simp: uart_read32_def access_eq uart_cycle_def uart_clock_def Let_def RX_HAS_DATA_BIT_def)
  show "cycle (snd (uart_read32 env a s)) = Suc (cycle (before_access env s))"
    by (simp add: uart_read32_def access_eq)
  show "rx_holding (dev (snd (uart_read32 env a s))) = latest env (cycle s) (Suc (cycle (before_access env s))) (rx_holding (dev s))"
    using latest_join [of "cycle s" "cycle (before_access env s)" "Suc (cycle (before_access env s))" env "rx_holding (dev s)"]
      before_access_later [of s env]
    by (simp add: uart_read32_def access_eq clock_rx latest_Suc before_access_rx cong: option.case_cong)
  show "rx_has_data (dev (snd (uart_read32 env (uart_base cfg + RX_DATA) s))) \<longleftrightarrow> rx_in env (cycle (before_access env s)) \<noteq> None"
    using d by (simp add: uart_read32_def access_eq clock_rx rx_read_def)
  show "rx_has_data (dev (snd (uart_read32 env (uart_base cfg + RX_STATUS) s))) \<longleftrightarrow>
      rx_has_data (dev s) \<or> arrives env (cycle s) (Suc (cycle (before_access env s)))"
    using d before_access_later [of s env]
    by (auto simp: uart_read32_def access_eq clock_rx rx_read_def before_access_rx arrives_Suc)
qed


section \<open>Clients of the aggregator\<close>

context irq_next_level
begin

text \<open>Enabling the transmit interrupt switches its line on, whatever the callback does not undo.\<close>

lemma tx_enable_line:
  assumes "valid (tx_line cfg)" "valid j" "uart_cfg_ok cfg" "sys_ok env s"
    and "\<And>f d t. cb s = Some f \<Longrightarrow> intc_dev (call f d t) = intc_dev t"
  shows "line j (intc_dev (irq_tx_enable on call env cfg s)) \<longleftrightarrow> tx_line cfg = j \<or> line j (intc_dev s)"
proof -
  let ?s = "s\<lparr>intc_dev := on (tx_line cfg) (intc_dev s)\<rparr>"
  let ?r = "snd (uart_read32 env (uart_base cfg + TX_STATUS) ?s)"
  have "client_of ?r = client_of ?s" using read_tx_status(5) [of cfg env ?s] assms(3,4) by simp
  then have r: "intc_dev ?r = on (tx_line cfg) (intc_dev s)" "cb ?r = cb s" by (simp_all add: client_of_def)
  then have "intc_dev (run_cb call ?r) = on (tx_line cfg) (intc_dev s)"
    using assms(5) by (simp add: run_cb_def split: option.split)
  with r have "intc_dev (irq_tx_enable on call env cfg s) = on (tx_line cfg) (intc_dev s)"
    by (simp add: irq_tx_enable_def irq_tx_ready_def split_beta Let_def)
  then show ?thesis using line_on [OF assms(1,2)] by simp
qed

lemma rx_tx_lines:
  assumes "valid (tx_line cfg)" "valid (rx_line cfg)" "tx_line cfg \<noteq> rx_line cfg"
  shows "line (rx_line cfg) (intc_dev (irq_rx_enable on cfg s))"
    "\<not> line (rx_line cfg) (intc_dev (irq_rx_disable off cfg s))"
    "\<not> line (tx_line cfg) (intc_dev (irq_tx_disable off cfg s))"
    "line (tx_line cfg) (intc_dev (irq_rx_enable on cfg s)) = line (tx_line cfg) (intc_dev s)"
    "line (rx_line cfg) (intc_dev (irq_tx_disable off cfg s)) = line (rx_line cfg) (intc_dev s)"
  using assms line_on line_off
  by (auto simp: irq_rx_enable_def irq_rx_disable_def irq_tx_disable_def)

end

section \<open>Properties\<close>

fun put_string :: "uart_env \<Rightarrow> uart_config \<Rightarrow> u8 list \<Rightarrow> 'i uart_sys \<Rightarrow> 'i uart_sys option" where
  "put_string env cfg [] s = Some s"
| "put_string env cfg (c # cs) s = poll_out env cfg c s \<bind> put_string env cfg cs"

lemma put_string_outbox:
  assumes "uart_cfg_ok cfg"
  shows "sys_ok env s \<Longrightarrow> \<exists>s'. put_string env cfg cs s = Some s' \<and> sys_ok env s' \<and>
    outbox (dev s') = outbox (dev s) @ cs \<and> client_of s' = client_of s"
proof (induction cs arbitrary: s)
  case (Cons c cs)
  obtain s1 where "poll_out env cfg c s = Some s1" "sys_ok env s1" "outbox (dev s1) = outbox (dev s) @ [c]"
      "client_of s1 = client_of s"
    using poll_out_returns [OF assms Cons.prems] by blast
  with Cons.IH [of s1] show ?case by auto
qed simp

lemma outbox_sent: "\<not> tx_start u \<Longrightarrow> sent u = outbox u"
  by (simp add: outbox_def)

text \<open>
  C14. Sending: \<^verbatim>\<open>poll_out\<close> returns for every byte, whatever the transmitter is doing and however the
  accesses are spaced, and after a string has been put out and a cycle has passed the
  transmitter has accepted exactly the bytes it had before followed by the string, none lost
  and none twice.
\<close>

theorem put_string_sent:
  assumes "uart_cfg_ok cfg" "sys_ok env s"
  shows "\<exists>s'. put_string env cfg cs s = Some s' \<and> sys_ok env s' \<and> client_of s' = client_of s \<and>
    (\<forall>n. sent (dev (uart_wait env (Suc n) s')) = outbox (dev s) @ cs)"
proof -
  obtain s' where s': "put_string env cfg cs s = Some s'" "sys_ok env s'" "outbox (dev s') = outbox (dev s) @ cs"
      "client_of s' = client_of s"
    using put_string_outbox [OF assms] by blast
  have "sent (dev (uart_wait env (Suc n) s')) = outbox (dev s) @ cs" for n
    using outbox_sent [OF wait_start] wait_busy [OF s'(2), of "Suc n"] s'(3) by metis
  with s' show ?thesis by blast
qed

definition idle_uart :: uart where
  "idle_uart = \<lparr>txu = \<lparr>fsm = IDLE, clock_count = 0, bit_index = 0, saved_data = 0, tx = True, tx_ready = True\<rparr>,
     tx_start = False, tx_data = 0, tx_ready_prev = True, tx_irq = False, rx_holding = 0, rx_has_data = False, sent = [],
     wire = []\<rparr>"

definition demo_uart_env :: uart_env where
  "demo_uart_env = \<lparr>clocks_per_bit = 520, rx_in = (\<lambda>n. if n = 0 then Some 0x5A else None), access_gap = (\<lambda>_. 2)\<rparr>"

definition demo_uart :: "unit uart_sys" where
  "demo_uart = \<lparr>dev = idle_uart, cycle = 0, n_access = 0, intc_dev = (), cb = None, cb_data = 0\<rparr>"

definition board_uart :: uart_config where
  "board_uart = \<lparr>uart_base = 0x40001000, tx_line = 0, rx_line = 1\<rparr>"

lemma board_uart_ok: "uart_cfg_ok board_uart"
  by (simp add: uart_cfg_ok_def board_uart_def)

lemma demo_uart_ok: "sys_ok demo_uart_env demo_uart" "sys_ok demo_uart_env (demo_uart\<lparr>cb := f, cb_data := d\<rparr>)"
  by (simp_all add: uart_ok_def demo_uart_env_def demo_uart_def idle_uart_def)

theorem put_string_sent_witness:
  "\<exists>s'. put_string demo_uart_env board_uart [0x48, 0x69] demo_uart = Some s' \<and>
     sent (dev (uart_wait demo_uart_env 1 s')) = [0x48, 0x69]"
proof -
  have "outbox (dev demo_uart) = []" by (simp add: demo_uart_def idle_uart_def outbox_def)
  with put_string_sent [OF board_uart_ok demo_uart_ok(1), of "[0x48, 0x69]"] obtain s' where
    "put_string demo_uart_env board_uart [0x48, 0x69] demo_uart = Some s'"
    "\<forall>n. sent (dev (uart_wait demo_uart_env (Suc n) s')) = [0x48, 0x69]" by auto
  then show ?thesis unfolding One_nat_def by blast
qed

text \<open>
  The frame on the wire: from the cycle after an idle transmitter accepted a byte, the line holds
  the start bit, the eight bits of the byte with the low one first and the stop bit, each for exactly the
  configured number of clocks.
\<close>

theorem uart_frame:
  assumes "0 < n" "fsm t = IDLE" "k < 10 * n"
  shows "tx ((uart_tx_clock n False x ^^ Suc k) (uart_tx_clock n True d t)) = frame_bit d (k div n)"
  using assms by (rule uart_frame_aux)

theorem uart_frame_witness:
  "tx ((uart_tx_clock 2 False 0 ^^ Suc 7) (uart_tx_clock 2 True 0x14 (txu idle_uart)))"
  using uart_frame [of 2 "txu idle_uart" 7 0 "0x14"] by (simp add: idle_uart_def frame_bit_def)

text \<open>
  Receiving: \<^verbatim>\<open>poll_in\<close> reports nothing exactly if no byte was waiting and none
  arrived before its status read; otherwise it returns the most recent byte at the
  cycle of its data read, and the port is then empty unless another byte arrived in that very cycle.
\<close>

theorem poll_in_latest:
  assumes "uart_cfg_ok cfg"
  shows "\<exists>t1. cycle s < t1 \<and>
    (if rx_has_data (dev s) \<or> arrives env (cycle s) t1
     then \<exists>t2 > t1. fst (poll_in env cfg s) = Some (latest env (cycle s) t2 (rx_holding (dev s))) \<and>
       cycle (snd (poll_in env cfg s)) = Suc t2 \<and>
       (rx_has_data (dev (snd (poll_in env cfg s))) \<longleftrightarrow> rx_in env t2 \<noteq> None)
     else fst (poll_in env cfg s) = None \<and> cycle (snd (poll_in env cfg s)) = Suc t1 \<and>
       (rx_has_data (dev (snd (poll_in env cfg s))) \<longleftrightarrow> rx_in env t1 \<noteq> None)) \<and>
    rx_holding (dev (snd (poll_in env cfg s))) =
      latest env (cycle s) (cycle (snd (poll_in env cfg s))) (rx_holding (dev s))"
proof -
  let ?b = "before_access env s" and ?s1 = "snd (uart_read32 env (uart_base cfg + RX_STATUS) s)"
  let ?t1 = "cycle ?b" and ?t2 = "cycle (before_access env ?s1)"
  note r = read_rx [OF assms, of env] and later = before_access_later [of s env] before_access_later [of ?s1 env]
  have waiting: "fst (uart_read32 env (uart_base cfg + RX_STATUS) s) AND RX_HAS_DATA_BIT \<noteq> 0 \<longleftrightarrow>
      rx_has_data (dev s) \<or> arrives env (cycle s) ?t1"
    using r(1) [of s] before_access_rx(2) [of env s] by simp
  have c1: "cycle ?s1 = Suc ?t1" by (rule r(3))
  show ?thesis
  proof (cases "rx_has_data (dev s) \<or> arrives env (cycle s) ?t1")
    case True
    have p: "poll_in env cfg s = (Some (ucast (fst (uart_read32 env (uart_base cfg + RX_DATA) ?s1))),
        snd (uart_read32 env (uart_base cfg + RX_DATA) ?s1))"
      using waiting True by (simp add: poll_in_def split_beta)
    have "latest env (Suc ?t1) t (rx_holding (dev ?s1)) = latest env (cycle s) t (rx_holding (dev s))" if "?t1 < t" for t
      using r(4) [of "uart_base cfg + RX_STATUS" s] latest_join [of "cycle s" "Suc ?t1" t env] later(1) that by simp
    then show ?thesis
      using True later p r(2,5) [of ?s1] r(3,4) [of "uart_base cfg + RX_DATA" ?s1] before_access_rx(1) [of env ?s1] c1
      by (intro exI [of _ ?t1]) (auto intro!: exI [of _ ?t2])
  next
    case False
    have p: "poll_in env cfg s = (None, ?s1)" using waiting False by (simp add: poll_in_def split_beta)
    then show ?thesis using False later r(3,4) [of "uart_base cfg + RX_STATUS" s] r(6) [of s]
      by (intro exI [of _ ?t1]) (auto simp: arrives_Suc)
  qed
qed

theorem poll_in_latest_witness: "fst (poll_in demo_uart_env board_uart demo_uart) = Some 0x5A"
proof -
  have t: "cycle demo_uart = 0" "rx_in demo_uart_env = (\<lambda>n. if n = 0 then Some 0x5A else None)"
    by (simp_all add: demo_uart_def demo_uart_env_def)
  have "fold (\<lambda>k h. case (if k = (0 :: nat) then Some (0x5A :: u8) else None) of None \<Rightarrow> h | Some v \<Rightarrow> v) [1..<t2] h = h" for t2 h
    by (rule fold_invariant [where Q = "\<lambda>k. k \<noteq> 0"]) auto
  then have l: "latest demo_uart_env 0 t2 h = 0x5A" if "0 < t2" for t2 h
    using that by (simp add: latest_def t upt_conv_Cons)
  have a: "arrives demo_uart_env 0 t1" if "0 < t1" for t1 using that by (auto simp: arrives_def t)
  obtain t1 t2 where "0 < t1" "t1 < t2"
    "fst (poll_in demo_uart_env board_uart demo_uart) = Some (latest demo_uart_env 0 t2 (rx_holding (dev demo_uart)))"
    using poll_in_latest [OF board_uart_ok, of demo_uart demo_uart_env] a unfolding t by auto
  with l show ?thesis by simp
qed




text \<open>
  C32. From the transmitter to the processor: when the transmitter is busy, its interrupt output is
  wired to an enabled line of the aggregator and nothing clears it meanwhile, the aggregated
  line is raised within two cycles of the transmitter becoming ready.
\<close>

theorem tx_completion_reaches_cpu:
  assumes "sys_ok env s" "0 < busy env s" "\<not> tx_start (dev s)"
    and "tracks ienv i" "l < 8" "bit (enable (hw i)) l"
    and "\<And>n. bit (irq_lines ienv (now i + n)) l = tx_irq (dev (uart_wait env n s))"
  shows "irq_out (hw (idle ienv (busy env s + 2) i))"
proof -
  let ?k = "now i + Suc (busy env s)"
  have "edge ienv ?k l"
    using tx_complete_pulse [OF assms(1-3)] assms(7) [of "Suc (busy env s)"] assms(7) [of "busy env s"]
    by (simp add: edge_def)
  then have "edges_in ienv (now i) (now i + (busy env s + 2)) l"
    unfolding edges_in_def by (intro exI [of _ ?k]) simp
  then have "bit (pending (hw (idle ienv (busy env s + 2) i)) AND enable (hw (idle ienv (busy env s + 2) i))) l"
    using assms(4-6) by (simp add: bit_simps idle_pending del: add_2_eq_Suc')
  then show ?thesis unfolding irq_out_def by auto
qed

definition stopping_uart :: "unit uart_sys" where
  "stopping_uart = demo_uart\<lparr>dev := idle_uart\<lparr>txu := (txu idle_uart)\<lparr>fsm := STOP, tx_ready := False\<rparr>\<rparr>\<rparr>"

definition tx_wire :: intc_env where
  "tx_wire = \<lparr>irq_lines = (\<lambda>n. of_bool (tx_irq (dev (uart_wait demo_uart_env n stopping_uart)))), bus_gap = (\<lambda>_. 0)\<rparr>"

theorem tx_completion_reaches_cpu_witness:
  "irq_out (hw (idle tx_wire (busy demo_uart_env stopping_uart + 2)
     (quiet_intc\<lparr>hw := \<lparr>enable = 1, pending = 0, irq_in_prev = 0\<rparr>\<rparr>)))"
proof -
  let ?i = "quiet_intc\<lparr>hw := \<lparr>enable = 1, pending = 0, irq_in_prev = 0\<rparr>\<rparr>"
  have u: "sys_ok demo_uart_env stopping_uart" "0 < busy demo_uart_env stopping_uart" "\<not> tx_start (dev stopping_uart)"
    by (simp_all add: uart_ok_def busy_for_def stopping_uart_def demo_uart_def idle_uart_def demo_uart_env_def)
  have i: "tracks tx_wire ?i" "bit (enable (hw ?i)) 0"
    by (simp_all add: tracks_def quiet_intc_def)
  have "bit (irq_lines tx_wire (now ?i + n)) 0 = tx_irq (dev (uart_wait demo_uart_env n stopping_uart))" for n
    by (simp add: tx_wire_def quiet_intc_def)
  from tx_completion_reaches_cpu [OF u i(1) _ i(2) this] show ?thesis by simp
qed

text \<open>
  The two interrupt lines of the port on the board's aggregator: each enabling and disabling
  call of the driver changes its own line as asked and leaves the other as it was.
\<close>

theorem uart_lines_independent:
  assumes "sys_ok uenv s" "cb s = None"
  shows "let on = intr_enable env (board_intc offset); off = intr_disable env (board_intc offset);
      line = (\<lambda>i s. fst (intr_get_line_state env (board_intc offset) i (intc_dev s)))
    in line 0 (irq_tx_enable on call uenv board_uart s) \<and> \<not> line 0 (irq_tx_disable off board_uart s) \<and>
       line 1 (irq_rx_enable on board_uart s) \<and> \<not> line 1 (irq_rx_disable off board_uart s) \<and>
       line 1 (irq_tx_enable on call uenv board_uart s) = line 1 s \<and>
       line 1 (irq_tx_disable off board_uart s) = line 1 s \<and>
       line 0 (irq_rx_enable on board_uart s) = line 0 s"
proof -
  have l: "tx_line board_uart = 0" "rx_line board_uart = 1" by (simp_all add: board_uart_def)
  show ?thesis
    using intc_lines.tx_enable_line [of board_uart _ uenv s call env offset, OF _ _ board_uart_ok assms(1)] assms(2)
      intc_lines.rx_tx_lines [of board_uart env offset s]
    by (simp add: l Let_def)
qed

theorem uart_lines_independent_witness:
  "fst (intr_get_line_state demo_lines (board_intc 0) 1
     (intc_dev (irq_rx_enable (intr_enable demo_lines (board_intc 0)) board_uart
       \<lparr>dev = idle_uart, cycle = 0, n_access = 0, intc_dev = quiet_intc, cb = None, cb_data = 0\<rparr>)))"
  using uart_lines_independent [of demo_uart_env "\<lparr>dev = idle_uart, cycle = 0, n_access = 0, intc_dev = quiet_intc,
      cb = None, cb_data = 0\<rparr>" demo_lines 0]
  by (simp add: Let_def uart_ok_def idle_uart_def demo_uart_env_def)

end
