(* ===== verification/UartRx.thy ===== *)
theory UartRx
  imports Uart
begin

text \<open>
  The receiver of the serial port, \<^verbatim>\<open>src/uart_rx.v\<close>, as a clocked machine, and the line between a transmitter
  and a receiver whose clocks need not agree: which pairs of bit periods are read correctly, and that everything the
  driver puts out is then received.
\<close>

section \<open>The receiver\<close>

datatype rx_fsm = R_IDLE | R_START | R_DATA | R_STOP

record uart_rx =
  rx_meta :: bool
  rx_sync :: bool
  rx_state :: rx_fsm
  clk_count :: nat
  rx_bit_index :: nat
  rx_data :: u8
  rx_valid :: bool

definition put_bit :: "nat \<Rightarrow> bool \<Rightarrow> u8 \<Rightarrow> u8" where
  "put_bit i b d = (if b then set_bit i d else unset_bit i d)"

definition uart_rx_reset :: "uart_rx \<Rightarrow> uart_rx" where
  "uart_rx_reset r = r\<lparr>rx_meta := True, rx_sync := True, rx_state := R_IDLE, rx_valid := False, rx_data := 0, clk_count := 0,
     rx_bit_index := 0\<rparr>"

text \<open>A clock edge with the level \<open>rx\<close> on the pad and \<open>n\<close> clocks per bit.\<close>

definition uart_rx_clock :: "nat \<Rightarrow> bool \<Rightarrow> uart_rx \<Rightarrow> uart_rx" where
  "uart_rx_clock n rx r =
     (let r' = r\<lparr>rx_meta := rx, rx_sync := rx_meta r, rx_valid := False\<rparr>
      in case rx_state r of
           R_IDLE \<Rightarrow> (if \<not> rx_sync r then r'\<lparr>rx_state := R_START, clk_count := n div 2\<rparr> else r')
         | R_START \<Rightarrow>
             (if clk_count r = 0
              then if \<not> rx_sync r then r'\<lparr>rx_state := R_DATA, clk_count := n, rx_bit_index := 0\<rparr> else r'\<lparr>rx_state := R_IDLE\<rparr>
              else r'\<lparr>clk_count := clk_count r - 1\<rparr>)
         | R_DATA \<Rightarrow>
             (if clk_count r = 0
              then (let r' = r'\<lparr>rx_data := put_bit (rx_bit_index r) (rx_sync r) (rx_data r), clk_count := n\<rparr>
                    in if rx_bit_index r = 7 then r'\<lparr>rx_state := R_STOP\<rparr> else r'\<lparr>rx_bit_index := rx_bit_index r + 1\<rparr>)
              else r'\<lparr>clk_count := clk_count r - 1\<rparr>)
         | R_STOP \<Rightarrow>
             (if clk_count r = 0 then r'\<lparr>rx_valid := True, rx_state := R_IDLE\<rparr>
              else r'\<lparr>clk_count := clk_count r - 1\<rparr>))"

text \<open>The bytes delivered by a receiver in state \<open>r\<close> while the pad goes through the levels \<open>ws\<close>.\<close>

definition delivered :: "uart_rx \<Rightarrow> u8 list" where
  "delivered r = (if rx_valid r then [rx_data r] else [])"

fun listen :: "nat \<Rightarrow> bool list \<Rightarrow> uart_rx \<Rightarrow> u8 list" where
  "listen n [] r = delivered r"
| "listen n (w # ws) r = delivered r @ listen n ws (uart_rx_clock n w r)"

section \<open>Sampling\<close>

text \<open>
  The receiver samples bit \<open>j\<close> of a frame, in clocks from its beginning. Its bit period is one clock longer than
  configured, because the counter runs from \<open>n\<close> down to zero.
\<close>

definition sample_time :: "nat \<Rightarrow> nat \<Rightarrow> nat" where
  "sample_time n j = 1 + n div 2 + j * (n + 1)"

text \<open>
  A transmitter with \<open>m\<close> clocks per bit and a receiver with \<open>n\<close> agree: the samples fall into their bits and
  the receiver is back in its idle state inside the stop bit.
\<close>

definition rates_agree :: "nat \<Rightarrow> nat \<Rightarrow> bool" where
  "rates_agree m n \<longleftrightarrow> sample_time n 0 < m \<and> 9 * m \<le> sample_time n 9 + 1 \<and> sample_time n 9 + 4 \<le> 10 * m"

lemma sample_in_bit:
  assumes "rates_agree m n" "j \<le> 8"
  shows "sample_time n j div m = j"
proof -
  have h: "1 + n div 2 < m" "9 * m \<le> 2 + n div 2 + 9 * (n + 1)" "5 + n div 2 + 9 * (n + 1) \<le> 10 * m"
    using assms(1) by (simp_all add: rates_agree_def sample_time_def)
  have "j = 0 \<or> j = 1 \<or> j = 2 \<or> j = 3 \<or> j = 4 \<or> j = 5 \<or> j = 6 \<or> j = 7 \<or> j = 8" using assms(2) by linarith
  then have "j * m \<le> sample_time n j \<and> sample_time n j < Suc j * m"
    using h by (elim disjE) (simp_all add: sample_time_def)
  then show ?thesis by (intro div_nat_eqI) (simp_all add: mult.commute)
qed

section \<open>A frame on the wire\<close>

text \<open>
  The level of the wire and the state of the receiver \<open>k\<close> clocks after a transmitter with \<open>m\<close> clocks per bit has
  accepted the byte \<open>d\<close>.
\<close>

definition level :: "nat \<Rightarrow> u8 \<Rightarrow> nat \<Rightarrow> bool" where
  "level m d k = (k = 0 \<or> frame_bit d ((k - 1) div m))"

definition rx_bits :: "nat \<Rightarrow> u8 \<Rightarrow> nat \<Rightarrow> uart_rx \<Rightarrow> bool" where
  "rx_bits n d g r \<longleftrightarrow>
     (rx_valid r \<longleftrightarrow> g = 9 * (n + 1)) \<and>
     (if g div (n + 1) < 8
      then rx_state r = R_DATA \<and> rx_bit_index r = g div (n + 1) \<and> clk_count r = n - g mod (n + 1) \<and>
        (\<forall>l < g div (n + 1). bit (rx_data r) l = bit d l)
      else rx_data r = d \<and>
        (if g div (n + 1) < 9 then rx_state r = R_STOP \<and> clk_count r = n - g mod (n + 1) else rx_state r = R_IDLE))"

definition rx_frame :: "nat \<Rightarrow> u8 \<Rightarrow> nat \<Rightarrow> uart_rx \<Rightarrow> bool" where
  "rx_frame n d k r \<longleftrightarrow>
     (if k < 4 then rx_state r = R_IDLE \<and> \<not> rx_valid r
      else if k < 5 + n div 2 then rx_state r = R_START \<and> clk_count r = n div 2 + 4 - k \<and> \<not> rx_valid r
      else rx_bits n d (k - (5 + n div 2)) r)"

lemma bit_put_bit: "i < 8 \<Longrightarrow> bit (put_bit i b d) l = (if l = i then b else bit d l)"
  by (auto simp: put_bit_def bit_simps)

lemma u8_eqI: "(\<And>l. l < 8 \<Longrightarrow> bit a l = bit b l) \<Longrightarrow> a = b" for a b :: u8
  by (rule bit_word_eqI) simp

lemma level_sample:
  assumes "rates_agree m n" "j \<le> 8"
  shows "level m d (sample_time n j + 1) = frame_bit d j"
  using sample_in_bit [OF assms] by (simp add: level_def)

lemma level_stop:
  assumes "9 * m < k" "0 < m"
  shows "level m d k"
proof -
  have "9 \<le> (k - 1) div m" using assms div_le_mono [of "9 * m" "k - 1" m] by simp
  then show ?thesis by (simp add: level_def frame_bit_def)
qed

lemma rx_start_step:
  assumes "rates_agree m n" "rx_frame n d k r" "rx_sync r = level m d (k - 2)" "k < 5 + n div 2"
  shows "rx_frame n d (Suc k) (uart_rx_clock n w r)"
proof -
  have l: "level m d 0" "\<not> level m d 1" "\<not> level m d (n div 2 + 2)"
    using level_sample [OF assms(1), of 0 d] by (simp_all add: level_def frame_bit_def sample_time_def)
  consider "k < 3" | "k = 3" | "4 \<le> k" "k < 4 + n div 2" | "k = 4 + n div 2" using assms(4) by linarith
  then show ?thesis
    using assms(2,3) l by cases (simp_all add: rx_frame_def rx_bits_def uart_rx_clock_def Let_def)
qed

lemma multiple_iff: "0 < N \<Longrightarrow> a = q * N \<longleftrightarrow> a div N = q \<and> a mod N = 0" for N :: nat
  using div_mult_mod_eq [of a N] by auto

text \<open>In clock \<open>g\<close> of the eight data bits and the stop bit.\<close>

lemma rx_bits_step:
  assumes "rates_agree m n" "rx_bits n d g r" "rx_sync r = level m d (3 + n div 2 + g)"
  shows "rx_bits n d (Suc g) (uart_rx_clock n w r)"
proof -
  define i c where "i = g div (n + 1)" and "c = g mod (n + 1)"
  have m: "0 < m" using assms(1) by (simp add: rates_agree_def)
  have g: "g = i * (n + 1) + c" by (simp only: i_def c_def div_mult_mod_eq)
  have c: "c \<le> n" using mod_less_divisor [of "n + 1" g] by (simp add: c_def del: mod_less_divisor)
  have s: "Suc g div (n + 1) = (if c = n then Suc i else i)" "Suc g mod (n + 1) = (if c = n then 0 else Suc c)"
    by (simp_all add: i_def c_def div_Suc mod_Suc)
  have last: "Suc g = 9 * (n + 1) \<longleftrightarrow> i = 8 \<and> c = n"
    using multiple_iff [of "n + 1" "Suc g" 9] unfolding s by auto
  have idle: "level m d (3 + n div 2 + g)" if "9 \<le> i"
  proof (rule level_stop [OF _ m])
    have "9 * (n + 1) \<le> g" using mult_le_mono1 [OF that, of "n + 1"] g by linarith
    then show "9 * m < 3 + n div 2 + g" using assms(1) by (simp add: rates_agree_def sample_time_def)
  qed
  have bit: "level m d (3 + n div 2 + g) = bit d i" if "i < 8" "c = n"
  proof -
    have k: "3 + n div 2 + g = sample_time n (Suc i) + 1" using g that by (simp add: sample_time_def)
    show ?thesis unfolding k using level_sample [OF assms(1), of "Suc i" d] that by (simp add: frame_bit_def)
  qed
  note unf = rx_bits_def i_def [symmetric] c_def [symmetric] s last
  consider "i < 7" | "i = 7" | "i = 8" | "9 \<le> i" by linarith
  then show ?thesis
  proof cases
    case 1
    then show ?thesis using assms(2,3) bit c unfolding unf
      by (auto simp: uart_rx_clock_def Let_def bit_put_bit less_Suc_eq)
  next
    case 2
    have "put_bit 7 (bit d 7) (rx_data r) = d" if "\<forall>l < 7. bit (rx_data r) l = bit d l"
      using that by (intro u8_eqI) (auto simp: bit_put_bit)
    with 2 show ?thesis using assms(2,3) bit c unfolding unf by (auto simp: uart_rx_clock_def Let_def)
  next
    case 3
    then show ?thesis using assms(2,3) c unfolding unf by (auto simp: uart_rx_clock_def Let_def)
  next
    case 4
    then show ?thesis using assms(2,3) idle unfolding unf by (auto simp: uart_rx_clock_def Let_def)
  qed
qed

lemma rx_frame_step:
  assumes "rates_agree m n" "rx_frame n d k r" "rx_sync r = level m d (k - 2)"
  shows "rx_frame n d (Suc k) (uart_rx_clock n w r)"
proof (cases "k < 5 + n div 2")
  case True
  then show ?thesis using rx_start_step [OF assms] by simp
next
  case False
  then obtain g where g: "k = 5 + n div 2 + g" by (metis le_Suc_ex not_less)
  then have "rx_bits n d g r" "rx_sync r = level m d (3 + n div 2 + g)" using assms(2,3) by (simp_all add: rx_frame_def add.assoc)
  from rx_bits_step [OF assms(1) this] show ?thesis using g by (simp add: rx_frame_def)
qed

lemma rx_frame_done:
  assumes "rx_frame n d k r"
  shows "sample_time n 9 + 4 \<le> k \<Longrightarrow> rx_state r = R_IDLE" "delivered r = (if k = sample_time n 9 + 4 then [d] else [])"
proof -
  have e: "sample_time n 9 + 4 = 5 + n div 2 + 9 * (n + 1)" by (simp add: sample_time_def)
  have i: "9 \<le> (k - (5 + n div 2)) div (n + 1)" if "sample_time n 9 + 4 \<le> k"
    using that div_le_mono [of "9 * (n + 1)" "k - (5 + n div 2)" "n + 1"] unfolding e by (simp only: div_mult_self_is_m)
  show "sample_time n 9 + 4 \<le> k \<Longrightarrow> rx_state r = R_IDLE"
    using i assms unfolding e by (simp add: rx_frame_def rx_bits_def)
  have "k = sample_time n 9 + 4 \<Longrightarrow> rx_data r = d" using i assms unfolding e by (simp add: rx_frame_def rx_bits_def)
  moreover have "rx_valid r \<longleftrightarrow> k = sample_time n 9 + 4"
    using assms unfolding e rx_frame_def rx_bits_def by (auto split: if_splits)
  ultimately show "delivered r = (if k = sample_time n 9 + 4 then [d] else [])" by (simp add: delivered_def)
qed

section \<open>The line\<close>

text \<open>
  A receiver that listens to the wire of a port: the number of clocks the port had run when it began, its state
  then, and what the port had sent before.
\<close>

record listener =
  since :: nat
  rx0 :: uart_rx
  before :: "u8 list"

definition wire_since :: "listener \<Rightarrow> uart \<Rightarrow> bool list" where
  "wire_since L u = drop (since L) (wire u)"

abbreviation on_wire :: "nat \<Rightarrow> listener \<Rightarrow> uart \<Rightarrow> uart_rx" where
  "on_wire n L u \<equiv> fold (uart_rx_clock n) (wire_since L u) (rx0 L)"

definition rx_quiet :: "uart_rx \<Rightarrow> bool" where
  "rx_quiet r \<longleftrightarrow> rx_state r = R_IDLE \<and> rx_meta r \<and> rx_sync r"

text \<open>Everything sent has been heard but for \<open>rest\<close>.\<close>

definition heard :: "nat \<Rightarrow> listener \<Rightarrow> uart \<Rightarrow> u8 list \<Rightarrow> bool" where
  "heard n L u rest \<longleftrightarrow> since L \<le> length (wire u) \<and> sent u = before L @ listen n (wire_since L u) (rx0 L) @ rest"

text \<open>The line between two frames, and \<open>k\<close> clocks into the frame of the byte \<open>d\<close>.\<close>

definition between_frames :: "nat \<Rightarrow> listener \<Rightarrow> uart \<Rightarrow> bool" where
  "between_frames n L u \<longleftrightarrow> fsm (txu u) = IDLE \<and> tx (txu u) \<and> rx_quiet (on_wire n L u) \<and> heard n L u []"

definition in_frame :: "nat \<Rightarrow> nat \<Rightarrow> listener \<Rightarrow> u8 \<Rightarrow> nat \<Rightarrow> uart \<Rightarrow> bool" where
  "in_frame m n L d k u \<longleftrightarrow> k < 10 * m \<and> frame_state m d k (txu u) \<and> tx (txu u) = level m d k \<and>
     rx_frame n d k (on_wire n L u) \<and> rx_meta (on_wire n L u) = level m d (k - 1) \<and> rx_sync (on_wire n L u) = level m d (k - 2) \<and>
     heard n L u (if k < sample_time n 9 + 4 then [d] else [])"

definition line_ok :: "nat \<Rightarrow> nat \<Rightarrow> listener \<Rightarrow> uart \<Rightarrow> bool" where
  "line_ok m n L u \<longleftrightarrow> between_frames n L u \<or> (\<exists>d k. in_frame m n L d k u)"

lemma listen_snoc: "listen n (ws @ [w]) r = listen n ws r @ delivered (fold (uart_rx_clock n) (ws @ [w]) r)"
  by (induction ws arbitrary: r) simp_all

lemma rx_clock_sync [simp]:
  "rx_meta (uart_rx_clock n w r) = w" "rx_sync (uart_rx_clock n w r) = rx_meta r"
  by (simp_all add: uart_rx_clock_def Let_def split: rx_fsm.split)

lemma clock_wire:
  "wire (snd (uart_clock m op rx u)) = wire u @ [tx (txu u)]"
  "since L \<le> length (wire u) \<Longrightarrow> wire_since L (snd (uart_clock m op rx u)) = wire_since L u @ [tx (txu u)]"
  by (auto simp: uart_clock_def wire_since_def Let_def split: bus.splits)

lemma quiet_clock:
  assumes "rx_quiet r"
  shows "rx_quiet (uart_rx_clock n True r)" "delivered (uart_rx_clock n True r) = []" "rx_frame n d 0 (uart_rx_clock n True r)"
  using assms by (simp_all add: rx_quiet_def uart_rx_clock_def delivered_def rx_frame_def)

lemma between_frames_step:
  assumes "0 < m" "between_frames n L u"
  shows "line_ok m n L (snd (uart_clock m op rx u))"
proof -
  let ?u = "snd (uart_clock m op rx u)" and ?r = "on_wire n L u"
  have b: "fsm (txu u) = IDLE" "tx (txu u)" "rx_quiet ?r" "since L \<le> length (wire u)" "sent u = before L @ listen n (wire_since L u) (rx0 L)"
    using assms(2) by (simp_all add: between_frames_def heard_def)
  have r: "on_wire n L ?u = uart_rx_clock n True ?r" using b(2,4) by (simp add: clock_wire)
  have l: "listen n (wire_since L ?u) (rx0 L) = listen n (wire_since L u) (rx0 L)" using quiet_clock(2) [OF b(3)] b(2,4) by (simp add: clock_wire listen_snoc)
  note q = quiet_clock(1,3) [OF b(3)]
  show ?thesis
  proof (cases "tx_start u")
    case True
    have "in_frame m n L (tx_data u) 0 ?u" unfolding in_frame_def heard_def r l
      using True b q assms(1) by (simp add: clock_wire clock_txu uart_tx_clock_def frame_state_def level_def Let_def rx_quiet_def)
    then show ?thesis by (auto simp: line_ok_def)
  next
    case False
    have "between_frames n L ?u" unfolding between_frames_def heard_def r l
      using False b q by (simp add: clock_wire clock_txu uart_tx_clock_def Let_def)
    then show ?thesis by (simp add: line_ok_def)
  qed
qed

lemma in_frame_step:
  assumes "rates_agree m n" "in_frame m n L d k u"
  shows "line_ok m n L (snd (uart_clock m op rx u))"
proof -
  let ?u = "snd (uart_clock m op rx u)" and ?r = "on_wire n L u" and ?E = "sample_time n 9 + 4"
  have m: "0 < m" and E: "?E \<le> 10 * m" using assms(1) by (simp_all add: rates_agree_def)
  have f: "k < 10 * m" "frame_state m d k (txu u)" "tx (txu u) = level m d k" "rx_frame n d k ?r" "rx_meta ?r = level m d (k - 1)"
      "rx_sync ?r = level m d (k - 2)" "since L \<le> length (wire u)" "sent u = before L @ listen n (wire_since L u) (rx0 L) @ (if k < ?E then [d] else [])"
    using assms(2) by (simp_all add: in_frame_def heard_def)
  have r: "on_wire n L ?u = uart_rx_clock n (level m d k) ?r" using f(3,7) by (simp add: clock_wire)
  have s: "frame_state m d (Suc k) (txu ?u)" "tx (txu ?u) = level m d (Suc k)"
    using frame_step [OF m f(2,1)] by (simp_all add: clock_txu level_def)
  have rf: "rx_frame n d (Suc k) (on_wire n L ?u)" unfolding r by (rule rx_frame_step [OF assms(1) f(4,6)])
  have sync: "rx_meta (on_wire n L ?u) = level m d (Suc k - 1)" "rx_sync (on_wire n L ?u) = level m d (Suc k - 2)"
    using f(5) by (simp_all add: r numeral_2_eq_2)
  have "fsm (txu u) \<noteq> IDLE" using f(1,2) by (auto simp: frame_state_def split: if_splits)
  then have sent: "sent ?u = sent u" by (simp add: clock_txu)
  have "delivered (on_wire n L ?u) = (if Suc k = ?E then [d] else [])" by (rule rx_frame_done(2) [OF rf])
  then have h: "heard n L ?u (if Suc k < ?E then [d] else [])"
    using f(7,8) by (simp add: heard_def sent clock_wire listen_snoc del: fold_append)
  show ?thesis
  proof (cases "Suc k < 10 * m")
    case True
    then have "in_frame m n L d (Suc k) ?u" using s rf sync h by (simp add: in_frame_def)
    then show ?thesis by (auto simp: line_ok_def)
  next
    case False
    then have k: "Suc k = 10 * m" using f(1) by simp
    have "rx_state (on_wire n L ?u) = R_IDLE" using rx_frame_done(1) [OF rf] E k by simp
    moreover have "2 < m" using assms(1) unfolding rates_agree_def by linarith
    then have "level m d (10 * m - 1)" "level m d (10 * m - 2)" using m by (simp_all add: level_stop)
    ultimately have "rx_quiet (on_wire n L ?u)" using sync unfolding k rx_quiet_def by simp
    moreover have "fsm (txu ?u) = IDLE" "tx (txu ?u)" using s m unfolding k by (simp_all add: frame_state_def level_stop)
    ultimately show ?thesis using h E k by (simp add: line_ok_def between_frames_def)
  qed
qed

lemma line_ok_clock:
  "rates_agree m n \<Longrightarrow> line_ok m n L u \<Longrightarrow> line_ok m n L (snd (uart_clock m op rx u))"
  unfolding line_ok_def [of _ _ _ u]
  by (elim disjE exE) (auto intro: between_frames_step in_frame_step simp: rates_agree_def [of m])

section \<open>Runs of the port\<close>

text \<open>The states a port reaches by clock edges, whatever is on its bus and its pad.\<close>

inductive clocked :: "nat \<Rightarrow> uart \<Rightarrow> uart \<Rightarrow> bool" for m u where
  start: "clocked m u u"
| tick: "clocked m u v \<Longrightarrow> clocked m u (snd (uart_clock m op rx v))"

lemma clocked_trans: "clocked m v w \<Longrightarrow> clocked m u v \<Longrightarrow> clocked m u w"
  by (induction rule: clocked.induct) (auto intro: clocked.tick)

lemma clocked_line_ok: "clocked m u v \<Longrightarrow> rates_agree m n \<Longrightarrow> line_ok m n L u \<Longrightarrow> line_ok m n L v"
  by (induction rule: clocked.induct) (auto intro: line_ok_clock)

abbreviation ran :: "uart_env \<Rightarrow> 'i uart_sys \<Rightarrow> 'i uart_sys \<Rightarrow> bool" where
  "ran env s t \<equiv> clocked (clocks_per_bit env) (dev s) (dev t)"

lemma ran_wait: "ran env s (uart_wait env n s)"
  by (induction n) (auto simp: wait_Suc intro: clocked.intros simp del: uart_wait.simps(2))

lemma ran_access: "ran env s (snd (uart_access env op s))"
  using clocked.tick [OF ran_wait [of env "s\<lparr>n_access := Suc (n_access s)\<rparr>" "Suc (access_gap env (n_access s))"], of op]
  by (simp add: uart_access_def del: uart_wait.simps)

lemma ran_tx_poll:
  assumes "tx_poll env a b c s = Some (t :: 'a uart_sys)"
  shows "ran env s t"
proof (rule tx_poll.raw_induct [where P = "\<lambda>env a b c s t. ran env s t", OF _ assms])
  fix f :: "uart_env \<Rightarrow> u32 \<Rightarrow> u32 \<Rightarrow> u8 \<Rightarrow> 'a uart_sys \<Rightarrow> 'a uart_sys option" and env a b c and s t :: "'a uart_sys"
  let ?s = "snd (uart_read32 env a s)"
  assume IH: "\<And>env a b c s t. f env a b c s = Some t \<Longrightarrow> ran env s t"
    and f: "(let (st, s) = uart_read32 env a s
      in if st AND TX_READY_BIT = 0 then f env a b c s else Some (uart_write32 env (ucast c) b s)) = Some t"
  have s: "ran env s ?s" by (simp add: uart_read32_def ran_access)
  have "ran env ?s (uart_write32 env (ucast c) b ?s)" by (simp add: uart_write32_def ran_access)
  with f IH clocked_trans [OF _ s] show "ran env s t" by (auto simp: split_beta split: if_splits)
qed

lemma ran_poll_out: "poll_out env cfg c s = Some t \<Longrightarrow> ran env s t"
  unfolding poll_out_def by (rule ran_tx_poll)

lemma ran_put_string: "put_string env cfg cs s = Some t \<Longrightarrow> ran env s t"
proof (induction cs arbitrary: s)
  case (Cons c cs)
  then obtain s1 where "poll_out env cfg c s = Some s1" "put_string env cfg cs s1 = Some t"
    by (auto simp: bind_eq_Some_conv)
  then show ?case using Cons.IH clocked_trans ran_poll_out by blast
qed (simp add: clocked.start)

section \<open>Everything sent is received\<close>

definition line_idle :: "uart \<Rightarrow> bool" where
  "line_idle u \<longleftrightarrow> fsm (txu u) = IDLE \<and> tx (txu u) \<and> \<not> tx_start u"

definition listener_from :: "uart \<Rightarrow> uart_rx \<Rightarrow> listener" where
  "listener_from u r = \<lparr>since = length (wire u), rx0 = r, before = sent u\<rparr>"

lemma listener_from_ok:
  assumes "line_idle u" "rx_quiet r" "\<not> rx_valid r"
  shows "line_ok m n (listener_from u r) u"
  using assms by (simp add: line_ok_def between_frames_def line_idle_def listener_from_def heard_def wire_since_def delivered_def)

lemma line_ok_idle:
  assumes "line_ok m n L u" "fsm (txu u) = IDLE"
  shows "sent u = before L @ listen n (wire_since L u) (rx0 L)"
  using assms by (auto simp: line_ok_def between_frames_def heard_def in_frame_def frame_state_def split: if_splits)

lemma busy_bound: "busy_for n u \<le> 10 * n + 2"
proof -
  have "(7 - bit_index (txu u)) * n \<le> 7 * n" by (rule mult_le_mono1) simp
  then have "n - clock_count (txu u) + (7 - bit_index (txu u)) * n + n + 1 \<le> 10 * n + 2" by linarith
  then show ?thesis by (auto simp: busy_for_def Let_def split: tx_fsm.split)
qed

lemma ran_received:
  assumes "ran env s t" "rates_agree (clocks_per_bit env) n" "line_idle (dev s)" "rx_quiet r" "\<not> rx_valid r"
    and "sys_ok env t" "outbox (dev t) = outbox (dev s) @ cs" "10 * clocks_per_bit env + 2 \<le> k"
  shows "listen n (drop (length (wire (dev s))) (wire (dev (uart_wait env k t)))) r = cs"
proof -
  let ?L = "listener_from (dev s) r" and ?w = "uart_wait env k t"
  have b: "sys_ok env ?w" "busy env ?w = 0" "outbox (dev ?w) = outbox (dev t)"
    using wait_busy [OF assms(6), of k] busy_bound [of "clocks_per_bit env" "dev t"] assms(8) by simp_all
  then have idle: "fsm (txu (dev ?w)) = IDLE" "\<not> tx_start (dev ?w)" using busy_for_0 [OF b(1)] by simp_all
  have "line_ok (clocks_per_bit env) n ?L (dev ?w)"
    by (rule clocked_line_ok [OF clocked_trans [OF ran_wait assms(1)] assms(2) listener_from_ok [OF assms(3-5)]])
  from line_ok_idle [OF this idle(1)] have "sent (dev ?w) = sent (dev s) @ listen n (wire_since ?L (dev ?w)) r"
    by (simp add: listener_from_def)
  moreover have "sent (dev ?w) = sent (dev s) @ cs"
    using outbox_sent [OF idle(2)] b(3) assms(3,7) by (simp add: outbox_def line_idle_def)
  ultimately show ?thesis by (simp add: wire_since_def listener_from_def)
qed

text \<open>
  C12. From the driver to the far end of the line: when the bit periods of a port and of a receiver on its wire agree, a string put out
  by \<^verbatim>\<open>poll_out\<close> on an idle line is delivered by the receiver byte for byte, none lost, none twice and none
  made up, however the accesses of the driver are spaced, once the line has had time for the last frame.
\<close>

theorem string_received:
  assumes "uart_cfg_ok cfg" "sys_ok env s" "rates_agree (clocks_per_bit env) n" "line_idle (dev s)" "rx_quiet r" "\<not> rx_valid r"
  shows "\<exists>s'. put_string env cfg cs s = Some s' \<and>
    (\<forall>k \<ge> 10 * clocks_per_bit env + 2.
       listen n (drop (length (wire (dev s))) (wire (dev (uart_wait env k s')))) r = cs)"
proof -
  obtain s' where s': "put_string env cfg cs s = Some s'" "sys_ok env s'" "outbox (dev s') = outbox (dev s) @ cs"
    using put_string_outbox [OF assms(1,2), of cs] by blast
  with ran_received [OF ran_put_string [OF s'(1)] assms(3-6) s'(2,3)] show ?thesis by blast
qed

definition quiet_rx :: uart_rx where
  "quiet_rx = uart_rx_reset \<lparr>rx_meta = False, rx_sync = False, rx_state = R_IDLE, clk_count = 0, rx_bit_index = 0, rx_data = 0,
     rx_valid = False\<rparr>"

lemma quiet_rx_ok: "rx_quiet quiet_rx" "\<not> rx_valid quiet_rx"
  by (simp_all add: quiet_rx_def uart_rx_reset_def rx_quiet_def)

lemma demo_line_idle: "line_idle (dev demo_uart)" "wire (dev demo_uart) = []"
  by (simp_all add: line_idle_def demo_uart_def idle_uart_def)

theorem string_received_witness:
  "\<exists>s'. put_string demo_uart_env board_uart [0x48, 0x69] demo_uart = Some s' \<and>
     listen 521 (wire (dev (uart_wait demo_uart_env 5202 s'))) quiet_rx = [0x48, 0x69]"
proof -
  have m: "clocks_per_bit demo_uart_env = 520" by (simp add: demo_uart_env_def)
  have "rates_agree (clocks_per_bit demo_uart_env) 521" by (simp add: rates_agree_def sample_time_def m)
  from string_received [OF board_uart_ok demo_uart_ok(1) this demo_line_idle(1) quiet_rx_ok, of "[0x48, 0x69]"]
  obtain s' where "put_string demo_uart_env board_uart [0x48, 0x69] demo_uart = Some s'"
    "\<forall>k \<ge> 5202. listen 521 (wire (dev (uart_wait demo_uart_env k s'))) quiet_rx = [0x48, 0x69]"
    by (auto simp: demo_line_idle(2) m)
  then show ?thesis by blast
qed

section \<open>From one driver to another\<close>

text \<open>What a receiver delivers to its port, cycle by cycle, while its pad goes through the levels \<open>ws\<close> and then stays quiet.\<close>

definition rx_feed :: "nat \<Rightarrow> bool list \<Rightarrow> uart_rx \<Rightarrow> nat \<Rightarrow> u8 option" where
  "rx_feed n ws r t =
     (let q = fold (uart_rx_clock n) (take t ws) r in if t \<le> length ws \<and> rx_valid q then Some (rx_data q) else None)"

definition deliveries :: "(nat \<Rightarrow> u8 option) \<Rightarrow> nat \<Rightarrow> nat \<Rightarrow> u8 list" where
  "deliveries f a b = concat (map (\<lambda>t. case f t of None \<Rightarrow> [] | Some d \<Rightarrow> [d]) [a..<b])"

lemma deliveries_Suc: "a \<le> b \<Longrightarrow> deliveries f a (Suc b) = deliveries f a b @ (case f b of None \<Rightarrow> [] | Some d \<Rightarrow> [d])"
  by (simp add: deliveries_def)

lemma deliveries_cong: "(\<And>t. a \<le> t \<Longrightarrow> t < b \<Longrightarrow> f t = g t) \<Longrightarrow> deliveries f a b = deliveries g a b"
  unfolding deliveries_def by (intro arg_cong [where f = concat] map_cong) auto

lemma deliveries_quiet: "(\<And>t. c \<le> t \<Longrightarrow> f t = None) \<Longrightarrow> a \<le> c \<Longrightarrow> c \<le> b \<Longrightarrow> deliveries f a b = deliveries f a c"
  by (simp add: deliveries_def upt_split [of a c b])

lemma listen_feed: "listen n ws r = deliveries (rx_feed n ws r) 0 (Suc (length ws))"
proof (induction ws rule: rev_induct)
  case Nil
  show ?case by (simp add: rx_feed_def deliveries_def delivered_def)
next
  case (snoc w ws)
  have "deliveries (rx_feed n (ws @ [w]) r) 0 (Suc (length ws)) = deliveries (rx_feed n ws r) 0 (Suc (length ws))"
    by (rule deliveries_cong) (simp add: rx_feed_def)
  with snoc show ?case
    by (simp add: listen_snoc deliveries_Suc [of 0 "Suc (length ws)"] rx_feed_def [of _ _ _ "Suc _"] delivered_def)
qed

lemma latest_feed: "latest env a b h = last (h # deliveries (rx_in env) a b)"
proof (induction b)
  case (Suc b)
  show ?case
  proof (cases "a \<le> b")
    case True
    then show ?thesis using Suc latest_join [of a b "Suc b" env h] by (auto simp: deliveries_Suc latest_Suc split: option.split)
  qed (simp add: deliveries_def latest_def)
qed (simp add: deliveries_def latest_def)

lemma arrives_feed: "arrives env a b \<longleftrightarrow> deliveries (rx_in env) a b \<noteq> []"
  unfolding arrives_def deliveries_def by (auto split: option.splits)

lemma poll_in_after:
  assumes "uart_cfg_ok cfg" "\<And>t. cycle s \<le> t \<Longrightarrow> rx_in env t = None"
  shows "fst (poll_in env cfg s) = (if rx_has_data (dev s) then Some (rx_holding (dev s)) else None)"
proof -
  have q: "deliveries (rx_in env) (cycle s) t = []" for t using assms(2) by (simp add: deliveries_def)
  from poll_in_latest [OF assms(1), of s env] show ?thesis
    unfolding latest_feed arrives_feed q by (auto split: if_splits)
qed

text \<open>
  From one driver to another: two ports joined by a wire, with divisors that agree. When the first has put out a string and
  the line has had time for it, a poll of the second, which had nothing waiting and ran beside it all the time, reports
  the last byte of the string, or nothing if the string was empty: the port keeps one byte.
\<close>

theorem string_polled:
  assumes "uart_cfg_ok cfg" "sys_ok env s" "line_idle (dev s)" "wire (dev s) = []" "rx_quiet r" "\<not> rx_valid r"
    and "rates_agree (clocks_per_bit env) n" "cycle s2 = 0" "\<not> rx_has_data (dev s2)" "10 * clocks_per_bit env + 2 \<le> k"
  shows "\<exists>s'. put_string env cfg cs s = Some s' \<and>
    (let ws = wire (dev (uart_wait env k s')) in
     \<forall>env2 t. clocks_per_bit env2 = n \<longrightarrow> rx_in env2 = rx_feed n ws r \<longrightarrow> length ws < t \<longrightarrow>
       fst (poll_in env2 cfg (uart_wait env2 t s2)) = (if cs = [] then None else Some (last cs)))"
proof -
  obtain s' where s': "put_string env cfg cs s = Some s'" "sys_ok env s'" "outbox (dev s') = outbox (dev s) @ cs"
    using put_string_outbox [OF assms(1,2), of cs] by blast
  define ws where "ws = wire (dev (uart_wait env k s'))"
  have cs: "listen n ws r = cs"
    using ran_received [OF ran_put_string [OF s'(1)] assms(7,3,5,6) s'(2,3) assms(10)] by (simp add: assms(4) ws_def)
  have "fst (poll_in env2 cfg (uart_wait env2 t s2)) = (if cs = [] then None else Some (last cs))"
    if f: "rx_in env2 = rx_feed n ws r" and t: "length ws < t" for env2 t
  proof -
    have quiet: "rx_in env2 t = None" if "Suc (length ws) \<le> t" for t using that by (simp add: f rx_feed_def)
    have d: "deliveries (rx_in env2) 0 t = cs"
      using deliveries_quiet [of "Suc (length ws)" "rx_in env2" 0 t, OF quiet] t listen_feed [of n ws r] cs f by simp
    have "fst (poll_in env2 cfg (uart_wait env2 t s2)) =
        (if rx_has_data (dev (uart_wait env2 t s2)) then Some (rx_holding (dev (uart_wait env2 t s2))) else None)"
      by (rule poll_in_after [OF assms(1)]) (use quiet t assms(8) in simp)
    then show ?thesis using d by (simp add: wait_rx assms(8,9) latest_feed arrives_feed)
  qed
  with s'(1) show ?thesis by (auto simp: Let_def ws_def)
qed

definition polling_env :: "bool list \<Rightarrow> uart_env" where
  "polling_env ws = \<lparr>clocks_per_bit = 525, rx_in = rx_feed 525 ws quiet_rx, access_gap = (\<lambda>_. 7)\<rparr>"

theorem string_polled_witness:
  "\<exists>s'. put_string demo_uart_env board_uart [0x48, 0x69] demo_uart = Some s' \<and>
     (let ws = wire (dev (uart_wait demo_uart_env 6000 s'))
      in fst (poll_in (polling_env ws) board_uart (uart_wait (polling_env ws) (Suc (length ws)) demo_uart)) = Some 0x69)"
proof -
  have m: "clocks_per_bit demo_uart_env = 520" "cycle demo_uart = 0" "\<not> rx_has_data (dev demo_uart)"
    by (simp_all add: demo_uart_env_def demo_uart_def idle_uart_def)
  have r: "rates_agree (clocks_per_bit demo_uart_env) 525" by (simp add: rates_agree_def sample_time_def m)
  have p: "clocks_per_bit (polling_env ws) = 525" "rx_in (polling_env ws) = rx_feed 525 ws quiet_rx" for ws
    by (simp_all add: polling_env_def)
  obtain s' where s': "put_string demo_uart_env board_uart [0x48, 0x69] demo_uart = Some s'"
      "\<And>env2 t. clocks_per_bit env2 = 525 \<Longrightarrow> rx_in env2 = rx_feed 525 (wire (dev (uart_wait demo_uart_env 6000 s'))) quiet_rx \<Longrightarrow>
         length (wire (dev (uart_wait demo_uart_env 6000 s'))) < t \<Longrightarrow> fst (poll_in env2 board_uart (uart_wait env2 t demo_uart)) = Some 0x69"
    using string_polled [OF board_uart_ok demo_uart_ok(1) demo_line_idle quiet_rx_ok r m(2,3), of 6000 "[0x48, 0x69]"] m(1)
    by (auto simp: Let_def)
  from s'(1) s'(2) [OF p lessI] show ?thesis unfolding Let_def by blast
qed

text \<open>
  The tolerance of the receiver: with the divisor 520 of the board it reads every sender whose bit takes 496 to 550 of
  its clocks, and with equal divisors every divisor from 28 on works.
\<close>

theorem tolerance_520: "rates_agree m 520 \<longleftrightarrow> 496 \<le> m \<and> m \<le> 550"
  by (auto simp: rates_agree_def sample_time_def)

theorem equal_rates: "28 \<le> n \<Longrightarrow> rates_agree n n"
  by (auto simp: rates_agree_def sample_time_def)

end
