(* ===== verification/Crc.thy ===== *)
theory Crc
  imports Prelude
begin

text \<open>
  The checksum functions of \<^verbatim>\<open>fpga/coremark/src/core_util.c\<close>: the byte update
  \<^verbatim>\<open>crcu8\<close> with its eight-iteration loop, and the 16- and 32-bit updates built
  on it. The reference is the bit-serial reflected CRC-16 with generator
  \<open>0xA001\<close>; the theory shows that the code computes it and which errors it
  detects.
\<close>

section \<open>The code\<close>

text \<open>One iteration of the loop of \<^verbatim>\<open>crcu8\<close>, on the pair of its variables \<^verbatim>\<open>data\<close> and \<^verbatim>\<open>crc\<close>.\<close>

definition crcu8_body :: "u8 \<times> u16 \<Rightarrow> u8 \<times> u16" where
  "crcu8_body = (\<lambda>(data, crc).
     let x16 = (data AND 1) XOR (ucast crc AND 1);
         data = drop_bit 1 data;
         (crc, carry) = (if x16 = 1 then (crc XOR 0x4002, 1 :: u8) else (crc, 0));
         crc = drop_bit 1 crc
     in (data, if carry \<noteq> 0 then crc OR 0x8000 else crc AND 0x7fff))"

primrec crcu8_loop :: "nat \<Rightarrow> u8 \<times> u16 \<Rightarrow> u8 \<times> u16" where
  "crcu8_loop 0 s = s"
| "crcu8_loop (Suc n) s = crcu8_loop n (crcu8_body s)"

definition crcu8 :: "u8 \<Rightarrow> u16 \<Rightarrow> u16" where
  "crcu8 data crc = snd (crcu8_loop 8 (data, crc))"

definition crcu16 :: "u16 \<Rightarrow> u16 \<Rightarrow> u16" where
  "crcu16 newval crc =
     (let crc = crcu8 (ucast newval) crc
      in crcu8 (ucast (drop_bit 8 newval)) crc)"

definition crc16 :: "s16 \<Rightarrow> u16 \<Rightarrow> u16" where
  "crc16 newval crc = crcu16 newval crc"

definition crcu32 :: "u32 \<Rightarrow> u16 \<Rightarrow> u16" where
  "crcu32 newval crc =
     (let crc = crc16 (ucast newval) crc
      in crc16 (ucast (drop_bit 16 newval)) crc)"

section \<open>The reference: a bit-serial reflected CRC\<close>

definition crc_ref_bit :: "bool \<Rightarrow> u16 \<Rightarrow> u16" where
  "crc_ref_bit b crc = drop_bit 1 crc XOR (if odd crc \<noteq> b then 0xA001 else 0)"

primrec crc_ref :: "bool list \<Rightarrow> u16 \<Rightarrow> u16" where
  "crc_ref [] crc = crc"
| "crc_ref (b # bs) crc = crc_ref bs (crc_ref_bit b crc)"

lemma crc_ref_append [simp]: "crc_ref (bs @ cs) crc = crc_ref cs (crc_ref bs crc)"
  by (induction bs arbitrary: crc) simp_all

section \<open>The byte update is the reference\<close>

lemma set_top_bit [crc_simps]:
  "(drop_bit (Suc 0) crc XOR 0x2001) OR 0x8000 = drop_bit (Suc 0) crc XOR (0xA001 :: u16)"
  by (simp add: word_eq_bits bit_eval bit_simps)

lemma clear_top_bit [crc_simps]: "drop_bit (Suc 0) crc AND 0x7fff = drop_bit (Suc 0) (crc :: u16)"
  by (simp add: word_eq_bits bit_eval bit_simps)

lemma crcu8_body_ref: "crcu8_body (data, crc) = (drop_bit 1 data, crc_ref_bit (odd data) crc)"
  unfolding crcu8_body_def crc_ref_bit_def
  by (simp add: crc_simps and_one_eq Let_def odd_ucast mod_2_eq_odd)

lemma map_bit_Suc:
  "map (bit w) [0..<Suc n] = odd w # map (bit (drop_bit 1 w)) [0..<n]" for w :: "'a::len word"
  by (simp add: map_upt_Suc bit_0 bit_drop_bit_eq del: upt_Suc)

lemma crcu8_loop_ref: "snd (crcu8_loop n (data, crc)) = crc_ref (map (bit data) [0..<n]) crc"
  by (induction n arbitrary: data crc) (simp_all add: map_bit_Suc crcu8_body_ref del: upt_Suc)

lemma crcu8_ref: "crcu8 data crc = crc_ref (map (bit data) [0..<8]) crc"
  by (simp add: crcu8_def crcu8_loop_ref)

lemma map_bit_split:
  fixes w :: "'a::len word"
  assumes "m + n \<le> LENGTH('a)" and "m \<le> LENGTH('b)" and "n \<le> LENGTH('c)"
  shows "map (bit (ucast w :: 'b::len word)) [0..<m] @
         map (bit (ucast (drop_bit m w) :: 'c::len word)) [0..<n] = map (bit w) [0..<m + n]"
proof -
  have "map (bit w) [m..<m + n] = map (bit (drop_bit m w)) [0..<n]"
    by (rule nth_equalityI) (simp_all add: bit_drop_bit_eq)
  with assms show ?thesis
    by (simp add: upt_add_eq_append [of 0 m n] bit_unsigned_iff)
qed

lemma crcu16_ref: "crcu16 v crc = crc_ref (map (bit v) [0..<16]) crc"
  using map_bit_split [of 8 8 v, where 'b = 8 and 'c = 8]
  by (simp add: crcu16_def crcu8_ref Let_def flip: crc_ref_append)

lemma crcu32_ref: "crcu32 v crc = crc_ref (map (bit v) [0..<32]) crc"
  using map_bit_split [of 16 16 v, where 'b = 16 and 'c = 16]
  by (simp add: crcu32_def crc16_def crcu16_ref Let_def flip: crc_ref_append)

text \<open>
  C16. The 32-bit update of \<^verbatim>\<open>core_util.c\<close> (two 16-bit updates, each two byte
  updates, each eight rounds of the shift/carry loop) is the bit-serial CRC-16
  with reflected generator \<open>0xA001\<close> over the 32 message bits, least significant
  bit first.
\<close>

theorem crcu32_is_crc16: "crcu32 v crc = crc_ref (map (bit v) [0..<32]) crc"
  by (rule crcu32_ref)

section \<open>Linearity\<close>

text \<open>
  Over exclusive or the reference is linear in the message and the register
  together, which is what error detection rests on. The simplifier normalises
  inequality of booleans to \<open>b = (\<not> b')\<close>, and the lemmas are stated so.
\<close>

lemma crc_ref_bit_xor [crc_simps]:
  "crc_ref_bit (b = (\<not> b')) (c XOR c') = crc_ref_bit b c XOR crc_ref_bit b' c'"
  by (cases b; cases b'; cases "odd c"; cases "odd c'")
    (simp_all add: crc_ref_bit_def ac_simps even_xor_iff)

lemma crc_ref_xor:
  "length bs = length bs' \<Longrightarrow>
   crc_ref (map2 (\<lambda>b b'. b = (\<not> b')) bs bs') (c XOR c') = crc_ref bs c XOR crc_ref bs' c'"
  by (induction bs bs' arbitrary: c c' rule: list_induct2) (simp_all add: crc_simps)

lemma map2_bit_xor:
  "map2 (\<lambda>b b'. b = (\<not> b')) (map (bit v) ns) (map (bit v') ns) = map (bit (v XOR v')) ns"
    for v v' :: "'a::len word"
  by (induction ns) (simp_all add: bit_xor_iff)

lemma crcu32_xor: "crcu32 v c XOR crcu32 v' c = crcu32 (v XOR v') 0"
  unfolding crcu32_ref
  using crc_ref_xor [of "map (bit v) [0..<32]" "map (bit v') [0..<32]" c c]
  by (simp add: map2_bit_xor del: upt_Suc)

section \<open>Error detection\<close>

lemma word_eq_odd_half:
  "c = c' \<longleftrightarrow> odd c = odd c' \<and> drop_bit 1 c = drop_bit 1 c'" for c c' :: "'a::len word"
proof
  assume eq: "odd c = odd c' \<and> drop_bit 1 c = drop_bit 1 c'"
  have "bit c n = bit c' n" for n
  proof (cases n)
    case (Suc m)
    with eq show ?thesis by (metis bit_drop_bit_eq comp_apply plus_1_eq_Suc)
  qed (use eq in \<open>simp add: bit_0\<close>)
  then show "c = c'" by (simp add: bit_eq_iff)
qed simp

lemma bit_15_crc_ref_bit: "bit (crc_ref_bit b c) 15 \<longleftrightarrow> odd c \<noteq> b"
  by (simp add: crc_ref_bit_def bit_simps)

lemma crc_ref_bit_inj: "crc_ref_bit b c = crc_ref_bit b c' \<longleftrightarrow> c = c'"
proof
  assume eq: "crc_ref_bit b c = crc_ref_bit b c'"
  then have "odd c = odd c'"
    by (metis bit_15_crc_ref_bit)
  moreover from eq this have "drop_bit 1 c = drop_bit 1 c'"
    by (auto simp: crc_ref_bit_def split: if_splits)
  ultimately show "c = c'" by (simp add: word_eq_odd_half)
qed simp

lemma crc_ref_inj: "crc_ref bs c = crc_ref bs c' \<longleftrightarrow> c = c'"
  by (induction bs arbitrary: c c') (simp_all add: crc_ref_bit_inj)

lemma crc_ref_zeros [simp]: "crc_ref (replicate n False) 0 = 0"
  by (induction n) (simp_all add: crc_ref_bit_def)

lemma crc_ref_zeros_eq_0 [simp]: "crc_ref (replicate n False) c = 0 \<longleftrightarrow> c = 0"
  using crc_ref_inj [of "replicate n False" c 0] by simp

text \<open>
  Feeding the bits of a word of at most 16 bits into a register is the same as
  adding the word to the register and shifting in zeros.
\<close>

lemma crc_ref_bit_absorb: "crc_ref_bit b c = crc_ref_bit False (c XOR of_bool b)"
  by (cases b) (simp_all add: crc_ref_bit_def even_xor_iff)

lemma crc_ref_bit_shift:
  assumes "\<not> bit w 15"
  shows "crc_ref_bit False (c XOR 2 * w) = crc_ref_bit False c XOR w"
proof -
  have "drop_bit 1 (2 * w) = w"
    using assms by (simp add: word_eq_bits bit_eval bit_simps bit_double_iff)
  then have "crc_ref_bit False (2 * w) = w"
    by (simp add: crc_ref_bit_def)
  then show ?thesis
    using crc_ref_bit_xor [of False False c "2 * w"] by simp
qed

lemma horner_bits_Cons:
  "horner_sum of_bool 2 (b # bs) = of_bool b XOR 2 * (horner_sum of_bool 2 bs :: u16)"
  by (rule bit_word_eqI)
    (auto simp: bit_horner_sum_bit_word_iff bit_simps bit_double_iff nth_Cons bit_1_iff
      simp del: horner_sum_simps split: nat.splits)

lemma crc_ref_absorb:
  "length bs \<le> 16 \<Longrightarrow>
   crc_ref bs c = crc_ref (replicate (length bs) False) (c XOR horner_sum of_bool 2 bs)"
proof (induction bs arbitrary: c)
  case (Cons b bs)
  let ?w = "horner_sum of_bool 2 bs :: u16"
  have "\<not> bit ?w 15"
    using Cons.prems by (simp add: bit_horner_sum_bit_word_iff)
  then have "crc_ref_bit False (c XOR of_bool b) XOR ?w
           = crc_ref_bit False (c XOR horner_sum of_bool 2 (b # bs))"
    by (simp add: horner_bits_Cons crc_ref_bit_shift del: horner_sum_simps flip: xor.assoc)
  with Cons show ?case
    by (simp add: crc_ref_bit_absorb [of b c] del: horner_sum_simps)
qed simp

lemma crc_ref_window:
  assumes "length bs \<le> 16" and "True \<in> set bs"
  shows "crc_ref bs 0 \<noteq> 0"
proof -
  from assms(2) obtain n where n: "n < length bs" "bs ! n" by (auto simp: in_set_conv_nth)
  with assms(1) have "bit (horner_sum of_bool 2 bs :: u16) n"
    by (simp add: bit_horner_sum_bit_word_iff)
  then have "(horner_sum of_bool 2 bs :: u16) \<noteq> 0" by auto
  with assms(1) show ?thesis by (subst crc_ref_absorb) simp_all
qed

lemma upt_window:
  "[0..<32] = [0..<min k 32] @ [min k 32..<min (k + 16) 32] @ [min (k + 16) 32..<32]"
  by (rule trans [OF upt_split [of 0 "min k 32"]])
    (simp_all only: upt_split [of "min k 32" "min (k + 16) 32" 32] le0 min.cobounded2
      min.mono le_add1 le_refl)

lemma crc_ref_no_bits: "(\<And>x. x \<in> set xs \<Longrightarrow> \<not> f x) \<Longrightarrow> crc_ref (map f xs) c = 0 \<longleftrightarrow> c = 0"
  using map_eq_replicate [of xs f False] by simp

lemma crcu32_burst_nonzero:
  assumes "e \<noteq> 0" and window: "\<And>n. bit e n \<Longrightarrow> k \<le> n \<and> n < k + 16"
  shows "crcu32 e 0 \<noteq> 0"
proof -
  let ?low = "[0..<min k 32]" and ?high = "[min (k + 16) 32..<32]"
  let ?ws = "map (bit e) [min k 32..<min (k + 16) 32]"
  have low: "crc_ref (map (bit e) ?low) 0 = 0"
    using window by (subst crc_ref_no_bits) force+
  have high: "crc_ref (map (bit e) ?high) c = 0 \<longleftrightarrow> c = 0" for c
    using window by (intro crc_ref_no_bits) force
  from \<open>e \<noteq> 0\<close> obtain n where n: "bit e n" using bit_word_eqI [of e 0] by auto
  then have "n < 32" using bit_imp_le_length [of e n] by simp
  with window [OF n] have "n \<in> set [min k 32..<min (k + 16) 32]" by simp
  then have "bit e n \<in> set ?ws" by (simp only: list.set_map imageI)
  with n have "True \<in> set ?ws" by simp
  moreover have "length ?ws \<le> 16" by simp
  ultimately have window: "crc_ref ?ws 0 \<noteq> 0" by (intro crc_ref_window)
  have "crcu32 e 0 = crc_ref (map (bit e) ?high) (crc_ref ?ws (crc_ref (map (bit e) ?low) 0))"
    by (simp only: crcu32_ref upt_window [of k] map_append crc_ref_append)
  then show ?thesis using window by (simp only: low high not_False_eq_True)
qed

text \<open>
  The checksum detects every burst error of at most 16 bits in a 32-bit
  value: two values that differ, but only inside a window of 16 consecutive bit
  positions, never have the same checksum, whatever the register held.
\<close>

theorem crcu32_detects_bursts:
  assumes "v \<noteq> v'" and "\<And>n. bit v n \<noteq> bit v' n \<Longrightarrow> k \<le> n \<and> n < k + 16"
  shows "crcu32 v crc \<noteq> crcu32 v' crc"
proof -
  from assms(1) have "v XOR v' \<noteq> 0" by simp
  moreover from assms(2) have "\<And>n. bit (v XOR v') n \<Longrightarrow> k \<le> n \<and> n < k + 16"
    by (simp only: bit_xor_neq)
  ultimately have "crcu32 (v XOR v') 0 \<noteq> 0"
    by (rule crcu32_burst_nonzero)
  then show ?thesis by (metis crcu32_xor xor_self_eq)
qed

theorem crcu32_detects_bursts_witness: "crcu32 0x1234ABCD 7 \<noteq> crcu32 0x12342BCD 7"
proof (rule crcu32_detects_bursts [where k = 8])
  fix n
  assume "bit (0x1234ABCD :: u32) n \<noteq> bit (0x12342BCD :: u32) n"
  then have "bit (0x1234ABCD XOR 0x12342BCD :: u32) n" by (rule bit_xor_neq [THEN iffD2])
  then have "bit (2 ^ 15 :: u32) n" by simp
  then have "n = 15" by (simp only: bit_exp_iff)
  then show "8 \<le> n \<and> n < 8 + 16" by simp
qed simp

end
