(* ===== verification/CoreMatrix.thy ===== *)
theory CoreMatrix
  imports Crc
begin

text \<open>
  The matrix kernel of CoreMark, \<^verbatim>\<open>fpga/coremark/src/core_matrix.c\<close>. The arrays \<^verbatim>\<open>A\<close>, \<^verbatim>\<open>B\<close>
  (16-bit \<^verbatim>\<open>MATDAT\<close>) and \<^verbatim>\<open>C\<close> (32-bit \<^verbatim>\<open>MATRES\<close>) are lists in row-major order, the
  loops over \<^verbatim>\<open>i\<close>, \<^verbatim>\<open>j\<close> and \<^verbatim>\<open>k\<close> are \<^const>\<open>for_up\<close>; the indices stay below \<open>N * N\<close>,
  which an array in a 32-bit address space keeps below \<open>2 ^ 32\<close>, so they are natural
  numbers. Element arithmetic is that of the C types: 16-bit values are sign
  extended before an operation and truncated when they are stored.
\<close>

section \<open>The code\<close>

definition matrix_clip :: "s32 \<Rightarrow> bool \<Rightarrow> s32" where
  "matrix_clip x y = (if y then x AND 0x0ff else x AND 0x0ffff)"

definition matrix_big :: "s32 \<Rightarrow> s32" where
  "matrix_big x = 0xf000 OR x"

definition bit_extract :: "s32 \<Rightarrow> nat \<Rightarrow> nat \<Rightarrow> u32" where
  "bit_extract x lo hi = signed_drop_bit lo x AND NOT (push_bit hi 0xffffffff)"

definition matrix_add_const :: "nat \<Rightarrow> s16 list \<Rightarrow> s16 \<Rightarrow> s16 list" where
  "matrix_add_const N A v =
     for_up N (\<lambda>i. for_up N (\<lambda>j A.
       A[i * N + j := ucast (promote16 (A ! (i * N + j)) + promote16 v)])) A"

definition matrix_mul_const :: "nat \<Rightarrow> s32 list \<Rightarrow> s16 list \<Rightarrow> s16 \<Rightarrow> s32 list" where
  "matrix_mul_const N C A v =
     for_up N (\<lambda>i. for_up N (\<lambda>j C.
       C[i * N + j := promote16 (A ! (i * N + j)) * promote16 v])) C"

definition matrix_mul_vect :: "nat \<Rightarrow> s32 list \<Rightarrow> s16 list \<Rightarrow> s16 list \<Rightarrow> s32 list" where
  "matrix_mul_vect N C A B =
     for_up N (\<lambda>i C.
       for_up N (\<lambda>j C.
         C[i := C ! i + promote16 (A ! (i * N + j)) * promote16 (B ! j)]) (C[i := 0])) C"

definition matrix_mul_matrix :: "nat \<Rightarrow> s32 list \<Rightarrow> s16 list \<Rightarrow> s16 list \<Rightarrow> s32 list" where
  "matrix_mul_matrix N C A B =
     for_up N (\<lambda>i. for_up N (\<lambda>j C.
       for_up N (\<lambda>k C.
         C[i * N + j := C ! (i * N + j) + promote16 (A ! (i * N + k)) * promote16 (B ! (k * N + j))])
         (C[i * N + j := 0]))) C"

definition matrix_mul_matrix_bitextract :: "nat \<Rightarrow> s32 list \<Rightarrow> s16 list \<Rightarrow> s16 list \<Rightarrow> s32 list" where
  "matrix_mul_matrix_bitextract N C A B =
     for_up N (\<lambda>i. for_up N (\<lambda>j C.
       for_up N (\<lambda>k C.
         let tmp = promote16 (A ! (i * N + k)) * promote16 (B ! (k * N + j))
         in C[i * N + j := C ! (i * N + j) + bit_extract tmp 2 4 * bit_extract tmp 5 7])
         (C[i * N + j := 0]))) C"

text \<open>The loop state of \<^verbatim>\<open>matrix_sum\<close> is \<^verbatim>\<open>tmp\<close>, \<^verbatim>\<open>prev\<close> and \<^verbatim>\<open>ret\<close>.\<close>

definition matrix_sum_step :: "s16 \<Rightarrow> s32 \<Rightarrow> s32 \<times> s32 \<times> s16 \<Rightarrow> s32 \<times> s32 \<times> s16" where
  "matrix_sum_step clipval cur = (\<lambda>(tmp, prev, ret).
     let tmp = tmp + cur
     in if sint tmp > sint clipval then (0, cur, ret + 10)
        else (tmp, cur, ret + (if sint cur > sint prev then 1 else 0)))"

definition matrix_sum :: "nat \<Rightarrow> s32 list \<Rightarrow> s16 \<Rightarrow> s16" where
  "matrix_sum N C clipval =
     (case for_up N (\<lambda>i. for_up N (\<lambda>j. matrix_sum_step clipval (C ! (i * N + j)))) (0, 0, 0)
      of (tmp, prev, ret) \<Rightarrow> ret)"

text \<open>\<^verbatim>\<open>matrix_test\<close> returns its checksum; it also leaves its arrays \<^verbatim>\<open>C\<close> and \<^verbatim>\<open>A\<close> changed.\<close>

definition matrix_test ::
    "nat \<Rightarrow> s32 list \<Rightarrow> s16 list \<Rightarrow> s16 list \<Rightarrow> s16 \<Rightarrow> s16 \<times> s32 list \<times> s16 list" where
  "matrix_test N C A B v =
     (let crc = 0;
          clipval = ucast (matrix_big (promote16 v));
          A = matrix_add_const N A v;
          C = matrix_mul_const N C A v;
          crc = crc16 (matrix_sum N C clipval) crc;
          C = matrix_mul_vect N C A B;
          crc = crc16 (matrix_sum N C clipval) crc;
          C = matrix_mul_matrix N C A B;
          crc = crc16 (matrix_sum N C clipval) crc;
          C = matrix_mul_matrix_bitextract N C A B;
          crc = crc16 (matrix_sum N C clipval) crc;
          A = matrix_add_const N A (ucast (- promote16 v))
      in (crc, C, A))"

text \<open>
  \<^verbatim>\<open>mat_params\<close>: the dimension and the three pointers; the contents of the arrays
  behind the pointers are kept beside them.
\<close>

record mat_params =
  mat_N :: u32
  mat_A :: u32
  mat_B :: u32
  mat_C :: u32
  mat_A_data :: "s16 list"
  mat_B_data :: "s16 list"
  mat_C_data :: "s32 list"

definition core_bench_matrix :: "mat_params \<Rightarrow> s16 \<Rightarrow> u16 \<Rightarrow> u16 \<times> mat_params" where
  "core_bench_matrix p seed crc =
     (case matrix_test (unat (mat_N p)) (mat_C_data p) (mat_A_data p) (mat_B_data p) seed
      of (r, C, A) \<Rightarrow> (crc16 r crc, p\<lparr>mat_C_data := C, mat_A_data := A\<rparr>))"

definition align_mem :: "u32 \<Rightarrow> u32" where
  "align_mem x = 4 + ((x - 1) AND NOT 3)"

text \<open>The loop that finds the dimension, on \<^verbatim>\<open>i\<close> and \<^verbatim>\<open>j\<close>; the product wraps.\<close>

partial_function (option) init_dim :: "u32 \<Rightarrow> u32 \<Rightarrow> u32 \<Rightarrow> u32 option" where
  "init_dim blksize i j =
     (if j < blksize then let i = i + 1 in init_dim blksize i (i * i * 2 * 4) else Some i)"

text \<open>
  The body of the fill loop, on \<^verbatim>\<open>seed\<close>, \<^verbatim>\<open>order\<close> and the two arrays. The remainder of a
  signed division truncates towards zero.
\<close>

definition init_cell :: "nat \<Rightarrow> s32 \<times> s32 \<times> s16 list \<times> s16 list \<Rightarrow> s32 \<times> s32 \<times> s16 list \<times> s16 list" where
  "init_cell n = (\<lambda>(seed, order, A, B).
     let seed = word_of_int (sint (order * seed) smod 65536);
         val = ucast (seed + order) :: s16;
         val = ucast (matrix_clip (promote16 val) False) :: s16;
         B = B[n := val];
         val = ucast (promote16 val + order) :: s16;
         val = ucast (matrix_clip (promote16 val) True) :: s16;
         A = A[n := val]
     in (seed, order + 1, A, B))"

definition core_init_matrix :: "u32 \<Rightarrow> u32 \<Rightarrow> s32 \<Rightarrow> s16 list \<Rightarrow> s16 list \<Rightarrow> s32 list \<Rightarrow>
    (u32 \<times> mat_params) option" where
  "core_init_matrix blksize memblk seed A B C =
     (let order = 1;
          seed = if seed = 0 then 1 else seed
      in do {
        i \<leftarrow> init_dim blksize 0 0;
        let N = i - 1;
        let n = unat N;
        let pA = align_mem memblk;
        let pB = pA + 2 * (N * N);
        let (seed, order, A, B) =
          for_up n (\<lambda>i. for_up n (\<lambda>j. init_cell (i * n + j))) (seed, order, A, B);
        Some (N, \<lparr>mat_N = N, mat_A = pA, mat_B = pB, mat_C = align_mem (pB + 2 * (N * N)),
          mat_A_data = A, mat_B_data = B, mat_C_data = C\<rparr>)
      })"

section \<open>Arithmetic of the element types\<close>

lemma ucast_word_of_int: "(ucast (word_of_int k :: 32 word) :: 16 word) = word_of_int k"
  by transfer simp

lemma truncate_add [simp]: "(ucast (promote16 a + promote16 v) :: s16) = a + v"
  unfolding scast_eq wi_hom_add ucast_word_of_int by (simp only: wi_hom_syms of_int_sint scast_id)

lemma truncate_minus [simp]: "(ucast (- promote16 v) :: s16) = - v"
  unfolding scast_eq wi_hom_neg ucast_word_of_int by (simp only: wi_hom_syms of_int_sint scast_id)

lemma promote16_mult: "promote16 a * promote16 b = word_of_int (sint a * sint b)"
  unfolding scast_eq wi_hom_mult ..

lemma sint_of_int32:
  "- 2147483648 \<le> k \<Longrightarrow> k < 2147483648 \<Longrightarrow> sint (word_of_int k :: s32) = k"
  by (simp add: sint_sbintrunc' signed_take_bit_int_eq_self)

lemma mult_less_cell: "i < N \<Longrightarrow> j < N \<Longrightarrow> i * N + j < N * N" for i j N :: nat
  using mult_le_mono1 [of "Suc i" N N] by simp

section \<open>The loops as array operations\<close>

lemma acc_loop:
  "c < length C \<Longrightarrow> for_up n (\<lambda>k C. C[c := C ! c + g k]) (C[c := 0]) = C[c := \<Sum>k<n. g k]"
  for g :: "nat \<Rightarrow> s32"
  by (induction n) (simp_all add: add.commute)

lemma cells_map:
  assumes "length xs = N * N"
    and "\<And>n ys. n < N * N \<Longrightarrow> length ys = N * N \<Longrightarrow>
      body (n div N) (n mod N) ys = ys[n := f n (ys ! n)]"
  shows "for_up N (\<lambda>i. for_up N (body i)) xs = map (\<lambda>n. f n (xs ! n)) [0..<N * N]"
  using assms for_up_cells [of "N * N" xs "\<lambda>n. body (n div N) (n mod N)" f]
  by (simp add: for_up_rows)

lemma matrix_add_const_map:
  assumes "length A = N * N"
  shows "matrix_add_const N A v = map (\<lambda>a. a + v) A"
proof -
  have "matrix_add_const N A v = map (\<lambda>n. A ! n + v) [0..<N * N]"
    unfolding matrix_add_const_def using assms by (intro cells_map) simp_all
  then show ?thesis using assms by (simp add: list_eq_iff_nth_eq)
qed

lemma matrix_mul_const_map:
  "length C = N * N \<Longrightarrow>
   matrix_mul_const N C A v = map (\<lambda>n. promote16 (A ! n) * promote16 v) [0..<N * N]"
  unfolding matrix_mul_const_def by (intro cells_map) simp_all

definition mat_dot :: "nat \<Rightarrow> (s32 \<Rightarrow> s32) \<Rightarrow> s16 list \<Rightarrow> s16 list \<Rightarrow> nat \<Rightarrow> nat \<Rightarrow> s32" where
  "mat_dot N h A B i j = (\<Sum>k<N. h (promote16 (A ! (i * N + k)) * promote16 (B ! (k * N + j))))"

lemma matrix_mul_matrix_map:
  "length C = N * N \<Longrightarrow>
   matrix_mul_matrix N C A B = map (\<lambda>n. mat_dot N id A B (n div N) (n mod N)) [0..<N * N]"
  unfolding matrix_mul_matrix_def mat_dot_def by (intro cells_map) (simp_all add: acc_loop)

lemma matrix_mul_matrix_bitextract_map:
  "length C = N * N \<Longrightarrow>
   matrix_mul_matrix_bitextract N C A B =
     map (\<lambda>n. mat_dot N (\<lambda>t. bit_extract t 2 4 * bit_extract t 5 7) A B (n div N) (n mod N)) [0..<N * N]"
  unfolding matrix_mul_matrix_bitextract_def mat_dot_def Let_def
  by (intro cells_map) (simp_all add: acc_loop)

lemma matrix_mul_vect_map:
  assumes "N \<le> length C"
  shows "matrix_mul_vect N C A B =
    map (\<lambda>i. \<Sum>j<N. promote16 (A ! (i * N + j)) * promote16 (B ! j)) [0..<N] @ drop N C"
  unfolding matrix_mul_vect_def using assms
  by (intro for_up_cells [where f = "\<lambda>i _. \<Sum>j<N. promote16 (A ! (i * N + j)) * promote16 (B ! j)"])
    (simp_all add: acc_loop)

lemma matrix_sum_fold:
  assumes "length C = N * N"
  shows "matrix_sum N C clipval = snd (snd (fold (matrix_sum_step clipval) C (0, 0, 0)))"
proof -
  have "fold (matrix_sum_step clipval) (map (\<lambda>n. C ! n) [0..<N * N]) s =
      for_up (N * N) (\<lambda>n. matrix_sum_step clipval (C ! n)) s" for s
    by (simp add: for_up_def fold_map comp_def)
  moreover have "map (\<lambda>n. C ! n) [0..<N * N] = C" using assms by (simp add: list_eq_iff_nth_eq)
  ultimately show ?thesis
    unfolding matrix_sum_def for_up_nested [of N N "\<lambda>n. matrix_sum_step clipval (C ! n)"]
    by (simp add: case_prod_beta)
qed

lemma length_mat_ops [simp]:
  "length C = N * N \<Longrightarrow> length (matrix_mul_const N C A v) = N * N"
  "length C = N * N \<Longrightarrow> length (matrix_mul_matrix N C A B) = N * N"
  "length C = N * N \<Longrightarrow> length (matrix_mul_matrix_bitextract N C A B) = N * N"
  "length C = N * N \<Longrightarrow> length (matrix_mul_vect N C A B) = N * N"
  by (simp_all add: matrix_mul_const_map matrix_mul_matrix_map matrix_mul_matrix_bitextract_map
      matrix_mul_vect_map)

section \<open>Properties\<close>

text \<open>
  C23. \<^verbatim>\<open>matrix_test\<close> leaves \<^verbatim>\<open>A\<close> as it found it, also where the additions wrap around, and
  keeps the size of \<^verbatim>\<open>C\<close>.
\<close>

theorem matrix_test_restores_A:
  assumes "length A = N * N" "length C = N * N"
  shows "\<exists>crc C'. matrix_test N C A B v = (crc, C', A) \<and> length C' = N * N"
  using assms by (simp add: matrix_test_def Let_def matrix_add_const_map comp_def)

theorem matrix_test_restores_A_witness:
  "\<exists>crc C'. matrix_test 1 [0] [0x7fff] [2] 1 = (crc, C', [0x7fff]) \<and> length C' = 1"
  using matrix_test_restores_A [of "[0x7fff]" 1 "[0]" "[2]" 1] by simp

text \<open>
  C18. Matrix multiplication: with entries of \<^verbatim>\<open>A\<close> of at most 9 bits and sign (what the
  benchmark's data and constants give) and dimension at most 128, every cell of \<^verbatim>\<open>C\<close>
  is the integer inner product of a row of \<^verbatim>\<open>A\<close> and a column of \<^verbatim>\<open>B\<close>, without overflow.
\<close>

theorem matrix_mul_matrix_exact:
  assumes "length C = N * N" "N \<le> 128" "length A = N * N" "\<forall>a \<in> set A. \<bar>sint a\<bar> \<le> 511" "i < N" "j < N"
  shows "sint (matrix_mul_matrix N C A B ! (i * N + j)) =
    (\<Sum>k<N. sint (A ! (i * N + k)) * sint (B ! (k * N + j)))"
proof -
  let ?t = "\<lambda>k. sint (A ! (i * N + k)) * sint (B ! (k * N + j))"
  have cell: "i * N + j < N * N" using assms(5,6) by (metis mult_less_cell)
  have "\<bar>?t k\<bar> \<le> 511 * 32768" if "k < N" for k
  proof -
    have "i * N + k < N * N" using assms(5) that by (metis mult_less_cell)
    then have "\<bar>sint (A ! (i * N + k))\<bar> \<le> 511" using assms(3,4) by simp
    moreover have "\<bar>sint b\<bar> \<le> 32768" for b :: s16
      using sint_greater_eq [of b] sint_less [of b] by simp
    ultimately show ?thesis unfolding abs_mult by (intro mult_mono) auto
  qed
  then have "\<bar>\<Sum>k<N. ?t k\<bar> \<le> (\<Sum>k<N. 511 * 32768)"
    by (intro order_trans [OF sum_abs] sum_mono) simp
  also have "\<dots> \<le> 128 * (511 * 32768)" using assms(2) by simp
  finally have "sint (word_of_int (\<Sum>k<N. ?t k) :: s32) = (\<Sum>k<N. ?t k)"
    by (intro sint_of_int32) simp_all
  moreover have "matrix_mul_matrix N C A B ! (i * N + j) = word_of_int (\<Sum>k<N. ?t k)"
  proof -
    have "matrix_mul_matrix N C A B ! (i * N + j) = mat_dot N id A B i j"
      using assms(1,6) cell by (simp add: matrix_mul_matrix_map)
    then show ?thesis by (simp only: mat_dot_def id_apply promote16_mult of_int_sum)
  qed
  ultimately show ?thesis by simp
qed

theorem matrix_mul_matrix_exact_witness:
  "sint (matrix_mul_matrix 2 [0, 0, 0, 0] [1, -2, 3, 4] [5, 6, -7, 8] ! (1 * 2 + 0)) = - 13"
  using matrix_mul_matrix_exact [of "[0, 0, 0, 0]" 2 "[1, -2, 3, 4]" 1 0 "[5, 6, -7, 8]"]
  by (simp add: numeral_2_eq_2)

section \<open>The initialisation\<close>

text \<open>The dimension loop, below the point where \<^verbatim>\<open>i * i * 2 * 4\<close> wraps.\<close>

lemma cells_word:
  "i \<le> 23170 \<Longrightarrow> unat (word_of_nat i * word_of_nat i * 2 * 4 :: u32) = 8 * (i * i)"
proof -
  assume "i \<le> 23170"
  then have "i * i \<le> 23170 * 23170" by (intro mult_le_mono)
  then have "8 * (i * i) < 2 ^ LENGTH(32)" by simp
  moreover have "word_of_nat (8 * (i * i)) = (word_of_nat i * word_of_nat i * 2 * 4 :: u32)" by simp
  ultimately show ?thesis by (intro of_nat_inverse)
qed

lemma init_dim_search:
  assumes "unat blksize \<le> 8 * (23170 * 23170)"
  shows "i \<le> m \<Longrightarrow> m \<le> 23170 \<Longrightarrow> unat blksize \<le> 8 * (m * m) \<Longrightarrow>
    (\<And>k. k < m \<Longrightarrow> 8 * (k * k) < unat blksize) \<Longrightarrow>
    init_dim blksize (word_of_nat i) (word_of_nat i * word_of_nat i * 2 * 4) = Some (word_of_nat m)"
proof (induction "m - i" arbitrary: i)
  case 0
  then have "i = m" by simp
  with 0 have "\<not> (word_of_nat i * word_of_nat i * 2 * 4 :: u32) < blksize"
    unfolding word_less_nat_alt using cells_word [of i] by simp
  with \<open>i = m\<close> show ?case by (subst init_dim.simps) (simp only: if_False)
next
  case (Suc d)
  then have "i < m" "i \<le> 23170" by simp_all
  with Suc.prems(4) have "8 * (i * i) < unat blksize" by blast
  then have j: "(word_of_nat i * word_of_nat i * 2 * 4 :: u32) < blksize"
    unfolding word_less_nat_alt using cells_word [OF \<open>i \<le> 23170\<close>] by simp
  have "init_dim blksize (word_of_nat (Suc i)) (word_of_nat (Suc i) * word_of_nat (Suc i) * 2 * 4) =
      Some (word_of_nat m)"
    using Suc \<open>i < m\<close> by (intro Suc.hyps) simp_all
  moreover have "word_of_nat i + (1 :: u32) = word_of_nat (Suc i)" by simp
  ultimately show ?case using j by (subst init_dim.simps) (simp only: if_True Let_def)
qed

lemma init_dim_least:
  assumes "0 < unat blksize" "unat blksize \<le> 8 * (23170 * 23170)"
  obtains m where "init_dim blksize 0 0 = Some (word_of_nat (Suc m))" "m < 23170"
    "8 * (m * m) < unat blksize" "unat blksize \<le> 8 * (Suc m * Suc m)"
proof -
  define m where "m = (LEAST m. unat blksize \<le> 8 * (m * m))"
  have m: "unat blksize \<le> 8 * (m * m)" unfolding m_def by (rule LeastI [where P = "\<lambda>m. unat blksize \<le> 8 * (m * m)", OF assms(2)])
  have least: "8 * (k * k) < unat blksize" if "k < m" for k
    using not_less_Least that unfolding m_def by fastforce
  have le: "m \<le> 23170" unfolding m_def by (rule Least_le [where P = "\<lambda>m. unat blksize \<le> 8 * (m * m)", OF assms(2)])
  obtain m' where m': "m = Suc m'" using m assms(1) by (cases m) auto
  have "init_dim blksize 0 0 = Some (word_of_nat m)"
    using init_dim_search [OF assms(2), of 0 m] m le least by simp
  then show ?thesis using that [of m'] m m' le least [of m'] by simp
qed

lemma and_not_3: "unat (w AND NOT 3 :: u32) = unat w div 4 * 4"
proof -
  have "w AND NOT 3 = w AND NOT (w AND 3)"
    by (rule bit_word_eqI) (auto simp: bit_simps)
  also have "\<dots> = w - (w AND 3)"
    by (rule disjunctive_diff_eq_and_not [symmetric]) (auto intro: bit_word_eqI simp: bit_simps)
  also have "w AND 3 = w mod 4"
    using take_bit_eq_mod [of 2 w] by (simp add: take_bit_eq_mask mask_eq_exp_minus_1)
  also have "w - w mod 4 = w div 4 * 4" by (simp add: minus_mod_eq_div_mult)
  finally show ?thesis
    using unat32_less [of w] by (simp add: unat_word_ariths unat_div)
qed

lemma aligned_after: "(q * 4 + 4 * r + 3) div 4 * 4 = q * 4 + 4 * r" for q r :: nat
  by presburger

lemma unat_align_mem: "unat x + 3 < 4294967296 \<Longrightarrow> unat (align_mem x) = (unat x + 3) div 4 * 4"
proof (cases "x = 0")
  case False
  assume x: "unat x + 3 < 4294967296"
  from False have pos: "0 < unat x" by (simp add: unat_gt_0)
  from False have "unat (x - 1) = unat x - 1" by (rule unat_minus_one)
  moreover have "(unat x - 1) div 4 * 4 + 4 = (unat x + 3) div 4 * 4"
    using pos div_add_self1 [of 4 "unat x - 1"] by (simp add: add.commute [of 3])
  ultimately show ?thesis using x and_not_3 [of "x - 1"]
    by (simp add: align_mem_def unat_word_ariths)
qed (simp add: align_mem_def)

text \<open>The fill loop: sizes are kept and every cell written in \<^verbatim>\<open>A\<close> is a byte.\<close>

lemma clip_byte: "unat (ucast (matrix_clip x True) :: s16) < 256"
proof -
  have "matrix_clip x True = take_bit 8 x"
    by (simp add: matrix_clip_def take_bit_eq_mask mask_eq_exp_minus_1)
  then have "unat (ucast (matrix_clip x True) :: s16) = take_bit 8 (unat x)"
    by (simp add: unsigned_ucast_eq unsigned_take_bit_eq)
  then show ?thesis using take_bit_nat_less_exp [of 8 "unat x"] by simp
qed

definition fill_ok :: "nat \<Rightarrow> nat \<Rightarrow> nat \<Rightarrow> s32 \<times> s32 \<times> s16 list \<times> s16 list \<Rightarrow> bool" where
  "fill_ok la lb k st = (case st of (seed, order, A, B) \<Rightarrow>
     length A = la \<and> length B = lb \<and> order = word_of_nat (Suc k) \<and> (\<forall>m < k. unat (A ! m) < 256))"

lemma init_cell_fill: "k < la \<Longrightarrow> fill_ok la lb k st \<Longrightarrow> fill_ok la lb (Suc k) (init_cell k st)"
  by (auto simp: fill_ok_def init_cell_def Let_def less_Suc_eq clip_byte nth_list_update)

lemma fill_loop:
  assumes "n * n \<le> length A"
  shows "fill_ok (length A) (length B) (n * n)
    (for_up n (\<lambda>i. for_up n (\<lambda>j. init_cell (i * n + j))) (seed, 1, A, B))"
  unfolding for_up_nested [of n n init_cell] using assms
  by (intro for_up_induct [where P = "fill_ok (length A) (length B)"] init_cell_fill)
    (simp_all add: fill_ok_def)

lemma byte_sint: "unat (a :: s16) < 256 \<Longrightarrow> 0 \<le> sint a \<and> sint a \<le> 255"
proof -
  assume a: "unat a < 256"
  then have "int (unat a) < 256" by linarith
  then have "uint a < 256" by (simp only: of_nat_unat)
  have "0 \<le> uint a" by simp
  then have "- 32768 \<le> uint a" by linarith
  with \<open>uint a < 256\<close> have "sint a = uint a"
    using signed_take_bit_int_eq_self [of 15 "uint a"] by (simp add: sint_uint)
  with a show ?thesis using \<open>0 \<le> uint a\<close> \<open>uint a < 256\<close> by linarith
qed

lemma init_matrix_layout:
  assumes "0 < unat blksize" "unat blksize \<le> 8 * (23170 * 23170)"
    and "unat memblk + unat blksize + 6 < 4294967296"
    and "length A = unat blksize" "length B = unat blksize"
  shows "\<exists>N p. core_init_matrix blksize memblk seed A B C = Some (N, p) \<and> mat_N p = N \<and>
    8 * (unat N * unat N) < unat blksize \<and> unat blksize \<le> 8 * (Suc (unat N) * Suc (unat N)) \<and>
    unat (mat_A p) = (unat memblk + 3) div 4 * 4 \<and>
    unat (mat_B p) = unat (mat_A p) + 2 * (unat N * unat N) \<and>
    unat (mat_C p) = unat (mat_B p) + 2 * (unat N * unat N) \<and>
    (\<forall>n < unat N * unat N. 0 \<le> sint (mat_A_data p ! n) \<and> sint (mat_A_data p ! n) \<le> 255)"
proof -
  obtain m where dim: "init_dim blksize 0 0 = Some (word_of_nat (Suc m))" and m: "m < 23170"
    "8 * (m * m) < unat blksize" "unat blksize \<le> 8 * (Suc m * Suc m)"
    using init_dim_least [OF assms(1,2)] by blast
  let ?N = "word_of_nat m :: u32" and ?pA = "align_mem memblk"
  let ?pB = "?pA + 2 * (?N * ?N)"
  have N: "unat ?N = m" using m(1) by (intro of_nat_inverse) simp_all
  have pA: "unat ?pA = (unat memblk + 3) div 4 * 4" using assms(3) by (simp add: unat_align_mem)
  then have pA_le: "unat ?pA \<le> unat memblk + 3" by simp
  have sq: "unat (2 * (?N * ?N)) = 2 * (m * m)"
    using m(2) N assms(3) by (simp add: unat_word_ariths)
  have pB: "unat ?pB = unat ?pA + 2 * (m * m)"
    unfolding unat_word_ariths(1) [of ?pA] sq using pA_le m(2) assms(3) by simp
  have pC: "unat (?pB + 2 * (?N * ?N)) = unat ?pA + 4 * (m * m)"
    unfolding unat_word_ariths(1) [of ?pB] sq pB using pA_le m(2) assms(3) by simp
  have "unat ?pA + 4 * (m * m) + 3 < 4294967296" using pA_le m(2) assms(3) by linarith
  note unat_align_mem [of "?pB + 2 * (?N * ?N)", unfolded pC, OF this]
  also have "(unat ?pA + 4 * (m * m) + 3) div 4 * 4 = unat ?pA + 4 * (m * m)"
    unfolding pA by (rule aligned_after)
  finally have "unat (align_mem (?pB + 2 * (?N * ?N))) = unat ?pA + 4 * (m * m)" .
  moreover obtain s' o' A' B' where fill:
    "for_up m (\<lambda>i. for_up m (\<lambda>j. init_cell (i * m + j))) (if seed = 0 then 1 else seed, 1, A, B) = (s', o', A', B')"
    by (metis surj_pair)
  moreover have "\<forall>n < m * m. 0 \<le> sint (A' ! n) \<and> sint (A' ! n) \<le> 255"
    using fill_loop [of m A B "if seed = 0 then 1 else seed"] m(2) assms(4) fill byte_sint
    by (simp add: fill_ok_def)
  ultimately show ?thesis
    using dim m N pA pB by (simp add: core_init_matrix_def Let_def)
qed

text \<open>
  \<^verbatim>\<open>core_init_matrix\<close> finds the largest dimension whose three arrays take less than
  the block, lays the arrays out one behind the other from the next multiple of
  four, so that they never overlap and end within three bytes of \<open>8 * N\<^sup>2\<close> bytes from
  the start of the block, and fills \<^verbatim>\<open>A\<close> with bytes; the loop always ends.
\<close>

theorem core_init_matrix_layout:
  assumes "0 < unat blksize" "unat blksize \<le> 8 * (23170 * 23170)"
    and "unat memblk + unat blksize + 6 < 4294967296"
    and "length A = unat blksize" "length B = unat blksize"
  shows "\<exists>N p. core_init_matrix blksize memblk seed A B C = Some (N, p) \<and> mat_N p = N \<and>
    8 * (unat N * unat N) < unat blksize \<and> unat blksize \<le> 8 * (Suc (unat N) * Suc (unat N)) \<and>
    unat (mat_A p) = (unat memblk + 3) div 4 * 4 \<and>
    unat (mat_B p) = unat (mat_A p) + 2 * (unat N * unat N) \<and>
    unat (mat_C p) = unat (mat_B p) + 2 * (unat N * unat N) \<and>
    (\<forall>n < unat N * unat N. 0 \<le> sint (mat_A_data p ! n) \<and> sint (mat_A_data p ! n) \<le> 255)"
  by (rule init_matrix_layout [OF assms])

theorem core_init_matrix_layout_witness:
  "\<exists>N p. core_init_matrix 666 1690 0x34153415 (replicate 666 0) (replicate 666 0) [] = Some (N, p) \<and>
     8 * (unat N * unat N) < 666 \<and> unat (mat_A p) = 1692"
  using core_init_matrix_layout [of 666 1690 "replicate 666 0" "replicate 666 0" "0x34153415" "[]"] by auto

end
