(* ===== verification/CoreState.thy ===== *)
theory CoreState
  imports Crc
begin

text \<open>
  The state machine kernel of CoreMark, \<^verbatim>\<open>fpga/coremark/src/core_state.c\<close>. The input
  block is a list of bytes and a pointer into it an index; a read or write
  outside the block is the value \<^const>\<open>None\<close>, as is a loop that never ends, so a
  result \<^const>\<open>Some\<close> says that the code returns and stays inside its block.
\<close>

section \<open>The state machine\<close>

datatype core_state_e = CORE_START | CORE_INVALID | CORE_S1 | CORE_S2 | CORE_INT | CORE_FLOAT |
  CORE_EXPONENT | CORE_SCIENTIFIC

type_synonym counts = "core_state_e \<Rightarrow> u32"

abbreviation bump :: "core_state_e \<Rightarrow> counts \<Rightarrow> counts" where
  "bump st cnt \<equiv> cnt(st := cnt st + 1)"

text \<open>Character codes of the alphabet.\<close>

abbreviation ch_comma :: u8 where "ch_comma \<equiv> 44"
abbreviation ch_plus :: u8 where "ch_plus \<equiv> 43"
abbreviation ch_minus :: u8 where "ch_minus \<equiv> 45"
abbreviation ch_dot :: u8 where "ch_dot \<equiv> 46"
abbreviation ch_E :: u8 where "ch_E \<equiv> 69"
abbreviation ch_e :: u8 where "ch_e \<equiv> 101"

definition ee_isdigit :: "u8 \<Rightarrow> bool" where
  "ee_isdigit c \<longleftrightarrow> 48 \<le> c \<and> c \<le> 57"

text \<open>The body of the \<^verbatim>\<open>switch\<close>: the next state, and the transition counters it bumps.\<close>

fun state_switch :: "core_state_e \<Rightarrow> u8 \<Rightarrow> counts \<Rightarrow> core_state_e \<times> counts" where
  "state_switch CORE_START c cnt =
     (if ee_isdigit c then (CORE_INT, bump CORE_START cnt)
      else if c = ch_plus \<or> c = ch_minus then (CORE_S1, bump CORE_START cnt)
      else if c = ch_dot then (CORE_FLOAT, bump CORE_START cnt)
      else (CORE_INVALID, bump CORE_START (bump CORE_INVALID cnt)))"
| "state_switch CORE_S1 c cnt =
     (if ee_isdigit c then (CORE_INT, bump CORE_S1 cnt)
      else if c = ch_dot then (CORE_FLOAT, bump CORE_S1 cnt)
      else (CORE_INVALID, bump CORE_S1 cnt))"
| "state_switch CORE_INT c cnt =
     (if c = ch_dot then (CORE_FLOAT, bump CORE_INT cnt)
      else if \<not> ee_isdigit c then (CORE_INVALID, bump CORE_INT cnt)
      else (CORE_INT, cnt))"
| "state_switch CORE_FLOAT c cnt =
     (if c = ch_E \<or> c = ch_e then (CORE_S2, bump CORE_FLOAT cnt)
      else if \<not> ee_isdigit c then (CORE_INVALID, bump CORE_FLOAT cnt)
      else (CORE_FLOAT, cnt))"
| "state_switch CORE_S2 c cnt =
     (if c = ch_plus \<or> c = ch_minus then (CORE_EXPONENT, bump CORE_S2 cnt)
      else (CORE_INVALID, bump CORE_S2 cnt))"
| "state_switch CORE_EXPONENT c cnt =
     (if ee_isdigit c then (CORE_SCIENTIFIC, bump CORE_EXPONENT cnt)
      else (CORE_INVALID, bump CORE_EXPONENT cnt))"
| "state_switch CORE_SCIENTIFIC c cnt =
     (if \<not> ee_isdigit c then (CORE_INVALID, bump CORE_INVALID cnt) else (CORE_SCIENTIFIC, cnt))"
| "state_switch CORE_INVALID c cnt = (CORE_INVALID, cnt)"

text \<open>The scanning loop of \<^verbatim>\<open>core_state_transition\<close>; the result has the updated \<^verbatim>\<open>*instr\<close>.\<close>

function transition_loop ::
    "u8 list \<Rightarrow> nat \<Rightarrow> core_state_e \<Rightarrow> counts \<Rightarrow> (core_state_e \<times> nat \<times> counts) option" where
  "transition_loop mem str state cnt =
     (if length mem \<le> str then None
      else if mem ! str = 0 \<or> state = CORE_INVALID then Some (state, str, cnt)
      else if mem ! str = ch_comma then Some (state, str + 1, cnt)
      else let (state, cnt) = state_switch state (mem ! str) cnt
           in transition_loop mem (str + 1) state cnt)"
  by pat_completeness auto
termination by (relation "measure (\<lambda>(mem, str, state, cnt). length mem - str)") auto

definition core_state_transition ::
    "u8 list \<Rightarrow> nat \<Rightarrow> counts \<Rightarrow> (core_state_e \<times> nat \<times> counts) option" where
  "core_state_transition mem instr cnt = transition_loop mem instr CORE_START cnt"

section \<open>The benchmark\<close>

text \<open>\<^verbatim>\<open>while (*p != 0)\<close>: run the machine over the block, counting final states and transitions.\<close>

partial_function (option) scan_loop ::
    "u8 list \<Rightarrow> nat \<Rightarrow> counts \<Rightarrow> counts \<Rightarrow> (counts \<times> counts) option" where
  "scan_loop mem p final track =
     (if length mem \<le> p then None
      else if mem ! p = 0 then Some (final, track)
      else do {
        r \<leftarrow> core_state_transition mem p track;
        (case r of (fstate, p, track) \<Rightarrow> scan_loop mem p (bump fstate final) track)
      })"

text \<open>\<^verbatim>\<open>while (p < memblock + blksize)\<close>: corrupt every \<^verbatim>\<open>step\<close>-th byte.\<close>

partial_function (option) corrupt_loop :: "u8 list \<Rightarrow> int \<Rightarrow> int \<Rightarrow> s16 \<Rightarrow> s16 \<Rightarrow> u8 list option" where
  "corrupt_loop mem p blksize step seed =
     (if p < blksize
      then if p < 0 \<or> int (length mem) \<le> p then None
           else let mem = (if mem ! nat p \<noteq> ch_comma then mem[nat p := mem ! nat p XOR ucast seed] else mem)
                in corrupt_loop mem (p + sint step) blksize step seed
      else Some mem)"

definition state_order :: "core_state_e list" where
  "state_order = [CORE_START, CORE_INVALID, CORE_S1, CORE_S2, CORE_INT, CORE_FLOAT, CORE_EXPONENT,
     CORE_SCIENTIFIC]"

definition core_bench_state ::
    "u32 \<Rightarrow> u8 list \<Rightarrow> s16 \<Rightarrow> s16 \<Rightarrow> s16 \<Rightarrow> u16 \<Rightarrow> (u16 \<times> u8 list) option" where
  "core_bench_state blksize mem seed1 seed2 step crc = do {
     let final_counts = (\<lambda>_. 0);
     let track_counts = (\<lambda>_. 0);
     (final_counts, track_counts) \<leftarrow> scan_loop mem 0 final_counts track_counts;
     mem \<leftarrow> corrupt_loop mem 0 (uint blksize) step seed1;
     (final_counts, track_counts) \<leftarrow> scan_loop mem 0 final_counts track_counts;
     mem \<leftarrow> corrupt_loop mem 0 (uint blksize) step seed2;
     Some (fold (\<lambda>st crc. crcu32 (track_counts st) (crcu32 (final_counts st) crc)) state_order crc, mem)
   }"

section \<open>The initialisation\<close>

definition bytes_of :: "string \<Rightarrow> u8 list" where
  "bytes_of s = map (\<lambda>c. word_of_nat (of_char c)) s"

definition intpat :: "u8 list list" where
  "intpat = map bytes_of [''5012'', ''1234'', ''-874'', ''+122'']"
definition floatpat :: "u8 list list" where
  "floatpat = map bytes_of [''35.54400'', ''.1234500'', ''-110.700'', ''+0.64400'']"
definition scipat :: "u8 list list" where
  "scipat = map bytes_of [''5.500e+3'', ''-.123e-2'', ''-87e+832'', ''+0.6e-12'']"
definition errpat :: "u8 list list" where
  "errpat = map bytes_of [''T0.3e-1F'', ''-T.T++Tq'', ''1T3.4e4z'', ''34.0e-T^'']"

text \<open>The \<^verbatim>\<open>switch\<close> on the seed: the pattern and its length \<^verbatim>\<open>next\<close>.\<close>

definition choose_pattern :: "s16 \<Rightarrow> u8 list \<times> u32" where
  "choose_pattern seed =
     (let k = unat (seed AND 7); i = unat (signed_drop_bit 3 seed AND 3)
      in if k \<le> 2 then (intpat ! i, 4)
         else if k \<le> 4 then (floatpat ! i, 8)
         else if k \<le> 6 then (scipat ! i, 8)
         else (errpat ! i, 8))"

definition poke :: "u8 list \<Rightarrow> nat \<Rightarrow> u8 \<Rightarrow> u8 list option" where
  "poke mem i v = (if i < length mem then Some (mem[i := v]) else None)"

text \<open>\<^verbatim>\<open>for (i = 0; i < next; i++) *(p + tot + i) = buf[i]\<close>.\<close>

fun copy_loop :: "u8 list \<Rightarrow> u8 list \<Rightarrow> nat \<Rightarrow> nat \<Rightarrow> nat \<Rightarrow> u8 list option" where
  "copy_loop mem buf at i 0 = Some mem"
| "copy_loop mem buf at i (Suc n) =
     (if i < length buf then do { mem \<leftarrow> poke mem (at + i) (buf ! i); copy_loop mem buf at (i + 1) n }
      else None)"

partial_function (option) init_loop ::
    "u32 \<Rightarrow> u8 list \<Rightarrow> u32 \<Rightarrow> u32 \<Rightarrow> u8 list \<Rightarrow> s16 \<Rightarrow> (u32 \<times> u8 list) option" where
  "init_loop sz mem tot nxt buf seed =
     (if tot + nxt + 1 < sz
      then do {
        (mem, tot) \<leftarrow>
          (if 0 < nxt then do {
             mem \<leftarrow> copy_loop mem buf (unat tot) 0 (unat nxt);
             mem \<leftarrow> poke mem (unat tot + unat nxt) ch_comma;
             Some (mem, tot + (nxt + 1))
           } else Some (mem, tot));
        let seed = seed + 1;
        let (buf, nxt) = choose_pattern seed;
        init_loop sz mem tot nxt buf seed
      }
      else Some (tot, mem))"

partial_function (option) zero_loop :: "u32 \<Rightarrow> u32 \<Rightarrow> u8 list \<Rightarrow> u8 list option" where
  "zero_loop sz tot mem =
     (if tot < sz then do { mem \<leftarrow> poke mem (unat tot) 0; zero_loop sz (tot + 1) mem }
      else Some mem)"

definition core_init_state :: "u32 \<Rightarrow> s16 \<Rightarrow> u8 list \<Rightarrow> u8 list option" where
  "core_init_state sz seed mem = do {
     let sz = sz - 1;
     (tot, mem) \<leftarrow> init_loop sz mem 0 0 [] seed;
     let sz = sz + 1;
     zero_loop sz tot mem
   }"

section \<open>The language of the machine\<close>

declare transition_loop.simps [simp del]

definition next_state :: "core_state_e \<Rightarrow> u8 \<Rightarrow> core_state_e" where
  "next_state st c = fst (state_switch st c (\<lambda>_. 0))"

lemma fst_state_switch: "fst (state_switch st c cnt) = next_state st c"
  by (cases st) (simp_all add: next_state_def)

abbreviation run :: "core_state_e \<Rightarrow> u8 list \<Rightarrow> core_state_e" where
  "run st w \<equiv> foldl next_state st w"

definition digits :: "u8 list \<Rightarrow> bool" where
  "digits w \<longleftrightarrow> (\<forall>c \<in> set w. ee_isdigit c)"

definition sign :: "u8 list \<Rightarrow> bool" where
  "sign w \<longleftrightarrow> w = [] \<or> w = [ch_plus] \<or> w = [ch_minus]"

definition is_int :: "u8 list \<Rightarrow> bool" where
  "is_int w \<longleftrightarrow> (\<exists>s d. w = s @ d \<and> sign s \<and> d \<noteq> [] \<and> digits d)"

definition is_float :: "u8 list \<Rightarrow> bool" where
  "is_float w \<longleftrightarrow> (\<exists>s a b. w = s @ a @ ch_dot # b \<and> sign s \<and> digits a \<and> digits b)"

definition is_sci :: "u8 list \<Rightarrow> bool" where
  "is_sci w \<longleftrightarrow> (\<exists>f e g d. w = f @ e # g # d \<and> is_float f \<and> (e = ch_E \<or> e = ch_e) \<and>
     (g = ch_plus \<or> g = ch_minus) \<and> d \<noteq> [] \<and> digits d)"

lemma digits_simps [simp]:
  "digits []" "digits (c # w) \<longleftrightarrow> ee_isdigit c \<and> digits w" "digits (v @ w) \<longleftrightarrow> digits v \<and> digits w"
  by (auto simp: digits_def)

lemma not_digit [simp]:
  "\<not> ee_isdigit ch_plus" "\<not> ee_isdigit ch_minus" "\<not> ee_isdigit ch_dot"
  "\<not> ee_isdigit ch_E" "\<not> ee_isdigit ch_e" "\<not> ee_isdigit ch_comma"
  by (simp_all add: ee_isdigit_def)

lemma next_state_simps [simp]:
  "next_state CORE_START c = (if ee_isdigit c then CORE_INT else if c = ch_plus \<or> c = ch_minus
     then CORE_S1 else if c = ch_dot then CORE_FLOAT else CORE_INVALID)"
  "next_state CORE_S1 c = (if ee_isdigit c then CORE_INT else if c = ch_dot then CORE_FLOAT
     else CORE_INVALID)"
  "next_state CORE_INT c = (if c = ch_dot then CORE_FLOAT else if ee_isdigit c then CORE_INT
     else CORE_INVALID)"
  "next_state CORE_FLOAT c = (if c = ch_E \<or> c = ch_e then CORE_S2 else if ee_isdigit c then CORE_FLOAT
     else CORE_INVALID)"
  "next_state CORE_S2 c = (if c = ch_plus \<or> c = ch_minus then CORE_EXPONENT else CORE_INVALID)"
  "next_state CORE_EXPONENT c = (if ee_isdigit c then CORE_SCIENTIFIC else CORE_INVALID)"
  "next_state CORE_SCIENTIFIC c = (if ee_isdigit c then CORE_SCIENTIFIC else CORE_INVALID)"
  "next_state CORE_INVALID c = CORE_INVALID"
  by (simp_all add: next_state_def)

text \<open>What has been read when the machine is in a given state.\<close>

fun state_reads :: "core_state_e \<Rightarrow> u8 list \<Rightarrow> bool" where
  "state_reads CORE_START w \<longleftrightarrow> w = []"
| "state_reads CORE_S1 w \<longleftrightarrow> w = [ch_plus] \<or> w = [ch_minus]"
| "state_reads CORE_INT w \<longleftrightarrow> is_int w"
| "state_reads CORE_FLOAT w \<longleftrightarrow> is_float w"
| "state_reads CORE_S2 w \<longleftrightarrow> (\<exists>f e. w = f @ [e] \<and> is_float f \<and> (e = ch_E \<or> e = ch_e))"
| "state_reads CORE_EXPONENT w \<longleftrightarrow> (\<exists>f e g. w = f @ [e, g] \<and> is_float f \<and> (e = ch_E \<or> e = ch_e) \<and>
     (g = ch_plus \<or> g = ch_minus))"
| "state_reads CORE_SCIENTIFIC w \<longleftrightarrow> is_sci w"
| "state_reads CORE_INVALID w \<longleftrightarrow> True"

lemma is_intI: "sign s \<Longrightarrow> digits d \<Longrightarrow> d \<noteq> [] \<Longrightarrow> is_int (s @ d)"
  by (auto simp: is_int_def)

lemma is_floatI: "sign s \<Longrightarrow> digits a \<Longrightarrow> digits b \<Longrightarrow> is_float (s @ a @ ch_dot # b)"
  by (auto simp: is_float_def)

lemma is_int_snoc: "is_int w \<Longrightarrow> ee_isdigit c \<Longrightarrow> is_int (w @ [c])"
  unfolding is_int_def [of w] using is_intI [of _ "_ @ [c]"] by fastforce

lemma is_float_snoc: "is_int w \<Longrightarrow> is_float (w @ [ch_dot])"
  "is_float v \<Longrightarrow> ee_isdigit c \<Longrightarrow> is_float (v @ [c])"
proof -
  show "is_float (w @ [ch_dot])" if "is_int w"
    using that is_floatI [of _ _ "[]"] unfolding is_int_def by force
  show "is_float (v @ [c])" if "is_float v" "ee_isdigit c"
    using that is_floatI [of _ _ "_ @ [c]"] unfolding is_float_def [of v] by fastforce
qed

lemma is_sci_snoc:
  "is_float f \<Longrightarrow> e = ch_E \<or> e = ch_e \<Longrightarrow> g = ch_plus \<or> g = ch_minus \<Longrightarrow> ee_isdigit c \<Longrightarrow>
     is_sci (f @ [e, g, c])"
  "is_sci w \<Longrightarrow> ee_isdigit c \<Longrightarrow> is_sci (w @ [c])"
  by (force simp: is_sci_def)+

lemma sign_simps [simp]: "sign []" "sign [ch_plus]" "sign [ch_minus]"
  by (simp_all add: sign_def)

lemma next_state_reads: "state_reads st w \<Longrightarrow> state_reads (next_state st c) (w @ [c])"
  using is_intI [of w "[c]"] is_floatI [of w "[]" "[]"]
  by (cases st) (auto intro: is_int_snoc is_float_snoc is_sci_snoc)

lemma run_reads: "state_reads (run CORE_START w) w"
  by (induction w rule: rev_induct) (simp_all add: next_state_reads)

lemma run_digits: "digits w \<Longrightarrow> run CORE_INT w = CORE_INT" "digits w \<Longrightarrow> run CORE_FLOAT w = CORE_FLOAT"
  "digits w \<Longrightarrow> run CORE_SCIENTIFIC w = CORE_SCIENTIFIC"
  by (induction w) (auto simp: ee_isdigit_def)

lemma run_start_digits: "sign s \<Longrightarrow> digits d \<Longrightarrow>
    run CORE_START (s @ d) = (if d \<noteq> [] then CORE_INT else if s = [] then CORE_START else CORE_S1)"
  by (cases d) (auto simp: sign_def run_digits ee_isdigit_def)

lemma run_float: "is_float w \<Longrightarrow> run CORE_START w = CORE_FLOAT"
proof -
  assume "is_float w"
  then obtain s a b where w: "w = (s @ a) @ ch_dot # b" "sign s" "digits a" "digits b"
    by (auto simp: is_float_def)
  then have "run CORE_START (s @ a) \<in> {CORE_START, CORE_S1, CORE_INT}"
    by (simp add: run_start_digits del: foldl_append)
  then have "next_state (run CORE_START (s @ a)) ch_dot = CORE_FLOAT" by auto
  with w show ?thesis by (simp add: run_digits del: foldl_append) (simp add: run_digits)
qed

lemma run_sci: "is_sci w \<Longrightarrow> run CORE_START w = CORE_SCIENTIFIC"
  unfolding is_sci_def by (elim exE) (case_tac d; auto simp: run_float run_digits)

text \<open>
  The three kinds of number are exactly the inputs on which the machine ends in
  the corresponding state.
\<close>

lemma run_language:
  "run CORE_START w = CORE_INT \<longleftrightarrow> is_int w"
  "run CORE_START w = CORE_FLOAT \<longleftrightarrow> is_float w"
  "run CORE_START w = CORE_SCIENTIFIC \<longleftrightarrow> is_sci w"
  using run_reads [of w] run_float [of w] run_sci [of w] run_start_digits
  by (auto simp: is_int_def)

section \<open>One token of the input\<close>

lemma run_invalid [simp]: "run CORE_INVALID w = CORE_INVALID"
  by (induction w) simp_all

text \<open>A token: neither a separator nor a terminator inside.\<close>

definition token :: "u8 list \<Rightarrow> bool" where
  "token w \<longleftrightarrow> 0 \<notin> set w \<and> ch_comma \<notin> set w"

lemma transition_loop_token:
  assumes "token w" "e = 0 \<or> e = ch_comma"
  shows "\<exists>p cnt'. transition_loop (pre @ w @ e # post) (length pre) st cnt =
      Some (run st w, p, cnt') \<and>
    (run st w \<noteq> CORE_INVALID \<longrightarrow> p = length pre + length w + (if e = 0 then 0 else 1))"
  using assms(1)
proof (induction w arbitrary: pre st cnt)
  case Nil
  then show ?case using assms(2) by (subst transition_loop.simps) auto
next
  case (Cons c w)
  then have c: "c \<noteq> 0" "c \<noteq> ch_comma" and w: "token w" by (auto simp: token_def)
  show ?case
  proof (cases "st = CORE_INVALID")
    case True
    then show ?thesis by (subst transition_loop.simps) simp
  next
    case False
    obtain cnt1 where sw: "state_switch st c cnt = (next_state st c, cnt1)"
      using fst_state_switch by (metis prod.collapse)
    with False c have "transition_loop (pre @ (c # w) @ e # post) (length pre) st cnt =
        transition_loop ((pre @ [c]) @ w @ e # post) (length (pre @ [c])) (next_state st c) cnt1"
      by (subst transition_loop.simps) (simp add: nth_append)
    with Cons.IH [OF w, of "pre @ [c]" "next_state st c" cnt1] show ?thesis by auto
  qed
qed

text \<open>
  C7. \<^verbatim>\<open>core_state_transition\<close> classifies a token: it reports an integer exactly for an
  optional sign and digits, a float exactly for such a text with a decimal point,
  a scientific number exactly for a float followed by an exponent letter, a sign
  and digits; and then it has consumed the token and its separator.
\<close>

theorem core_state_transition_language:
  assumes "token w" "e = 0 \<or> e = ch_comma"
  shows "\<exists>st p cnt'. core_state_transition (pre @ w @ e # post) (length pre) cnt = Some (st, p, cnt') \<and>
    (st = CORE_INT \<longleftrightarrow> is_int w) \<and> (st = CORE_FLOAT \<longleftrightarrow> is_float w) \<and> (st = CORE_SCIENTIFIC \<longleftrightarrow> is_sci w) \<and>
    (st \<noteq> CORE_INVALID \<longrightarrow> p = length pre + length w + (if e = 0 then 0 else 1))"
  using transition_loop_token [OF assms, of pre post CORE_START cnt] run_language [of w]
  unfolding core_state_transition_def by blast

theorem core_state_transition_language_witness:
  "\<exists>p cnt'. core_state_transition (bytes_of ''5012,'') 0 (\<lambda>_. 0) = Some (CORE_INT, p, cnt') \<and> p = 5"
proof -
  have "token (bytes_of ''5012'')" "is_int (bytes_of ''5012'')"
    using is_intI [of "[]" "bytes_of ''5012''"]
    by (simp_all add: token_def bytes_of_def ee_isdigit_def)
  then show ?thesis
    using core_state_transition_language [of "bytes_of ''5012''" ch_comma "[]" "[]" "\<lambda>_. 0"]
    by (auto simp: bytes_of_def)
qed

text \<open>
  The pattern \<^verbatim>\<open>-87e+832\<close> of the table of scientific numbers is not one for the
  machine: an exponent needs a decimal point before it, so the token is invalid.
\<close>

theorem scipat_invalid:
  "\<exists>p cnt'. scipat ! 2 = bytes_of ''-87e+832'' \<and> \<not> is_sci (scipat ! 2) \<and>
     core_state_transition (scipat ! 2 @ [ch_comma]) 0 (\<lambda>_. 0) = Some (CORE_INVALID, p, cnt') \<and> p = 4"
proof -
  have "run CORE_START (bytes_of ''-87e+832'') = CORE_INVALID"
    by (simp add: bytes_of_def ee_isdigit_def)
  then show ?thesis
    using run_language(3) [of "bytes_of ''-87e+832''"]
    by (auto simp: scipat_def bytes_of_def core_state_transition_def transition_loop.simps
        ee_isdigit_def Let_def)
qed

section \<open>Scanning the block\<close>

text \<open>A scan that starts at or before a zero byte stays before it and advances.\<close>

lemma transition_loop_bounded:
  assumes "z < length mem" "mem ! z = 0"
  shows "str \<le> z \<Longrightarrow> \<exists>st' p cnt'. transition_loop mem str st cnt = Some (st', p, cnt') \<and> str \<le> p \<and> p \<le> z \<and>
    (mem ! str \<noteq> 0 \<and> st \<noteq> CORE_INVALID \<longrightarrow> str < p)"
  using assms
proof (induction mem str st cnt rule: transition_loop.induct)
  case (1 mem str st cnt)
  show ?case
  proof (cases "mem ! str = 0 \<or> st = CORE_INVALID \<or> mem ! str = ch_comma")
    case True
    then show ?thesis using 1(2-4) by (subst transition_loop.simps) (auto simp: le_less)
  next
    case False
    obtain st1 cnt1 where sw: "state_switch st (mem ! str) cnt = (st1, cnt1)" by fastforce
    have "Suc str \<le> z" using False 1(2-4) by (metis le_neq_implies_less less_eq_Suc_le)
    with 1(1) [OF _ _ _ sw [symmetric] refl] 1(3,4) False obtain st' p cnt' where
      "transition_loop mem (str + 1) st1 cnt1 = Some (st', p, cnt')" "Suc str \<le> p" "p \<le> z"
      by force
    then show ?thesis using False sw 1(2-4) by (subst transition_loop.simps) auto
  qed
qed

lemma scan_loop_returns:
  assumes "z < length mem" "mem ! z = 0"
  shows "p \<le> z \<Longrightarrow> \<exists>r. scan_loop mem p final track = Some r"
proof (induction "z - p" arbitrary: p final track rule: less_induct)
  case less
  show ?case
  proof (cases "mem ! p = 0")
    case True
    then show ?thesis using assms less.prems by (subst scan_loop.simps) simp
  next
    case False
    obtain st p' cnt' where t: "core_state_transition mem p track = Some (st, p', cnt')" and
      p': "p < p'" "p' \<le> z"
      using transition_loop_bounded [OF assms less.prems, of CORE_START track] False
      unfolding core_state_transition_def by auto
    with less.hyps [of p'] show ?thesis using False assms(1) less.prems t
      by (subst scan_loop.simps) simp
  qed
qed

section \<open>Corruption and its undoing\<close>

definition corrupt_byte :: "s16 \<Rightarrow> u8 \<Rightarrow> u8" where
  "corrupt_byte seed c = (if c \<noteq> ch_comma then c XOR ucast seed else c)"

definition corrupted :: "nat \<Rightarrow> s16 \<Rightarrow> u8 list \<Rightarrow> u8 list" where
  "corrupted d seed mem =
     map (\<lambda>i. if i mod d = 0 then corrupt_byte seed (mem ! i) else mem ! i) [0..<length mem]"

lemma length_corrupted [simp]: "length (corrupted d seed mem) = length mem"
  by (simp add: corrupted_def)

lemma nth_corrupted [simp]: "i < length mem \<Longrightarrow>
    corrupted d seed mem ! i = (if i mod d = 0 then corrupt_byte seed (mem ! i) else mem ! i)"
  by (simp add: corrupted_def)

lemma update_if: "(if P then xs[i := v] else xs) = xs[i := if P then v else xs ! i]"
  by simp

lemma corrupt_loop_from:
  assumes "0 < sint step" "d = nat (sint step)"
  shows "\<exists>mem'. corrupt_loop mem (int (k * d)) (int (length mem)) step seed = Some mem' \<and>
    length mem' = length mem \<and>
    (\<forall>i < length mem. mem' ! i = (if k * d \<le> i \<and> i mod d = 0 then corrupt_byte seed (mem ! i) else mem ! i))"
proof (induction "length mem - k * d" arbitrary: k mem rule: less_induct)
  case less
  have d: "0 < d" "int d = sint step" using assms by simp_all
  show ?case
  proof (cases "k * d < length mem")
    case False
    then show ?thesis by (subst corrupt_loop.simps) (auto simp: not_less simp flip: of_nat_mult)
  next
    case True
    let ?mem = "mem[k * d := corrupt_byte seed (mem ! (k * d))]"
    have run: "corrupt_loop mem (int (k * d)) (int (length mem)) step seed =
        corrupt_loop ?mem (int (Suc k * d)) (int (length ?mem)) step seed"
    proof -
      have "int (k * d) + sint step = int (Suc k * d)" using d(2) by simp
      moreover have "(if mem ! nat (int (k * d)) \<noteq> ch_comma
          then mem[nat (int (k * d)) := mem ! nat (int (k * d)) XOR ucast seed] else mem) = ?mem"
        unfolding nat_int corrupt_byte_def by (rule update_if)
      moreover have "int (k * d) < int (length mem)" using True by (simp only: of_nat_less_iff)
      moreover from this have "\<not> (int (k * d) < 0 \<or> int (length mem) \<le> int (k * d))" by linarith
      ultimately show ?thesis
        by (subst corrupt_loop.simps) (simp only: Let_def length_list_update if_True if_False)
    qed
    have "length ?mem - Suc k * d < length mem - k * d" using True d(1) by simp
    from less.hyps [OF this] obtain mem' where
      "corrupt_loop ?mem (int (Suc k * d)) (int (length ?mem)) step seed = Some mem'"
      "length mem' = length mem" and
      nth: "\<And>i. i < length mem \<Longrightarrow> mem' ! i =
        (if Suc k * d \<le> i \<and> i mod d = 0 then corrupt_byte seed (?mem ! i) else ?mem ! i)"
      by auto
    moreover have "mem' ! i = (if k * d \<le> i \<and> i mod d = 0 then corrupt_byte seed (mem ! i) else mem ! i)"
      if "i < length mem" for i
    proof (cases "i = k * d")
      case True
      then show ?thesis using nth [OF that] that d(1) by simp
    next
      case False
      moreover have "Suc k * d \<le> i" if "k * d \<le> i" "i mod d = 0"
      proof -
        from that(2) have "d dvd i" by (rule mod_0_imp_dvd)
        then obtain q where q: "i = q * d" by (auto simp: dvd_def mult.commute)
        with that(1) False have "k < q" by (metis le_neq_implies_less mult_le_cancel2 d(1))
        then show ?thesis using q by (metis Suc_leI mult_le_mono1)
      qed
      ultimately show ?thesis using nth [OF that] by auto
    qed
    ultimately show ?thesis using run by auto
  qed
qed

lemma corrupt_loop_eq:
  assumes "0 < sint step"
  shows "corrupt_loop mem 0 (int (length mem)) step seed = Some (corrupted (nat (sint step)) seed mem)"
proof -
  obtain mem' where "corrupt_loop mem 0 (int (length mem)) step seed = Some mem'"
    "length mem' = length mem"
    "\<forall>i < length mem. mem' ! i = (if i mod nat (sint step) = 0 then corrupt_byte seed (mem ! i) else mem ! i)"
    using corrupt_loop_from [OF assms refl, of mem 0 seed] by auto
  then show ?thesis by (auto simp: list_eq_iff_nth_eq)
qed

text \<open>
  A byte is restored by a second pass with the same seed unless the first pass
  turned it into a comma.
\<close>

lemma corrupted_twice:
  assumes "\<And>i. i < length mem \<Longrightarrow> mem ! i XOR ucast seed \<noteq> ch_comma"
  shows "corrupted d seed (corrupted d seed mem) = mem"
  using assms by (auto simp: list_eq_iff_nth_eq corrupt_byte_def xor.assoc)

lemma zero_survives:
  assumes "2 \<le> d" "2 \<le> n"
  shows "(n - 1) mod d \<noteq> 0 \<or> (n - 2) mod d \<noteq> (0 :: nat)"
proof (rule ccontr)
  assume "\<not> ?thesis"
  then have "d dvd n - 1" "d dvd n - 2" by auto
  then have "d dvd (n - 1) - (n - 2)" by (rule dvd_diff_nat)
  moreover have "(n - 1) - (n - 2) = 1" using assms(2) by simp
  ultimately show False using assms(1) by simp
qed

lemma core_bench_state_result:
  assumes "unat blksize = length mem" "2 \<le> length mem"
    and "mem ! (length mem - 1) = 0" "mem ! (length mem - 2) = 0" "2 \<le> sint step"
  shows "\<exists>crc'. core_bench_state blksize mem seed1 seed2 step crc =
    Some (crc', corrupted (nat (sint step)) seed2 (corrupted (nat (sint step)) seed1 mem))"
proof -
  let ?d = "nat (sint step)" and ?c0 = "\<lambda>_. 0 :: u32"
  let ?mem1 = "corrupted ?d seed1 mem"
  let ?mem2 = "corrupted ?d seed2 ?mem1"
  have blk: "uint blksize = int (length mem)" using assms(1) by (metis of_nat_unat)
  obtain r1 where r1: "scan_loop mem 0 ?c0 ?c0 = Some r1"
    using scan_loop_returns [of "length mem - 1" mem 0 ?c0 ?c0] assms(2,3) by fastforce
  have "2 \<le> ?d" using assms(5) by linarith
  from zero_survives [OF this assms(2)] have "\<exists>z < length mem. ?mem1 ! z = 0"
  proof
    assume "(length mem - 1) mod ?d \<noteq> 0"
    then show ?thesis using assms(2,3) by (intro exI [of _ "length mem - 1"]) simp
  next
    assume "(length mem - 2) mod ?d \<noteq> 0"
    then show ?thesis using assms(2,4) by (intro exI [of _ "length mem - 2"]) simp
  qed
  then obtain z where z: "z < length ?mem1" "?mem1 ! z = 0" by auto
  obtain r2 where r2: "scan_loop ?mem1 0 (fst r1) (snd r1) = Some r2"
    using scan_loop_returns [OF z, of 0] by blast
  have "core_bench_state blksize mem seed1 seed2 step crc = Some
      (fold (\<lambda>st crc. crcu32 (snd r2 st) (crcu32 (fst r2 st) crc)) state_order crc, ?mem2)"
    using assms(5) r1 r2 corrupt_loop_eq [of step ?mem1 seed2]
    by (simp add: core_bench_state_def blk corrupt_loop_eq case_prod_beta)
  then show ?thesis by blast
qed

text \<open>
  C21. \<^verbatim>\<open>core_bench_state\<close> on a block that ends in two zero bytes, with a stride of at
  least two, always returns and never leaves the block, although the corruption
  may overwrite one of the terminators; and with equal seeds it hands the block
  back unchanged, provided no byte was turned into a comma.
\<close>

theorem core_bench_state_safe:
  assumes "unat blksize = length mem" "2 \<le> length mem"
    and "mem ! (length mem - 1) = 0" "mem ! (length mem - 2) = 0" "2 \<le> sint step"
  shows "\<exists>crc' mem'. core_bench_state blksize mem seed1 seed2 step crc = Some (crc', mem') \<and>
    length mem' = length mem \<and>
    (seed1 = seed2 \<and> (\<forall>c \<in> set mem. c XOR ucast seed1 \<noteq> ch_comma) \<longrightarrow> mem' = mem)"
  using core_bench_state_result [OF assms, of seed1 seed2 crc] corrupted_twice [of mem seed1 "nat (sint step)"]
  by fastforce

theorem core_bench_state_safe_witness:
  "\<exists>crc'. core_bench_state 7 (bytes_of ''12,.'' @ [0, 0, 0]) 0x3415 0x3415 0x22 0 =
     Some (crc', bytes_of ''12,.'' @ [0, 0, 0])"
  using core_bench_state_safe [of 7 "bytes_of ''12,.'' @ [0, 0, 0]" "0x22" "0x3415" "0x3415" 0]
  by (auto simp: bytes_of_def nth_append)

text \<open>
  What a run of the benchmark needs of its block and its seeds, and leaves behind:
  two terminators, and seeds that undo each other without making a comma.
\<close>

definition block_ok :: "u32 \<Rightarrow> s16 \<Rightarrow> s16 \<Rightarrow> u8 list \<Rightarrow> bool" where
  "block_ok blksize seed1 seed2 mem \<longleftrightarrow> unat blksize = length mem \<and> 2 \<le> length mem \<and>
     mem ! (length mem - 1) = 0 \<and> mem ! (length mem - 2) = 0 \<and>
     (ucast seed1 :: u8) = ucast seed2 \<and> (ucast seed1 :: u8) \<noteq> ch_comma"

lemma core_bench_state_block:
  assumes "block_ok blksize seed1 seed2 mem" "2 \<le> sint step"
  shows "\<exists>crc' mem'. core_bench_state blksize mem seed1 seed2 step crc = Some (crc', mem') \<and>
    block_ok blksize seed1 seed2 mem'"
proof -
  let ?d = "nat (sint step)"
  let ?mem = "corrupted ?d seed2 (corrupted ?d seed1 mem)"
  have "?mem ! i = 0" if "i < length mem" "mem ! i = 0" for i
    using that assms(1) by (auto simp: corrupt_byte_def block_ok_def)
  then have "block_ok blksize seed1 seed2 ?mem" using assms(1) by (auto simp: block_ok_def)
  then show ?thesis
    using core_bench_state_result [of blksize mem step seed1 seed2 crc] assms by (auto simp: block_ok_def)
qed

text \<open>
  The undoing is not exact: a \<^verbatim>\<open>9\<close> under the standard seed becomes a comma, which
  the second pass skips.
\<close>

theorem corruption_not_undone:
  "\<exists>crc'. core_bench_state 4 [0x39, 0, 0, 0] 0x3415 0x3415 0x22 0 = Some (crc', [ch_comma, 0, 0, 0])"
proof -
  have "corrupted 34 0x3415 (corrupted 34 0x3415 [0x39, 0, 0, 0]) = [ch_comma, 0, 0, 0]"
    by code_simp
  then show ?thesis
    using core_bench_state_result [of 4 "[0x39, 0, 0, 0]" "0x22" "0x3415" "0x3415" 0] by simp
qed

section \<open>The initial block\<close>

definition patterns :: "u8 list set" where
  "patterns = set intpat \<union> set floatpat \<union> set scipat \<union> set errpat"

lemma and_3_less: "unat (w AND 3 :: s16) < 4"
  using take_bit_nat_less_exp [of 2 "unat w"]
  by (simp flip: unsigned_take_bit_eq) (simp add: take_bit_eq_mask mask_eq_exp_minus_1)

lemma pattern_lengths:
  "w \<in> set intpat \<Longrightarrow> length w = 4" "w \<in> set floatpat \<Longrightarrow> length w = 8"
  "w \<in> set scipat \<Longrightarrow> length w = 8" "w \<in> set errpat \<Longrightarrow> length w = 8"
  by (auto simp: intpat_def floatpat_def scipat_def errpat_def bytes_of_def)

lemma pattern_counts: "length intpat = 4" "length floatpat = 4" "length scipat = 4" "length errpat = 4"
  by (simp_all add: intpat_def floatpat_def scipat_def errpat_def)

lemma choose_pattern_ok:
  assumes "choose_pattern seed = (buf, nxt)"
  shows "buf \<in> patterns" "unat nxt = length buf" "4 \<le> length buf" "length buf \<le> 8"
proof -
  let ?i = "unat (signed_drop_bit 3 seed AND 3)"
  have "?i < 4" by (rule and_3_less)
  then have "intpat ! ?i \<in> set intpat" "floatpat ! ?i \<in> set floatpat" "scipat ! ?i \<in> set scipat"
    "errpat ! ?i \<in> set errpat"
    by (simp_all add: nth_mem pattern_counts)
  with assms show "buf \<in> patterns" "unat nxt = length buf" "4 \<le> length buf" "length buf \<le> 8"
    by (auto simp: choose_pattern_def Let_def patterns_def pattern_lengths split: if_splits)
qed

lemma copy_loop_eq:
  "i + n = length buf \<Longrightarrow> at + length buf \<le> length mem \<Longrightarrow>
   copy_loop mem buf at i n = Some (take (at + i) mem @ drop i buf @ drop (at + length buf) mem)"
proof (induction n arbitrary: i mem)
  case (Suc n)
  then have "drop i buf = buf ! i # drop (Suc i) buf" by (simp add: Cons_nth_drop_Suc)
  moreover have "take (Suc (at + i)) (mem[at + i := buf ! i]) = take (at + i) mem @ [buf ! i]"
    using Suc.prems by (simp add: take_Suc_conv_app_nth)
  ultimately show ?case using Suc by (simp add: poke_def)
qed simp

lemma zero_loop_eq:
  "unat tot \<le> unat sz \<Longrightarrow> unat sz = length mem \<Longrightarrow>
   zero_loop sz tot mem = Some (take (unat tot) mem @ replicate (unat sz - unat tot) 0)"
proof (induction "unat sz - unat tot" arbitrary: tot mem)
  case 0
  then show ?case by (subst zero_loop.simps) (simp add: word_less_nat_alt)
next
  case (Suc n)
  then have lt: "tot < sz" by (simp add: word_less_nat_alt)
  then have tot: "unat (tot + 1) = unat tot + 1"
    using unat32_less [of sz] by (simp add: word_less_nat_alt unat_word_ariths)
  let ?mem = "mem[unat tot := 0]"
  have "zero_loop sz (tot + 1) ?mem =
      Some (take (unat tot + 1) ?mem @ replicate (unat sz - (unat tot + 1)) 0)"
    using Suc(1) [of "tot + 1" ?mem] Suc(2-4) tot by simp
  moreover have "take (unat tot + 1) ?mem = take (unat tot) mem @ [0]"
    using Suc(2-4) by (simp add: take_Suc_conv_app_nth)
  moreover have "replicate (unat sz - unat tot) 0 = 0 # replicate (unat sz - (unat tot + 1)) (0 :: u8)"
    using Suc(2) by (metis Suc_diff_Suc Suc_eq_plus1 replicate_Suc zero_less_Suc zero_less_diff)
  ultimately show ?case using lt Suc(2-4) tot
    by (subst zero_loop.simps) (simp add: poke_def word_less_nat_alt)
qed

text \<open>Copying a pattern and its separator.\<close>

lemma copy_token:
  assumes "at + length buf < length mem"
  shows "copy_loop mem buf at 0 (length buf) \<bind> (\<lambda>mem. poke mem (at + length buf) ch_comma) =
    Some (take at mem @ buf @ ch_comma # drop (at + length buf + 1) mem)"
proof -
  have "drop (at + length buf) mem = mem ! (at + length buf) # drop (at + length buf + 1) mem"
    using assms by (simp add: Cons_nth_drop_Suc)
  with assms show ?thesis by (simp add: copy_loop_eq poke_def list_update_append)
qed

definition tokens_text :: "u8 list list \<Rightarrow> u8 list" where
  "tokens_text ws = concat (map (\<lambda>w. w @ [ch_comma]) ws)"

lemma tokens_text_simps [simp]:
  "tokens_text [] = []" "tokens_text (w # ws) = w @ ch_comma # tokens_text ws"
  by (simp_all add: tokens_text_def)

lemma init_loop_tokens:
  assumes "unat sz < length mem" "unat sz \<le> 4294967280"
    and "buf \<in> patterns" "unat nxt = length buf" "4 \<le> length buf" "length buf \<le> 8"
    and "unat tot \<le> unat sz"
  shows "\<exists>ws tot' mem'. init_loop sz mem tot nxt buf seed = Some (tot', mem') \<and> set ws \<subseteq> patterns \<and>
    length mem' = length mem \<and> take (unat tot') mem' = take (unat tot) mem @ tokens_text ws \<and>
    (tot' = tot \<or> unat tot' < unat sz)"
  using assms
proof (induction "unat sz - unat tot" arbitrary: mem tot nxt buf seed rule: less_induct)
  case less
  have add: "unat (tot + nxt + 1) = unat tot + length buf + 1"
    "unat (tot + (nxt + 1)) = unat tot + length buf + 1"
    using less.prems by (simp_all add: unat_word_ariths)
  show ?case
  proof (cases "tot + nxt + 1 < sz")
    case False
    then show ?thesis by (subst init_loop.simps) (auto intro!: exI [of _ "[]"])
  next
    case True
    then have lt: "unat tot + length buf + 1 < unat sz" by (simp add: word_less_nat_alt add)
    let ?mem = "take (unat tot) mem @ buf @ ch_comma # drop (unat tot + length buf + 1) mem"
      and ?tot = "tot + (nxt + 1)"
    obtain buf' nxt' where pat: "choose_pattern (seed + 1) = (buf', nxt')" by fastforce
    obtain mem1 where mem: "copy_loop mem buf (unat tot) 0 (length buf) = Some mem1"
        "poke mem1 (unat tot + length buf) ch_comma = Some ?mem"
      using copy_token [of "unat tot" buf mem] lt less.prems(1) by (auto simp: bind_eq_Some_conv)
    have "0 < nxt" using less.prems(4,5) by (auto simp: word_less_nat_alt)
    with True mem pat have step:
      "init_loop sz mem tot nxt buf seed = init_loop sz ?mem ?tot nxt' buf' (seed + 1)"
      by (subst init_loop.simps) (simp add: less.prems(4))
    have len: "length ?mem = length mem" "take (unat ?tot) ?mem = take (unat tot) mem @ buf @ [ch_comma]"
      using lt less.prems(1) add by simp_all
    have "unat sz - unat ?tot < unat sz - unat tot" using lt add by linarith
    from less.hyps [OF this _ less.prems(2) choose_pattern_ok [OF pat], of ?mem]
    obtain ws tot' mem' where "init_loop sz ?mem ?tot nxt' buf' (seed + 1) = Some (tot', mem')"
      "set ws \<subseteq> patterns" "length mem' = length ?mem"
      "take (unat tot') mem' = take (unat ?tot) ?mem @ tokens_text ws"
      "tot' = ?tot \<or> unat tot' < unat sz"
      using less.prems(1) lt add(2) len(1) by (metis less_imp_le)
    then show ?thesis using step len less.prems(3) lt add(2)
      by (intro exI [of _ "buf # ws"] exI [of _ tot'] exI [of _ mem']) auto
  qed
qed

lemma init_state_block:
  assumes "unat sz = length mem" "4 \<le> length mem" "length mem \<le> 4294967280"
  shows "\<exists>ws k. core_init_state sz seed mem = Some (tokens_text ws @ replicate k 0) \<and>
    set ws \<subseteq> patterns \<and> 2 \<le> k \<and> length (tokens_text ws) + k = length mem"
proof -
  have sz1: "unat (sz - 1) = length mem - 1"
    using assms(1,2) unat_minus_one [of sz] by force
  obtain buf nxt where pat: "choose_pattern (seed + 1) = (buf, nxt)" by fastforce
  have "length mem - 1 < length mem" using assms(2) by simp
  with init_loop_tokens [OF _ _ choose_pattern_ok [OF pat], of "sz - 1" mem 0 "seed + 1"] sz1 assms
  obtain ws tot mem' where loop: "init_loop (sz - 1) mem 0 nxt buf (seed + 1) = Some (tot, mem')"
    and ws: "set ws \<subseteq> patterns" and mem': "length mem' = length mem"
    "take (unat tot) mem' = tokens_text ws" and tot: "tot = 0 \<or> unat tot < length mem - 1"
    by auto
  have "0 + 0 + 1 < sz - 1" using sz1 assms(2) by (simp add: word_less_nat_alt)
  with loop pat have "init_loop (sz - 1) mem 0 0 [] seed = Some (tot, mem')"
    by (subst init_loop.simps) simp
  moreover have "zero_loop sz tot mem' = Some (tokens_text ws @ replicate (unat sz - unat tot) 0)"
    using zero_loop_eq [of tot sz mem'] tot assms(1) mem' by force
  moreover have "length (tokens_text ws) = unat tot"
    using tot assms(2) mem' by (metis length_take min.absorb2 less_imp_le order_trans diff_le_self
        le0 unat_0)
  ultimately show ?thesis using ws tot assms(1,2)
    by (intro exI [of _ ws] exI [of _ "unat sz - unat tot"]) (auto simp: core_init_state_def Let_def)
qed

text \<open>
  C22. \<^verbatim>\<open>core_init_state\<close> fills a block of at least four bytes and never writes outside it:
  the result is a sequence of the table's patterns, each with a comma, padded with
  at least two zero bytes, which is what \<^verbatim>\<open>core_bench_state\<close> needs of it.
\<close>

theorem core_init_state_block:
  assumes "unat sz = length mem" "4 \<le> length mem" "length mem \<le> 4294967280"
  shows "\<exists>ws k. core_init_state sz seed mem = Some (tokens_text ws @ replicate k 0) \<and>
    set ws \<subseteq> patterns \<and> 2 \<le> k \<and> length (tokens_text ws) + k = length mem"
  by (rule init_state_block [OF assms])

theorem core_init_state_block_witness:
  "\<exists>ws k. core_init_state 32 0 (replicate 32 1) = Some (tokens_text ws @ replicate k 0) \<and>
     set ws \<subseteq> patterns \<and> 2 \<le> k \<and> length (tokens_text ws) + k = 32"
  using core_init_state_block [of 32 "replicate 32 1" 0] by simp

end
