(* ===== verification/CoreList.thy ===== *)
theory CoreList
  imports CoreMatrix CoreState
begin

text \<open>
  The list kernel of CoreMark, \<^verbatim>\<open>fpga/coremark/src/core_list_join.c\<close>, with the function
  \<^verbatim>\<open>calc_func\<close> through which sorting runs the other two kernels. Pointers are byte
  addresses, 0 is \<^verbatim>\<open>NULL\<close>; the fields of \<^verbatim>\<open>list_head\<close> and \<^verbatim>\<open>list_data\<close> are maps from
  addresses (a split heap). A null dereference, a signed overflow and a loop that never
  ends are the value \<^const>\<open>None\<close>.
\<close>

section \<open>State\<close>

type_synonym ptr = nat

text \<open>
  \<^verbatim>\<open>core_results\<close>, with the contents of the block behind \<^verbatim>\<open>memblock[3]\<close> in place of that
  pointer, and the four heap fields of the list.
\<close>

record core_results =
  seed1 :: s16
  seed2 :: s16
  seed3 :: s16
  memblock3 :: "u8 list"
  res_size :: u32
  iterations :: u32
  execs :: u32
  res_list :: ptr
  mat :: mat_params
  crc :: u16
  crclist :: u16
  crcmatrix :: u16
  crcstate :: u16
  err :: s16

record cstate =
  nxt :: "ptr \<Rightarrow> ptr"
  inf :: "ptr \<Rightarrow> ptr"
  data16 :: "ptr \<Rightarrow> s16"
  idx :: "ptr \<Rightarrow> s16"
  res :: core_results

text \<open>A \<^verbatim>\<open>list_data\<close> on the stack.\<close>

record list_data =
  ld_data16 :: s16
  ld_idx :: s16

definition deref :: "(ptr \<Rightarrow> 'a) \<Rightarrow> ptr \<Rightarrow> 'a option" where
  "deref f p = (if p = 0 then None else Some (f p))"

definition set_nxt :: "ptr \<Rightarrow> ptr \<Rightarrow> cstate \<Rightarrow> cstate option" where
  "set_nxt p v s = (if p = 0 then None else Some (s\<lparr>nxt := (nxt s)(p := v)\<rparr>))"

definition set_inf :: "ptr \<Rightarrow> ptr \<Rightarrow> cstate \<Rightarrow> cstate option" where
  "set_inf p v s = (if p = 0 then None else Some (s\<lparr>inf := (inf s)(p := v)\<rparr>))"

definition set_data16 :: "ptr \<Rightarrow> s16 \<Rightarrow> cstate \<Rightarrow> cstate option" where
  "set_data16 p v s = (if p = 0 then None else Some (s\<lparr>data16 := (data16 s)(p := v)\<rparr>))"

definition set_idx :: "ptr \<Rightarrow> s16 \<Rightarrow> cstate \<Rightarrow> cstate option" where
  "set_idx p v s = (if p = 0 then None else Some (s\<lparr>idx := (idx s)(p := v)\<rparr>))"

section \<open>The comparison functions\<close>

text \<open>
  \<^verbatim>\<open>calc_func\<close>: bit 7 of the data word marks a cached result in bits 0 to 6; otherwise
  bits 0 to 2 choose the kernel and bits 3 to 6 its argument (\<open>calc_kernel\<close> is the
  \<^verbatim>\<open>switch\<close>).
\<close>

definition calc_dtype :: "s16 \<Rightarrow> s16" where
  "calc_dtype data = (let dtype = signed_drop_bit 3 data AND 0xf in dtype OR push_bit 4 dtype)"

definition calc_kernel :: "s16 \<Rightarrow> core_results \<Rightarrow> (s16 \<times> core_results) option" where
  "calc_kernel data r = do {
     let flag = data AND 0x7;
     let dtype = calc_dtype data;
     if flag = 0 then do {
       let dtype = (if sint dtype < 0x22 then 0x22 else dtype);
       (retval, mem) \<leftarrow> core_bench_state (res_size r) (memblock3 r) (seed1 r) (seed2 r) dtype (crc r);
       let r = r\<lparr>memblock3 := mem\<rparr>;
       Some (retval, if crcstate r = 0 then r\<lparr>crcstate := retval\<rparr> else r)
     }
     else if flag = 1 then do {
       let (retval, m) = core_bench_matrix (mat r) dtype (crc r);
       let r = r\<lparr>mat := m\<rparr>;
       Some (retval, if crcmatrix r = 0 then r\<lparr>crcmatrix := retval\<rparr> else r)
     }
     else Some (data, r)
   }"

definition calc_func :: "ptr \<Rightarrow> cstate \<Rightarrow> (s16 \<times> cstate) option" where
  "calc_func pdata s = do {
     data \<leftarrow> deref (data16 s) pdata;
     if bit data 7 then Some (data AND 0x007f, s)
     else do {
       (retval, r) \<leftarrow> calc_kernel data (res s);
       let r = r\<lparr>crc := crcu16 retval (crc r)\<rparr>;
       let retval = retval AND 0x007f;
       s \<leftarrow> set_data16 pdata ((data AND 0xff00) OR 0x0080 OR retval) (s\<lparr>res := r\<rparr>);
       Some (retval, s)
     }
   }"

definition cmp_complex :: "ptr \<Rightarrow> ptr \<Rightarrow> cstate \<Rightarrow> (s32 \<times> cstate) option" where
  "cmp_complex a b s = do {
     (val1, s) \<leftarrow> calc_func a s;
     (val2, s) \<leftarrow> calc_func b s;
     Some (promote16 val1 - promote16 val2, s)
   }"

definition regen :: "s16 \<Rightarrow> s16" where
  "regen d = (d AND 0xff00) OR (0x00ff AND signed_drop_bit 8 d)"

text \<open>\<^verbatim>\<open>cmp_idx\<close>; the first argument says whether its parameter \<^verbatim>\<open>res\<close> is \<^verbatim>\<open>NULL\<close>.\<close>

definition cmp_idx :: "bool \<Rightarrow> ptr \<Rightarrow> ptr \<Rightarrow> cstate \<Rightarrow> (s32 \<times> cstate) option" where
  "cmp_idx res_null a b s = do {
     s \<leftarrow> (if res_null then do {
             d \<leftarrow> deref (data16 s) a;
             s \<leftarrow> set_data16 a (regen d) s;
             d \<leftarrow> deref (data16 s) b;
             set_data16 b (regen d) s
           } else Some s);
     i \<leftarrow> deref (idx s) a;
     j \<leftarrow> deref (idx s) b;
     Some (promote16 i - promote16 j, s)
   }"

definition copy_info :: "ptr \<Rightarrow> list_data \<Rightarrow> cstate \<Rightarrow> cstate option" where
  "copy_info dst src s = do {
     s \<leftarrow> set_data16 dst (ld_data16 src) s;
     set_idx dst (ld_idx src) s
   }"

section \<open>List operations\<close>

text \<open>\<^verbatim>\<open>list_head\<close> takes 8 bytes and \<^verbatim>\<open>list_data\<close> 4.\<close>

definition core_list_insert_new ::
    "ptr \<Rightarrow> list_data \<Rightarrow> ptr \<Rightarrow> ptr \<Rightarrow> ptr \<Rightarrow> ptr \<Rightarrow> cstate \<Rightarrow> (ptr \<times> ptr \<times> ptr \<times> cstate) option" where
  "core_list_insert_new insert_point info memblock datablock memblock_end datablock_end s =
     (if memblock_end \<le> memblock + 8 then Some (0, memblock, datablock, s)
      else if datablock_end \<le> datablock + 4 then Some (0, memblock, datablock, s)
      else do {
        let newitem = memblock;
        let memblock = memblock + 8;
        n \<leftarrow> deref (nxt s) insert_point;
        s \<leftarrow> set_nxt newitem n s;
        s \<leftarrow> set_nxt insert_point newitem s;
        s \<leftarrow> set_inf newitem datablock s;
        let datablock = datablock + 4;
        i \<leftarrow> deref (inf s) newitem;
        s \<leftarrow> copy_info i info s;
        Some (newitem, memblock, datablock, s)
      })"

definition core_list_remove :: "ptr \<Rightarrow> cstate \<Rightarrow> (ptr \<times> cstate) option" where
  "core_list_remove item s = do {
     ret \<leftarrow> deref (nxt s) item;
     tmp \<leftarrow> deref (inf s) item;
     i \<leftarrow> deref (inf s) ret;
     s \<leftarrow> set_inf item i s;
     s \<leftarrow> set_inf ret tmp s;
     n \<leftarrow> deref (nxt s) item;
     n \<leftarrow> deref (nxt s) n;
     s \<leftarrow> set_nxt item n s;
     s \<leftarrow> set_nxt ret 0 s;
     Some (ret, s)
   }"

definition core_list_undo_remove :: "ptr \<Rightarrow> ptr \<Rightarrow> cstate \<Rightarrow> (ptr \<times> cstate) option" where
  "core_list_undo_remove item_removed item_modified s = do {
     tmp \<leftarrow> deref (inf s) item_removed;
     i \<leftarrow> deref (inf s) item_modified;
     s \<leftarrow> set_inf item_removed i s;
     s \<leftarrow> set_inf item_modified tmp s;
     n \<leftarrow> deref (nxt s) item_modified;
     s \<leftarrow> set_nxt item_removed n s;
     s \<leftarrow> set_nxt item_modified item_removed s;
     Some (item_removed, s)
   }"

partial_function (option) core_list_find :: "ptr \<Rightarrow> list_data \<Rightarrow> cstate \<Rightarrow> ptr option" where
  "core_list_find lst info s =
     (if lst = 0 then Some 0
      else do {
        i \<leftarrow> deref (inf s) lst;
        found \<leftarrow>
          (if 0 \<le> sint (ld_idx info) then do { k \<leftarrow> deref (idx s) i; Some (k = ld_idx info) }
           else do { d \<leftarrow> deref (data16 s) i; Some (d AND 0xff = ld_data16 info) });
        if found then Some lst else core_list_find (nxt s lst) info s
      })"

partial_function (option) reverse_loop :: "ptr \<Rightarrow> ptr \<Rightarrow> cstate \<Rightarrow> (ptr \<times> cstate) option" where
  "reverse_loop lst next s =
     (if lst = 0 then Some (next, s)
      else do {
        let tmp = nxt s lst;
        s \<leftarrow> set_nxt lst next s;
        reverse_loop tmp lst s
      })"

definition core_list_reverse :: "ptr \<Rightarrow> cstate \<Rightarrow> (ptr \<times> cstate) option" where
  "core_list_reverse lst s = reverse_loop lst 0 s"

section \<open>Merge sort\<close>

text \<open>
  The counters \<^verbatim>\<open>psize\<close>, \<^verbatim>\<open>qsize\<close> and \<^verbatim>\<open>i\<close> run between 0 and \<^verbatim>\<open>insize\<close>; \<^verbatim>\<open>insize\<close>
  itself is doubled, with the overflow of a signed 32-bit integer checked.
\<close>

fun step_along :: "cstate \<Rightarrow> nat \<Rightarrow> ptr \<Rightarrow> nat \<Rightarrow> (ptr \<times> nat) option" where
  "step_along s 0 q psize = Some (q, psize)"
| "step_along s (Suc n) q psize = do {
     q \<leftarrow> deref (nxt s) q;
     if q = 0 then Some (q, psize + 1) else step_along s n q (psize + 1)
   }"

text \<open>\<^verbatim>\<open>if (tail) tail->next = e; else list = e; tail = e;\<close>\<close>

definition append_elem :: "ptr \<Rightarrow> ptr \<Rightarrow> ptr \<Rightarrow> cstate \<Rightarrow> (ptr \<times> ptr \<times> cstate) option" where
  "append_elem e lst tail s =
     (if tail \<noteq> 0 then do { s \<leftarrow> set_nxt tail e s; Some (lst, e, s) } else Some (e, e, s))"

text \<open>Which list the next element comes from: \<^const>\<open>True\<close> for \<^verbatim>\<open>p\<close>.\<close>

definition choose_p :: "(ptr \<Rightarrow> ptr \<Rightarrow> cstate \<Rightarrow> (s32 \<times> cstate) option) \<Rightarrow>
    ptr \<Rightarrow> nat \<Rightarrow> ptr \<Rightarrow> nat \<Rightarrow> cstate \<Rightarrow> (bool \<times> cstate) option" where
  "choose_p cmp p psize q qsize s =
     (if psize = 0 then Some (False, s)
      else if qsize = 0 \<or> q = 0 then Some (True, s)
      else do {
        a \<leftarrow> deref (inf s) p;
        b \<leftarrow> deref (inf s) q;
        (c, s) \<leftarrow> cmp a b s;
        Some (sint c \<le> 0, s)
      })"

partial_function (option) merge_loop :: "(ptr \<Rightarrow> ptr \<Rightarrow> cstate \<Rightarrow> (s32 \<times> cstate) option) \<Rightarrow>
    ptr \<Rightarrow> nat \<Rightarrow> ptr \<Rightarrow> nat \<Rightarrow> ptr \<Rightarrow> ptr \<Rightarrow> cstate \<Rightarrow> (ptr \<times> ptr \<times> ptr \<times> cstate) option" where
  "merge_loop cmp p psize q qsize lst tail s =
     (if 0 < psize \<or> (0 < qsize \<and> q \<noteq> 0)
      then do {
        (from_p, s) \<leftarrow> choose_p cmp p psize q qsize s;
        if from_p then do {
          let e = p;
          p \<leftarrow> deref (nxt s) p;
          (lst, tail, s) \<leftarrow> append_elem e lst tail s;
          merge_loop cmp p (psize - 1) q qsize lst tail s
        } else do {
          let e = q;
          q \<leftarrow> deref (nxt s) q;
          (lst, tail, s) \<leftarrow> append_elem e lst tail s;
          merge_loop cmp p psize q (qsize - 1) lst tail s
        }
      }
      else Some (q, lst, tail, s))"

text \<open>One pass: \<^verbatim>\<open>while (p)\<close>. The result has \<^verbatim>\<open>list\<close>, \<^verbatim>\<open>tail\<close> and \<^verbatim>\<open>nmerges\<close>.\<close>

partial_function (option) sort_pass :: "(ptr \<Rightarrow> ptr \<Rightarrow> cstate \<Rightarrow> (s32 \<times> cstate) option) \<Rightarrow>
    nat \<Rightarrow> ptr \<Rightarrow> ptr \<Rightarrow> ptr \<Rightarrow> nat \<Rightarrow> cstate \<Rightarrow> (ptr \<times> ptr \<times> nat \<times> cstate) option" where
  "sort_pass cmp insize p lst tail nmerges s =
     (if p = 0 then Some (lst, tail, nmerges, s)
      else do {
        (q, psize) \<leftarrow> step_along s insize p 0;
        (q, lst, tail, s) \<leftarrow> merge_loop cmp p psize q insize lst tail s;
        sort_pass cmp insize q lst tail (nmerges + 1) s
      })"

partial_function (option) sort_loop :: "(ptr \<Rightarrow> ptr \<Rightarrow> cstate \<Rightarrow> (s32 \<times> cstate) option) \<Rightarrow>
    nat \<Rightarrow> ptr \<Rightarrow> cstate \<Rightarrow> (ptr \<times> cstate) option" where
  "sort_loop cmp insize lst s = do {
     (lst, tail, nmerges, s) \<leftarrow> sort_pass cmp insize lst 0 0 0 s;
     s \<leftarrow> set_nxt tail 0 s;
     if nmerges \<le> 1 then Some (lst, s)
     else if 2147483648 \<le> insize * 2 then None
     else sort_loop cmp (insize * 2) lst s
   }"

definition core_list_mergesort :: "ptr \<Rightarrow> (ptr \<Rightarrow> ptr \<Rightarrow> cstate \<Rightarrow> (s32 \<times> cstate) option) \<Rightarrow>
    cstate \<Rightarrow> (ptr \<times> cstate) option" where
  "core_list_mergesort lst cmp s = sort_loop cmp 1 lst s"

section \<open>Lists in the heap\<close>

text \<open>\<open>path h p xs q\<close>: following \<open>h\<close> from \<open>p\<close> visits the nodes \<open>xs\<close> and then reaches \<open>q\<close>.\<close>

fun path :: "(ptr \<Rightarrow> ptr) \<Rightarrow> ptr \<Rightarrow> ptr list \<Rightarrow> ptr \<Rightarrow> bool" where
  "path h p [] q \<longleftrightarrow> p = q"
| "path h p (x # xs) q \<longleftrightarrow> x = p \<and> p \<noteq> 0 \<and> path h (h p) xs q"

abbreviation is_list :: "(ptr \<Rightarrow> ptr) \<Rightarrow> ptr \<Rightarrow> ptr list \<Rightarrow> bool" where
  "is_list h p xs \<equiv> path h p xs 0"

lemma path_append [heap_simps]: "path h p (xs @ ys) q \<longleftrightarrow> (\<exists>r. path h p xs r \<and> path h r ys q)"
  by (induction xs arbitrary: p) auto

lemma path_upd [heap_simps]: "a \<notin> set xs \<Longrightarrow> path (h(a := b)) p xs q \<longleftrightarrow> path h p xs q"
  by (induction xs arbitrary: p) auto

lemma path_cong: "(\<And>x. x \<in> set xs \<Longrightarrow> h x = h' x) \<Longrightarrow> path h p xs q \<longleftrightarrow> path h' p xs q"
  by (induction xs arbitrary: p) auto

lemma path_nonnull: "path h p xs q \<Longrightarrow> 0 \<notin> set xs"
  by (induction xs arbitrary: p) auto

lemma is_list_0 [simp]: "is_list h 0 xs \<longleftrightarrow> xs = []"
  by (cases xs) auto

lemma is_list_nonnull: "p \<noteq> 0 \<Longrightarrow> is_list h p xs \<longleftrightarrow> (\<exists>ys. xs = p # ys \<and> is_list h (h p) ys)"
  by (cases xs) auto

lemma is_list_unique: "is_list h p xs \<Longrightarrow> is_list h p ys \<Longrightarrow> xs = ys"
  by (induction xs arbitrary: p ys) (auto simp: is_list_nonnull)

lemma is_list_distinct: "is_list h p xs \<Longrightarrow> distinct xs"
proof (induction xs arbitrary: p)
  case (Cons x xs)
  have "x \<notin> set xs"
  proof
    assume "x \<in> set xs"
    then obtain ys zs where xs: "xs = ys @ x # zs" by (meson split_list)
    with Cons.prems have "is_list h x (x # zs)" by (auto simp: heap_simps)
    moreover have "is_list h x (x # xs)" using Cons.prems by auto
    ultimately have "x # zs = x # xs" by (rule is_list_unique)
    then have "length zs = length xs" by simp
    with xs show False by simp
  qed
  with Cons show ?case by auto
qed simp

lemma deref_simps [simp]: "p \<noteq> 0 \<Longrightarrow> deref f p = Some (f p)"
  "p \<noteq> 0 \<Longrightarrow> set_nxt p v s = Some (s\<lparr>nxt := (nxt s)(p := v)\<rparr>)"
  "p \<noteq> 0 \<Longrightarrow> set_inf p v s = Some (s\<lparr>inf := (inf s)(p := v)\<rparr>)"
  "p \<noteq> 0 \<Longrightarrow> set_data16 p w s = Some (s\<lparr>data16 := (data16 s)(p := w)\<rparr>)"
  "p \<noteq> 0 \<Longrightarrow> set_idx p w s = Some (s\<lparr>idx := (idx s)(p := w)\<rparr>)"
  by (simp_all add: deref_def set_nxt_def set_inf_def set_data16_def set_idx_def)

section \<open>Reversal, removal, search\<close>

lemma reverse_loop_list:
  "is_list (nxt s) p xs \<Longrightarrow> is_list (nxt s) r ys \<Longrightarrow> set xs \<inter> set ys = {} \<Longrightarrow>
   \<exists>l s'. reverse_loop p r s = Some (l, s') \<and> is_list (nxt s') l (rev xs @ ys) \<and>
     (\<forall>x. x \<notin> set xs \<longrightarrow> nxt s' x = nxt s x) \<and> s' = s\<lparr>nxt := nxt s'\<rparr>"
proof (induction xs arbitrary: p r s ys)
  case Nil
  then show ?case by (subst reverse_loop.simps) simp
next
  case (Cons x xs)
  then have x: "x = p" "p \<noteq> 0" "is_list (nxt s) (nxt s p) xs" "p \<notin> set xs" "p \<notin> set ys"
    using is_list_distinct [OF Cons.prems(1)] by auto
  let ?s = "s\<lparr>nxt := (nxt s)(p := r)\<rparr>"
  have "\<exists>l s'. reverse_loop (nxt s p) p ?s = Some (l, s') \<and> is_list (nxt s') l (rev xs @ p # ys) \<and>
     (\<forall>x. x \<notin> set xs \<longrightarrow> nxt s' x = nxt ?s x) \<and> s' = ?s\<lparr>nxt := nxt s'\<rparr>"
  proof (rule Cons.IH)
    show "is_list (nxt ?s) (nxt s p) xs" using x by (simp add: path_upd)
    show "is_list (nxt ?s) p (p # ys)" using x Cons.prems by (simp add: path_upd)
  qed (use x Cons.prems in auto)
  then show ?case using x by (subst reverse_loop.simps) (auto simp: Let_def)
qed

lemma reverse_list:
  assumes "is_list (nxt s) l xs"
  shows "\<exists>l' s'. core_list_reverse l s = Some (l', s') \<and> is_list (nxt s') l' (rev xs) \<and>
    (\<forall>x. x \<notin> set xs \<longrightarrow> nxt s' x = nxt s x) \<and> s' = s\<lparr>nxt := nxt s'\<rparr>"
  using reverse_loop_list [OF assms, of 0 "[]"] by (simp add: core_list_reverse_def)

text \<open>
  \<^verbatim>\<open>core_list_reverse\<close> terminates on every null-terminated list and reverses it in
  place: the same nodes in the opposite order, nothing else in memory touched.
\<close>

theorem core_list_reverse_rev:
  assumes "is_list (nxt s) l xs"
  shows "\<exists>l' s'. core_list_reverse l s = Some (l', s') \<and> is_list (nxt s') l' (rev xs) \<and>
    (\<forall>x. x \<notin> set xs \<longrightarrow> nxt s' x = nxt s x) \<and> s' = s\<lparr>nxt := nxt s'\<rparr>"
  by (rule reverse_list [OF assms])

text \<open>Heaps used to run the code on concrete lists.\<close>

definition demo_state :: "ptr list \<Rightarrow> (s16 \<times> s16) list \<Rightarrow> core_results \<Rightarrow> cstate" where
  "demo_state ps ds r =
     \<lparr>nxt = (\<lambda>p. case map_of (zip ps (tl ps)) p of None \<Rightarrow> 0 | Some q \<Rightarrow> q),
      inf = (\<lambda>p. p + 1000),
      data16 = (\<lambda>i. case map_of (zip ps ds) (i - 1000) of None \<Rightarrow> 0 | Some d \<Rightarrow> fst d),
      idx = (\<lambda>i. case map_of (zip ps ds) (i - 1000) of None \<Rightarrow> 0 | Some d \<Rightarrow> snd d),
      res = r\<rparr>"

definition demo_results :: core_results where
  "demo_results = \<lparr>seed1 = 0, seed2 = 0, seed3 = 0, memblock3 = [49, 44, 0, 0], res_size = 4,
     iterations = 1, execs = 7, res_list = 8,
     mat = \<lparr>mat_N = 1, mat_A = 0, mat_B = 2, mat_C = 4, mat_A_data = [1], mat_B_data = [2], mat_C_data = [0]\<rparr>,
     crc = 0, crclist = 0, crcmatrix = 0, crcstate = 0, err = 0\<rparr>"

theorem core_list_reverse_rev_witness:
  "\<exists>l' s'. core_list_reverse 8 (demo_state [8, 16, 24] [] demo_results) = Some (l', s') \<and>
     is_list (nxt s') l' [24, 16, 8]"
  using core_list_reverse_rev [of "demo_state [8, 16, 24] [] demo_results" 8 "[8, 16, 24]"]
  by (auto simp: demo_state_def)

definition removed :: "ptr \<Rightarrow> ptr \<Rightarrow> cstate \<Rightarrow> cstate" where
  "removed x y s =
     s\<lparr>inf := (inf s)(x := inf s y, y := inf s x), nxt := (nxt s)(x := nxt s y, y := 0)\<rparr>"

lemma remove_state:
  assumes "is_list (nxt s) x (x # y # zs)"
  shows "core_list_remove x s = Some (y, removed x y s)"
    and "core_list_undo_remove y x (removed x y s) = Some (y, s)"
proof -
  have n: "x \<noteq> 0" "y \<noteq> 0" "nxt s x = y" "x \<noteq> y"
    using assms is_list_distinct [OF assms] by auto
  show "core_list_remove x s = Some (y, removed x y s)"
    using n by (simp add: core_list_remove_def removed_def fun_upd_twist)
  show "core_list_undo_remove y x (removed x y s) = Some (y, s)"
    using n by (simp add: core_list_undo_remove_def removed_def)
      (auto simp: fun_upd_idem_iff intro!: cstate.equality)
qed

text \<open>
  \<^verbatim>\<open>core_list_remove\<close> takes the data of a cell out of the list: the cell takes over
  its successor's data and the successor is unlinked; \<^verbatim>\<open>core_list_undo_remove\<close> of the
  removed cell restores the memory exactly.
\<close>

theorem core_list_remove_undo:
  assumes "is_list (nxt s) p (x # y # zs)"
  shows "\<exists>s1. core_list_remove x s = Some (y, s1) \<and> is_list (nxt s1) p (x # zs) \<and>
    map (inf s1) (x # zs) = inf s y # map (inf s) zs \<and> inf s1 y = inf s x \<and>
    core_list_undo_remove y x s1 = Some (y, s)"
proof -
  have n: "is_list (nxt s) x (x # y # zs)" "p = x" using assms by auto
  moreover have "is_list (nxt (removed x y s)) p (x # zs)"
    using n is_list_distinct [OF n(1)] by (auto simp: removed_def path_upd)
  ultimately show ?thesis using remove_state [OF n(1)] is_list_distinct [OF n(1)]
    by (intro exI [of _ "removed x y s"]) (auto simp: removed_def)
qed

theorem core_list_remove_undo_witness:
  "\<exists>s1. core_list_remove 16 (demo_state [16, 24] [] demo_results) = Some (24, s1) \<and>
     core_list_undo_remove 24 16 s1 = Some (24, demo_state [16, 24] [] demo_results)"
  using core_list_remove_undo [of "demo_state [16, 24] [] demo_results" 16 16 24 "[]"]
  by (auto simp: demo_state_def)

text \<open>The predicate \<^verbatim>\<open>core_list_find\<close> searches for.\<close>

definition find_match :: "list_data \<Rightarrow> cstate \<Rightarrow> ptr \<Rightarrow> bool" where
  "find_match info s p \<longleftrightarrow>
     (if 0 \<le> sint (ld_idx info) then idx s (inf s p) = ld_idx info
      else data16 s (inf s p) AND 0xff = ld_data16 info)"

lemma core_list_find_eq:
  assumes "is_list (nxt s) p xs" "\<forall>x \<in> set xs. inf s x \<noteq> 0"
  shows "core_list_find p info s = Some (case find (find_match info s) xs of None \<Rightarrow> 0 | Some x \<Rightarrow> x)"
  using assms
proof (induction xs arbitrary: p)
  case Nil
  then show ?case by (subst core_list_find.simps) simp
next
  case (Cons x xs)
  then have "x = p" "p \<noteq> 0" "inf s p \<noteq> 0"
    "core_list_find (nxt s p) info s = Some (case find (find_match info s) xs of None \<Rightarrow> 0 | Some x \<Rightarrow> x)"
    by auto
  then show ?case by (subst core_list_find.simps) (simp add: find_match_def)
qed

text \<open>
  \<^verbatim>\<open>core_list_find\<close> returns the first cell with the index searched for (with the low
  data byte searched for, when the index is negative), and \<^verbatim>\<open>NULL\<close> if there is none.
\<close>

theorem core_list_find_first:
  assumes "is_list (nxt s) p xs" "\<forall>x \<in> set xs. inf s x \<noteq> 0"
  shows "core_list_find p info s = Some (case find (find_match info s) xs of None \<Rightarrow> 0 | Some x \<Rightarrow> x)"
  by (rule core_list_find_eq [OF assms])

theorem core_list_find_first_witness:
  "core_list_find 8 \<lparr>ld_data16 = 0, ld_idx = 5\<rparr> (demo_state [8, 16, 24] [(0, 1), (0, 5), (0, 5)] demo_results) = Some 16"
  using core_list_find_first [of "demo_state [8, 16, 24] [(0, 1), (0, 5), (0, 5)] demo_results" 8
      "[8, 16, 24]" "\<lparr>ld_data16 = 0, ld_idx = 5\<rparr>"]
  by (simp add: demo_state_def find_match_def)

lemma core_list_insert_new_list:
  assumes "is_list (nxt s) p (x # xs)" "memblock \<noteq> 0" "datablock \<noteq> 0" "memblock \<notin> set (x # xs)"
    and "memblock + 8 < memblock_end" "datablock + 4 < datablock_end"
  shows "\<exists>s'. core_list_insert_new x info memblock datablock memblock_end datablock_end s =
      Some (memblock, memblock + 8, datablock + 4, s') \<and>
    is_list (nxt s') p (x # memblock # xs) \<and> inf s' = (inf s)(memblock := datablock) \<and>
    data16 s' = (data16 s)(datablock := ld_data16 info) \<and> idx s' = (idx s)(datablock := ld_idx info) \<and>
    res s' = res s"
proof -
  have n: "x \<noteq> 0" "p = x" "is_list (nxt s) (nxt s x) xs" "x \<notin> set xs" "memblock \<noteq> x" "memblock \<notin> set xs"
    using assms is_list_distinct [OF assms(1)] by auto
  then show ?thesis using assms(2,3,5,6)
    by (simp add: core_list_insert_new_def Let_def copy_info_def path_upd)
qed

end
