(* ===== verification/CoreSort.thy ===== *)
theory CoreSort
  imports CoreList "HOL-Library.Multiset"
begin

text \<open>
  Correctness of \<^verbatim>\<open>core_list_mergesort\<close> (\<^verbatim>\<open>fpga/coremark/src/core_list_join.c\<close>), once for
  every comparison function that keeps the contract \<open>list_cmp\<close>, and its two
  instances \<^verbatim>\<open>cmp_idx\<close> and \<^verbatim>\<open>cmp_complex\<close>. The second one evaluates the keys lazily and
  runs the other kernels while the list is being sorted, so the order is a relation
  on states that may only grow: once two cells have been compared, their order
  stays.
\<close>

section \<open>The output list\<close>

text \<open>The part of the result that has been built: its cells are linked up to \<^verbatim>\<open>tail\<close>.\<close>

definition built :: "(ptr \<Rightarrow> ptr) \<Rightarrow> ptr \<Rightarrow> ptr \<Rightarrow> ptr list \<Rightarrow> bool" where
  "built h lst tail xs \<longleftrightarrow>
     (if xs = [] then lst = 0 \<and> tail = 0
      else tail = last xs \<and> tail \<noteq> 0 \<and> path h lst (butlast xs) tail)"

lemma built_Nil [simp]: "built h 0 0 []"
  by (simp add: built_def)

lemma built_cong: "built h lst tail xs \<Longrightarrow> (\<And>x. x \<in> set xs \<Longrightarrow> h' x = h x) \<Longrightarrow> built h' lst tail xs"
  unfolding built_def by (metis (no_types, lifting) in_set_butlastD path_cong)

lemma append_elem_built:
  assumes "built (nxt s) lst tail xs" "e \<noteq> 0" "distinct xs"
  obtains lst' s' where "append_elem e lst tail s = Some (lst', e, s')"
    "built (nxt s') lst' e (xs @ [e])" "s' = s\<lparr>nxt := nxt s'\<rparr>"
    "\<And>x. x \<notin> set xs \<Longrightarrow> nxt s' x = nxt s x"
proof (cases "xs = []")
  case True
  with assms have "append_elem e lst tail s = Some (e, e, s)"
    by (simp add: built_def append_elem_def)
  then show ?thesis using that assms(2) True by (simp add: built_def)
next
  case False
  with assms have tail: "tail = last xs" "tail \<noteq> 0" "path (nxt s) lst (butlast xs) tail"
    by (auto simp: built_def)
  let ?s = "s\<lparr>nxt := (nxt s)(tail := e)\<rparr>"
  have "tail \<notin> set (butlast xs)"
    using assms(3) False tail(1) by (metis append_butlast_last_id distinct_append disjoint_insert(1) list.simps(15))
  then have "path (nxt ?s) lst (butlast xs) tail" using tail by (simp add: path_upd)
  then have "path (nxt ?s) lst (butlast xs @ [tail]) e" using tail(2) by (auto simp: path_append)
  then have "path (nxt ?s) lst xs e" using False tail(1) by simp
  then have "built (nxt ?s) lst e (xs @ [e])" using assms(2) by (simp add: built_def)
  moreover have "nxt ?s x = nxt s x" if "x \<notin> set xs" for x
    using that tail(1) False by auto
  ultimately show ?thesis using that [of lst ?s] tail(2) by (simp add: append_elem_def)
qed

lemma built_close:
  assumes "built (nxt s) lst tail xs" "xs \<noteq> []" "distinct xs"
  shows "is_list ((nxt s)(tail := 0)) lst xs"
proof -
  have t: "tail = last xs" "tail \<noteq> 0" "path (nxt s) lst (butlast xs) tail"
    using assms(1,2) by (auto simp: built_def)
  have "tail \<notin> set (butlast xs)"
    using assms(2,3) t(1) by (metis append_butlast_last_id distinct_append disjoint_insert(1) list.simps(15))
  then have "path ((nxt s)(tail := 0)) lst (butlast xs @ [tail]) 0" using t by (auto simp: path_append path_upd)
  then show ?thesis using t(1) assms(2) by simp
qed

section \<open>The contract of a comparison function\<close>

locale list_cmp =
  fixes cmp :: "ptr \<Rightarrow> ptr \<Rightarrow> cstate \<Rightarrow> (s32 \<times> cstate) option"
    and le :: "cstate \<Rightarrow> ptr \<Rightarrow> ptr \<Rightarrow> bool"
    and ok :: "cstate \<Rightarrow> bool"
  assumes cmp_returns: "ok s \<Longrightarrow> a \<noteq> 0 \<Longrightarrow> b \<noteq> 0 \<Longrightarrow> \<exists>c s'. cmp a b s = Some (c, s')"
    and cmp_ok: "ok s \<Longrightarrow> cmp a b s = Some (c, s') \<Longrightarrow> ok s'"
    and cmp_frame: "ok s \<Longrightarrow> cmp a b s = Some (c, s') \<Longrightarrow> nxt s' = nxt s \<and> inf s' = inf s"
    and cmp_grows: "ok s \<Longrightarrow> cmp a b s = Some (c, s') \<Longrightarrow> le s x y \<Longrightarrow> le s' x y"
    and cmp_orders: "ok s \<Longrightarrow> cmp a b s = Some (c, s') \<Longrightarrow> if sint c \<le> 0 then le s' a b else le s' b a"
    and le_trans: "le s x y \<Longrightarrow> le s y z \<Longrightarrow> le s x z"
    and ok_nxt: "ok (s\<lparr>nxt := h\<rparr>) = ok s"
    and le_nxt: "le (s\<lparr>nxt := h\<rparr>) = le s"
begin

text \<open>Cells compare by their data; a later state keeps the contract and the order so far.\<close>

definition R :: "cstate \<Rightarrow> ptr \<Rightarrow> ptr \<Rightarrow> bool" where
  "R s x y \<longleftrightarrow> le s (inf s x) (inf s y)"

definition later :: "cstate \<Rightarrow> cstate \<Rightarrow> bool" where
  "later s s' \<longleftrightarrow> (ok s \<longrightarrow> ok s') \<and> inf s' = inf s \<and> (\<forall>x y. le s x y \<longrightarrow> le s' x y)"

lemma later_refl [simp]: "later s s"
  by (simp add: later_def)

lemma later_trans: "later s t \<Longrightarrow> later t u \<Longrightarrow> later s u"
  by (simp add: later_def)

lemma later_nxt: "s' = s\<lparr>nxt := h\<rparr> \<Longrightarrow> later s s'"
  by (simp add: later_def ok_nxt le_nxt)

lemma later_R: "later s s' \<Longrightarrow> R s x y \<Longrightarrow> R s' x y"
  by (simp add: later_def R_def)

lemma later_sorted: "later s s' \<Longrightarrow> sorted_wrt (R s) xs \<Longrightarrow> sorted_wrt (R s') xs"
  by (erule sorted_wrt_mono_rel [rotated]) (simp add: later_R)

lemma R_trans: "R s x y \<Longrightarrow> R s y z \<Longrightarrow> R s x z"
  unfolding R_def by (rule le_trans)

lemma choose_p_spec:
  assumes "ok s" "p \<noteq> 0" "q \<noteq> 0" "inf s p \<noteq> 0" "inf s q \<noteq> 0" "0 < psize" "0 < qsize"
  obtains b s' where "choose_p cmp p psize q qsize s = Some (b, s')" "later s s'" "nxt s' = nxt s"
    "if b then R s' p q else R s' q p"
proof -
  obtain c s' where c: "cmp (inf s p) (inf s q) s = Some (c, s')"
    using cmp_returns [OF assms(1,4,5)] by blast
  have "later s s'" "nxt s' = nxt s"
    using cmp_ok [OF assms(1) c] cmp_frame [OF assms(1) c] cmp_grows [OF assms(1) c]
    by (auto simp: later_def)
  moreover have "if sint c \<le> 0 then R s' p q else R s' q p"
    using cmp_orders [OF assms(1) c] cmp_frame [OF assms(1) c] by (simp add: R_def)
  ultimately show ?thesis using that [of "sint c \<le> 0" s'] assms c by (simp add: choose_p_def)
qed

section \<open>Merging two runs\<close>

text \<open>
  Before an iteration of the merge: \<open>out\<close> is the result so far, \<open>ps\<close> what is left of
  the first run, \<open>qs\<close> what is left of the second and \<open>rest\<close> the cells after it.
\<close>

definition merge_pre :: "cstate \<Rightarrow> ptr list \<Rightarrow> ptr \<Rightarrow> ptr list \<Rightarrow> nat \<Rightarrow> ptr \<Rightarrow> ptr list \<Rightarrow> nat \<Rightarrow> ptr list \<Rightarrow>
    ptr \<Rightarrow> ptr \<Rightarrow> bool" where
  "merge_pre s out p ps psize q qs qsize rest lst tail \<longleftrightarrow>
     ok s \<and> built (nxt s) lst tail out \<and> (\<exists>e. path (nxt s) p ps e) \<and> is_list (nxt s) q (qs @ rest) \<and>
     length ps = psize \<and> length qs \<le> qsize \<and> (length qs < qsize \<longrightarrow> rest = []) \<and>
     distinct (out @ ps @ qs @ rest) \<and> (\<forall>x \<in> set (ps @ qs). inf s x \<noteq> 0) \<and>
     sorted_wrt (R s) ps \<and> sorted_wrt (R s) qs"

definition merge_post :: "cstate \<Rightarrow> ptr list \<Rightarrow> ptr list \<Rightarrow> ptr list \<Rightarrow> ptr list \<Rightarrow>
    (ptr \<times> ptr \<times> ptr \<times> cstate) option \<Rightarrow> bool" where
  "merge_post s out ps qs rest r \<longleftrightarrow> (\<exists>q lst tail s' m. r = Some (q, lst, tail, s') \<and>
     built (nxt s') lst tail (out @ m) \<and> is_list (nxt s') q rest \<and>
     mset m = mset ps + mset qs \<and> sorted_wrt (R s') m \<and> later s s' \<and>
     (\<forall>x. x \<notin> set (out @ ps @ qs) \<longrightarrow> nxt s' x = nxt s x))"

lemma merge_post_Cons:
  assumes "merge_post s' (out @ [e]) ps' qs' rest r" "later s s'"
    and "\<And>x. x \<notin> set (out @ ps @ qs) \<Longrightarrow> nxt s' x = nxt s x"
    and "mset ps + mset qs = add_mset e (mset ps' + mset qs')"
    and "\<And>y. y \<in> set ps' \<union> set qs' \<Longrightarrow> R s' e y"
  shows "merge_post s out ps qs rest r"
proof -
  obtain q lst tail t m where r: "r = Some (q, lst, tail, t)" "built (nxt t) lst tail (out @ e # m)"
    "is_list (nxt t) q rest" "mset m = mset ps' + mset qs'" "sorted_wrt (R t) m" "later s' t"
    and frame: "\<And>x. x \<notin> set (out @ [e] @ ps' @ qs') \<Longrightarrow> nxt t x = nxt s' x"
    using assms(1) by (auto simp: merge_post_def)
  have sets: "set ps \<union> set qs = insert e (set ps' \<union> set qs')"
    using arg_cong [OF assms(4), of set_mset] by simp
  have "set m = set ps' \<union> set qs'" using arg_cong [OF r(4), of set_mset] by simp
  then have "sorted_wrt (R t) (e # m)" using r(5,6) assms(5) later_R by simp
  moreover have "nxt t x = nxt s x" if "x \<notin> set (out @ ps @ qs)" for x
    using frame [of x] assms(3) [OF that] that sets by auto
  ultimately show ?thesis
    unfolding merge_post_def using r(1-4) assms(4) later_trans [OF assms(2) r(6)]
    by (intro exI [of _ q] exI [of _ lst] exI [of _ tail] exI [of _ t] exI [of _ "e # m"] conjI allI impI)
      simp_all
qed

text \<open>Moving the first cell of either run to the result keeps the precondition.\<close>

lemma emit:
  assumes "built (nxt s) lst tail out" "e \<noteq> 0" "distinct out" "later s s1" "nxt s1 = nxt s"
  obtains lst' s2 where "append_elem e lst tail s1 = Some (lst', e, s2)" "built (nxt s2) lst' e (out @ [e])"
    "later s1 s2" "later s s2" "\<And>y. y \<notin> set out \<Longrightarrow> nxt s2 y = nxt s y"
    "\<And>a ys b. set ys \<inter> set out = {} \<Longrightarrow> path (nxt s2) a ys b \<longleftrightarrow> path (nxt s) a ys b"
proof -
  have b: "built (nxt s1) lst tail out" using assms(1,5) by simp
  show ?thesis
  proof (rule append_elem_built [OF b assms(2,3)])
    fix lst' s2
    assume s2: "append_elem e lst tail s1 = Some (lst', e, s2)" "built (nxt s2) lst' e (out @ [e])"
      "s2 = s1\<lparr>nxt := nxt s2\<rparr>" and frame: "\<And>x. x \<notin> set out \<Longrightarrow> nxt s2 x = nxt s1 x"
    have l: "later s1 s2" by (rule later_nxt [OF s2(3)])
    have "path (nxt s2) a ys b \<longleftrightarrow> path (nxt s) a ys b" if "set ys \<inter> set out = {}" for a ys b
      using that frame assms(5) by (intro path_cong) auto
    with that s2 l later_trans [OF assms(4) l] frame assms(5) show ?thesis by simp
  qed
qed

lemma merge_pre_p:
  assumes "merge_pre s out p (x # ps) psize q qs qsize rest lst tail"
    and "later s s1" "nxt s1 = nxt s"
  obtains lst' s2 where "append_elem p lst tail s1 = Some (lst', p, s2)"
    "merge_pre s2 (out @ [p]) (nxt s p) ps (psize - 1) q qs qsize rest lst' p"
    "later s1 s2" "\<And>y. y \<notin> set out \<Longrightarrow> nxt s2 y = nxt s y"
proof -
  have pre: "ok s" "built (nxt s) lst tail out" "x = p" "p \<noteq> 0" "is_list (nxt s) q (qs @ rest)"
      "psize = Suc (length ps)" "length qs \<le> qsize" "length qs < qsize \<longrightarrow> rest = []"
      "distinct (out @ p # ps @ qs @ rest)" "\<forall>x \<in> set (p # ps @ qs). inf s x \<noteq> 0"
      "sorted_wrt (R s) ps" "sorted_wrt (R s) qs" and e: "\<exists>e. path (nxt s) (nxt s p) ps e"
    using assms(1) unfolding merge_pre_def by auto
  obtain lst' s2 where s2: "append_elem p lst tail s1 = Some (lst', p, s2)"
    "built (nxt s2) lst' p (out @ [p])" "later s1 s2" "later s s2"
    and frame: "\<And>y. y \<notin> set out \<Longrightarrow> nxt s2 y = nxt s y"
    and eq: "\<And>a ys b. set ys \<inter> set out = {} \<Longrightarrow> path (nxt s2) a ys b \<longleftrightarrow> path (nxt s) a ys b"
    using emit [OF pre(2,4) _ assms(2,3)] pre(9) by (metis distinct_append)
  have disj: "set ps \<inter> set out = {}" "set (qs @ rest) \<inter> set out = {}" using pre(9) by auto
  have "\<exists>e. path (nxt s2) (nxt s p) ps e" using e eq [OF disj(1)] by blast
  moreover have "is_list (nxt s2) q (qs @ rest)" using pre(5) eq [OF disj(2)] by blast
  ultimately have "merge_pre s2 (out @ [p]) (nxt s p) ps (psize - 1) q qs qsize rest lst' p"
    using pre s2(2,4) later_sorted [OF s2(4)] unfolding merge_pre_def by (simp add: later_def)
  with that s2(1,3) frame show ?thesis by blast
qed

lemma merge_pre_q:
  assumes "merge_pre s out p ps psize q (x # qs) qsize rest lst tail"
    and "later s s1" "nxt s1 = nxt s"
  obtains lst' s2 where "append_elem q lst tail s1 = Some (lst', q, s2)"
    "merge_pre s2 (out @ [q]) p ps psize (nxt s q) qs (qsize - 1) rest lst' q"
    "later s1 s2" "\<And>y. y \<notin> set out \<Longrightarrow> nxt s2 y = nxt s y"
proof -
  have pre: "ok s" "built (nxt s) lst tail out" "x = q" "q \<noteq> 0" "is_list (nxt s) (nxt s q) (qs @ rest)"
      "psize = length ps" "Suc (length qs) \<le> qsize" "Suc (length qs) < qsize \<longrightarrow> rest = []"
      "distinct (out @ ps @ q # qs @ rest)" "\<forall>x \<in> set (ps @ q # qs). inf s x \<noteq> 0"
      "sorted_wrt (R s) ps" "sorted_wrt (R s) qs" and e: "\<exists>e. path (nxt s) p ps e"
    using assms(1) unfolding merge_pre_def by auto
  obtain lst' s2 where s2: "append_elem q lst tail s1 = Some (lst', q, s2)"
    "built (nxt s2) lst' q (out @ [q])" "later s1 s2" "later s s2"
    and frame: "\<And>y. y \<notin> set out \<Longrightarrow> nxt s2 y = nxt s y"
    and eq: "\<And>a ys b. set ys \<inter> set out = {} \<Longrightarrow> path (nxt s2) a ys b \<longleftrightarrow> path (nxt s) a ys b"
    using emit [OF pre(2,4) _ assms(2,3)] pre(9) by (metis distinct_append)
  have disj: "set ps \<inter> set out = {}" "set (qs @ rest) \<inter> set out = {}" using pre(9) by auto
  have "\<exists>e. path (nxt s2) p ps e" using e eq [OF disj(1)] by blast
  moreover have "is_list (nxt s2) (nxt s q) (qs @ rest)" using pre(5) eq [OF disj(2)] by blast
  moreover have "distinct ((out @ [q]) @ ps @ qs @ rest)" using pre(9) by auto
  moreover have "length qs < qsize - 1 \<longrightarrow> rest = []" "length qs \<le> qsize - 1" using pre(7,8) by auto
  ultimately have "merge_pre s2 (out @ [q]) p ps psize (nxt s q) qs (qsize - 1) rest lst' q"
    using pre(1,6,10-12) s2(2,4) later_sorted [OF s2(4)] unfolding merge_pre_def by (simp add: later_def)
  with that s2(1,3) frame show ?thesis by blast
qed

lemma merge_loop_p:
  assumes "p \<noteq> 0" "choose_p cmp p psize q qsize s = Some (True, s1)" "nxt s1 = nxt s"
    and "append_elem p lst tail s1 = Some (lst', p, s2)" "0 < psize \<or> 0 < qsize \<and> q \<noteq> 0"
  shows "merge_loop cmp p psize q qsize lst tail s = merge_loop cmp (nxt s p) (psize - 1) q qsize lst' p s2"
  using assms by (subst merge_loop.simps) simp

lemma merge_loop_q:
  assumes "q \<noteq> 0" "choose_p cmp p psize q qsize s = Some (False, s1)" "nxt s1 = nxt s"
    and "append_elem q lst tail s1 = Some (lst', q, s2)" "0 < psize \<or> 0 < qsize \<and> q \<noteq> 0"
  shows "merge_loop cmp p psize q qsize lst tail s = merge_loop cmp p psize (nxt s q) (qsize - 1) lst' q s2"
  using assms by (subst merge_loop.simps) simp

text \<open>Which run is chosen, and that the chosen cell comes before all that is left.\<close>

lemma choose_p_cases:
  assumes "merge_pre s out p ps psize q qs qsize rest lst tail" "ps \<noteq> [] \<or> qs \<noteq> []"
  obtains (P) ps' s1 where "ps = p # ps'" "p \<noteq> 0" "choose_p cmp p psize q qsize s = Some (True, s1)"
      "later s s1" "nxt s1 = nxt s" "\<And>y. y \<in> set ps' \<union> set qs \<Longrightarrow> R s1 p y"
    | (Q) qs' s1 where "qs = q # qs'" "q \<noteq> 0" "choose_p cmp p psize q qsize s = Some (False, s1)"
      "later s s1" "nxt s1 = nxt s" "\<And>y. y \<in> set ps \<union> set qs' \<Longrightarrow> R s1 q y"
proof (cases ps)
  case Nil
  then obtain qs' where q: "qs = q # qs'" "q \<noteq> 0" using assms by (cases qs) (auto simp: merge_pre_def)
  have "choose_p cmp p psize q qsize s = Some (False, s)"
    using assms(1) Nil by (simp add: choose_p_def merge_pre_def)
  then show ?thesis using Q [of qs' s] q assms(1) Nil by (simp add: merge_pre_def)
next
  case (Cons x ps')
  then have p: "ps = p # ps'" "p \<noteq> 0" "0 < psize" using assms by (auto simp: merge_pre_def)
  show ?thesis
  proof (cases qs)
    case Nil
    then have "qsize = 0 \<or> q = 0" using assms(1) by (auto simp: merge_pre_def)
    then have "choose_p cmp p psize q qsize s = Some (True, s)" using p(3) by (auto simp: choose_p_def)
    then show ?thesis using P [of ps' s] p assms(1) Nil by (simp add: merge_pre_def)
  next
    case (Cons y qs')
    then have q: "qs = q # qs'" "q \<noteq> 0" "0 < qsize" using assms(1) by (auto simp: merge_pre_def)
    have ok: "ok s" "inf s p \<noteq> 0" "inf s q \<noteq> 0"
      and sorted: "\<And>y. y \<in> set ps' \<Longrightarrow> R s p y" "\<And>y. y \<in> set qs' \<Longrightarrow> R s q y"
      using assms(1) p(1) q(1) by (auto simp: merge_pre_def)
    obtain b s1 where c: "choose_p cmp p psize q qsize s = Some (b, s1)" "later s s1" "nxt s1 = nxt s"
      "if b then R s1 p q else R s1 q p"
      using choose_p_spec [OF ok(1) p(2) q(2) ok(2,3) p(3) q(3)] by blast
    have s: "\<And>y. y \<in> set ps' \<Longrightarrow> R s1 p y" "\<And>y. y \<in> set qs' \<Longrightarrow> R s1 q y"
      using sorted later_R [OF c(2)] by blast+
    show ?thesis
    proof (cases b)
      case True
      with c(4) s(2) have "R s1 p y" if "y \<in> set qs" for y using that q(1) R_trans by (cases "y = q") auto
      moreover have "choose_p cmp p psize q qsize s = Some (True, s1)" using True c(1) by simp
      ultimately show ?thesis using P [OF p(1,2) _ c(2,3)] s(1) by blast
    next
      case False
      with c(4) s(1) have "R s1 q y" if "y \<in> set ps" for y using that p(1) R_trans by (cases "y = p") auto
      moreover have "choose_p cmp p psize q qsize s = Some (False, s1)" using False c(1) by simp
      ultimately show ?thesis using Q [OF q(1,2) _ c(2,3)] s(2) by blast
    qed
  qed
qed

lemma merge_loop_spec:
  "merge_pre s out p ps psize q qs qsize rest lst tail \<Longrightarrow>
   merge_post s out ps qs rest (merge_loop cmp p psize q qsize lst tail s)"
proof (induction "length ps + length qs" arbitrary: s out p ps psize q qs qsize lst tail)
  case 0
  then have "\<not> (0 < psize \<or> 0 < qsize \<and> q \<noteq> 0)" by (auto simp: merge_pre_def)
  then have "merge_loop cmp p psize q qsize lst tail s = Some (q, lst, tail, s)"
    by (subst merge_loop.simps) (simp only: if_False)
  with 0 show ?case
    by (auto simp: merge_pre_def merge_post_def)
next
  case (Suc n)
  then have "ps \<noteq> [] \<or> qs \<noteq> []" by auto
  then have guard: "0 < psize \<or> 0 < qsize \<and> q \<noteq> 0" using Suc.prems by (auto simp: merge_pre_def)
  from Suc.prems \<open>ps \<noteq> [] \<or> qs \<noteq> []\<close> show ?case
  proof (cases rule: choose_p_cases)
    case (P ps' s1)
    obtain lst' s2 where s2: "append_elem p lst tail s1 = Some (lst', p, s2)"
      "merge_pre s2 (out @ [p]) (nxt s p) ps' (psize - 1) q qs qsize rest lst' p"
      "later s1 s2" and frame: "\<And>y. y \<notin> set out \<Longrightarrow> nxt s2 y = nxt s y"
      using merge_pre_p [OF Suc.prems [unfolded P(1)] P(4,5)] by blast
    have "merge_post s2 (out @ [p]) ps' qs rest (merge_loop cmp (nxt s p) (psize - 1) q qsize lst' p s2)"
      using Suc.hyps(2) P(1) by (intro Suc.hyps(1) [OF _ s2(2)]) simp
    then show ?thesis
      unfolding merge_loop_p [OF P(2,3,5) s2(1) guard]
      using P(1,6) later_trans [OF P(4) s2(3)] later_R [OF s2(3)] frame
      by (elim merge_post_Cons) auto
  next
    case (Q qs' s1)
    obtain lst' s2 where s2: "append_elem q lst tail s1 = Some (lst', q, s2)"
      "merge_pre s2 (out @ [q]) p ps psize (nxt s q) qs' (qsize - 1) rest lst' q"
      "later s1 s2" and frame: "\<And>y. y \<notin> set out \<Longrightarrow> nxt s2 y = nxt s y"
      using merge_pre_q [OF Suc.prems [unfolded Q(1)] Q(4,5)] by blast
    have "merge_post s2 (out @ [q]) ps qs' rest (merge_loop cmp p psize (nxt s q) (qsize - 1) lst' q s2)"
      using Suc.hyps(2) Q(1) by (intro Suc.hyps(1) [OF _ s2(2)]) simp
    then show ?thesis
      unfolding merge_loop_q [OF Q(2,3,5) s2(1) guard]
      using Q(1,6) later_trans [OF Q(4) s2(3)] later_R [OF s2(3)] frame
      by (elim merge_post_Cons) auto
  qed
qed

section \<open>A pass over the list\<close>

text \<open>A list cut into blocks of \<open>k\<close> cells, the last one possibly shorter, each sorted.\<close>

definition runs :: "cstate \<Rightarrow> nat \<Rightarrow> ptr list \<Rightarrow> bool" where
  "runs s k xs \<longleftrightarrow> (\<forall>i. sorted_wrt (R s) (take k (drop (i * k) xs)))"

lemma runs_Nil [simp]: "runs s k []"
  by (simp add: runs_def)

lemma runs_later: "later s s' \<Longrightarrow> runs s k xs \<Longrightarrow> runs s' k xs"
  unfolding runs_def using later_sorted by blast

lemma runs_first: "runs s k xs \<Longrightarrow> sorted_wrt (R s) (take k xs)"
  unfolding runs_def by (metis drop0 mult_0)

lemma runs_drop: "runs s k xs \<Longrightarrow> runs s k (drop (j * k) xs)"
  unfolding runs_def by (metis add_mult_distrib drop_drop)

lemma runs_1: "runs s 1 xs"
proof -
  have "sorted_wrt (R s) (take 1 ys)" for ys by (cases ys) simp_all
  then show ?thesis by (simp add: runs_def)
qed

lemma runs_single: "sorted_wrt (R s) xs \<Longrightarrow> runs s k xs"
  unfolding runs_def by (simp add: sorted_wrt_drop sorted_wrt_take)

lemma runs_append:
  assumes "k dvd length xs" "runs s k xs" "runs s k ys" "0 < k"
  shows "runs s k (xs @ ys)"
  unfolding runs_def
proof
  fix i
  obtain n where n: "length xs = n * k" using assms(1) by (auto simp: dvd_def mult.commute)
  show "sorted_wrt (R s) (take k (drop (i * k) (xs @ ys)))"
  proof (cases "i < n")
    case True
    then have "Suc i * k \<le> n * k" by (intro mult_le_mono1) simp
    then have "take k (drop (i * k) (xs @ ys)) = take k (drop (i * k) xs)" using n by simp
    then show ?thesis using assms(2) unfolding runs_def by metis
  next
    case False
    then have "i * k - length xs = (i - n) * k" "length xs \<le> i * k" using n by (simp_all add: diff_mult_distrib)
    then show ?thesis using assms(3) unfolding runs_def by simp
  qed
qed

lemma step_along_path:
  "is_list (nxt s) q ys \<Longrightarrow> ys \<noteq> [] \<Longrightarrow> 0 < n \<Longrightarrow>
   \<exists>q'. step_along s n q psize = Some (q', psize + min n (length ys)) \<and>
     path (nxt s) q (take n ys) q' \<and> is_list (nxt s) q' (drop n ys)"
proof (induction n arbitrary: q ys psize)
  case (Suc n)
  then obtain zs where ys: "ys = q # zs" "q \<noteq> 0" "is_list (nxt s) (nxt s q) zs" by (cases ys) auto
  show ?case
  proof (cases "zs = [] \<or> n = 0")
    case True
    then show ?thesis using ys by (cases "zs = []") auto
  next
    case False
    then have "nxt s q \<noteq> 0" using ys(3) by (cases zs) auto
    with Suc.IH [OF ys(3), of "psize + 1"] False ys show ?thesis by auto
  qed
qed simp

text \<open>
  One round of a pass: the first two runs of what is left are merged and appended.
\<close>

lemma merge_round:
  assumes "ok s" "built (nxt s) lst tail out" "is_list (nxt s) p ys" "ys \<noteq> []" "distinct (out @ ys)"
    and "\<forall>x \<in> set ys. inf s x \<noteq> 0" "runs s k ys" "0 < k"
  obtains q psize q' lst' tail' s' m where "step_along s k p 0 = Some (q, psize)"
    "merge_loop cmp p psize q k lst tail s = Some (q', lst', tail', s')"
    "built (nxt s') lst' tail' (out @ m)" "is_list (nxt s') q' (drop (2 * k) ys)"
    "mset m = mset (take (2 * k) ys)" "sorted_wrt (R s') m" "later s s'"
    "\<And>x. x \<notin> set (out @ take (2 * k) ys) \<Longrightarrow> nxt s' x = nxt s x"
proof -
  let ?ps = "take k ys" and ?qs = "take k (drop k ys)" and ?rest = "drop (2 * k) ys"
  obtain q where q: "step_along s k p 0 = Some (q, min k (length ys))" "path (nxt s) p ?ps q"
    "is_list (nxt s) q (drop k ys)"
    using step_along_path [OF assms(3,4,8), of 0] by auto
  have split: "drop k ys = ?qs @ ?rest" "take (2 * k) ys = ?ps @ ?qs" "ys = ?ps @ ?qs @ ?rest"
    by (simp_all add: mult_2 take_add flip: drop_drop)
  have "distinct (out @ ?ps @ ?qs @ ?rest)" using assms(5) split(3) by metis
  moreover have "\<forall>x \<in> set (?ps @ ?qs). inf s x \<noteq> 0"
    using assms(6) by (metis in_set_takeD split(2))
  moreover have "sorted_wrt (R s) ?ps" "sorted_wrt (R s) ?qs"
    using runs_first [OF assms(7)] runs_first [OF runs_drop [OF assms(7), of 1]] by simp_all
  ultimately have "merge_pre s out p ?ps (min k (length ys)) q ?qs k ?rest lst tail"
    using assms(1,2) q split(1) unfolding merge_pre_def by (auto simp: min.commute)
  from merge_loop_spec [OF this] obtain q' lst' tail' s' m where
    "merge_loop cmp p (min k (length ys)) q k lst tail s = Some (q', lst', tail', s')"
    "built (nxt s') lst' tail' (out @ m)" "is_list (nxt s') q' ?rest" "mset m = mset ?ps + mset ?qs"
    "sorted_wrt (R s') m" "later s s'" "\<And>x. x \<notin> set (out @ ?ps @ ?qs) \<Longrightarrow> nxt s' x = nxt s x"
    unfolding merge_post_def by blast
  with that [OF q(1)] split(2) show ?thesis by (metis mset_append)
qed

definition pass_post :: "cstate \<Rightarrow> nat \<Rightarrow> ptr list \<Rightarrow> ptr list \<Rightarrow> nat \<Rightarrow> (ptr \<times> ptr \<times> nat \<times> cstate) option \<Rightarrow> bool" where
  "pass_post s k out ys nm r \<longleftrightarrow> (\<exists>lst tail nm' s' zs. r = Some (lst, tail, nm', s') \<and>
     built (nxt s') lst tail zs \<and> mset zs = mset (out @ ys) \<and> runs s' (2 * k) zs \<and> later s s' \<and>
     (\<forall>x. x \<notin> set (out @ ys) \<longrightarrow> nxt s' x = nxt s x) \<and>
     nm \<le> nm' \<and> (nm' = nm \<longleftrightarrow> ys = []) \<and> (nm' \<le> nm + 1 \<longleftrightarrow> length ys \<le> 2 * k))"

lemma sort_pass_spec:
  "ok s \<Longrightarrow> built (nxt s) lst tail out \<Longrightarrow> is_list (nxt s) p ys \<Longrightarrow> distinct (out @ ys) \<Longrightarrow>
   \<forall>x \<in> set ys. inf s x \<noteq> 0 \<Longrightarrow> runs s k ys \<Longrightarrow> 0 < k \<Longrightarrow> runs s (2 * k) out \<Longrightarrow>
   ys \<noteq> [] \<longrightarrow> 2 * k dvd length out \<Longrightarrow>
   pass_post s k out ys nm (sort_pass cmp k p lst tail nm s)"
proof (induction "length ys" arbitrary: s lst tail out p ys nm rule: less_induct)
  case less
  note pr = less.prems
  show ?case
  proof (cases "ys = []")
    case True
    then show ?thesis using pr
      by (subst sort_pass.simps) (auto simp: pass_post_def intro!: exI [of _ out])
  next
    case False
    then have p: "p \<noteq> 0" using pr(3) by (cases ys) auto
    obtain q psize q' lst' tail' s' m where run: "step_along s k p 0 = Some (q, psize)"
      "merge_loop cmp p psize q k lst tail s = Some (q', lst', tail', s')"
      and post: "built (nxt s') lst' tail' (out @ m)" "is_list (nxt s') q' (drop (2 * k) ys)"
        "mset m = mset (take (2 * k) ys)" "sorted_wrt (R s') m" "later s s'"
      and frame: "\<And>x. x \<notin> set (out @ take (2 * k) ys) \<Longrightarrow> nxt s' x = nxt s x"
      using merge_round [OF pr(1-3) False pr(4-7)] by metis
    let ?ys = "drop (2 * k) ys"
    have len: "length m = min (2 * k) (length ys)" using arg_cong [OF post(3), of size] by simp
    have setm: "set m = set (take (2 * k) ys)" using arg_cong [OF post(3), of set_mset] by simp
    have msets: "mset ((out @ m) @ ?ys) = mset (out @ ys)"
      using post(3) by (metis append_take_drop_id append.assoc mset_append)
    have "pass_post s' k (out @ m) ?ys (nm + 1) (sort_pass cmp k q' lst' tail' (nm + 1) s')"
    proof (rule less.hyps [OF _ _ post(1,2)])
      show "length ?ys < length ys" using False pr(7) by simp
      show "ok s'" "\<forall>x \<in> set ?ys. inf s' x \<noteq> 0"
        using post(5) pr(1,5) by (auto simp: later_def dest: in_set_dropD)
      show "distinct ((out @ m) @ ?ys)" using msets pr(4) mset_eq_imp_distinct_iff by blast
      show "runs s' k ?ys" using runs_later [OF post(5) runs_drop [OF pr(6), of 2]] .
      show "runs s' (2 * k) (out @ m)"
        using runs_later [OF post(5) pr(8)] runs_single [OF post(4)] pr(7,9) False
        by (intro runs_append) auto
      show "?ys \<noteq> [] \<longrightarrow> 2 * k dvd length (out @ m)" using len pr(9) False by (simp add: dvd_add)
    qed (rule pr(7))
    then obtain lst2 tail2 nm' s2 zs where
      r: "sort_pass cmp k q' lst' tail' (nm + 1) s' = Some (lst2, tail2, nm', s2)"
        "built (nxt s2) lst2 tail2 zs" "mset zs = mset ((out @ m) @ ?ys)" "runs s2 (2 * k) zs" "later s' s2"
        "nm + 1 \<le> nm'" "nm' = nm + 1 \<longleftrightarrow> ?ys = []"
      and frame2: "\<And>x. x \<notin> set ((out @ m) @ ?ys) \<Longrightarrow> nxt s2 x = nxt s' x"
      unfolding pass_post_def by blast
    have "sort_pass cmp k p lst tail nm s = Some (lst2, tail2, nm', s2)"
      using p run r(1) by (subst sort_pass.simps) simp
    moreover have "nxt s2 x = nxt s x" if "x \<notin> set (out @ ys)" for x
    proof -
      have "x \<notin> set ((out @ m) @ ?ys)" using that arg_cong [OF msets, of set_mset] by simp
      moreover have "x \<notin> set (out @ take (2 * k) ys)" using that by (auto dest: in_set_takeD)
      ultimately show ?thesis using frame frame2 by metis
    qed
    moreover have "mset zs = mset (out @ ys)" using r(3) msets by simp
    moreover have "nm' \<le> nm + 1 \<longleftrightarrow> length ys \<le> 2 * k" using r(6,7) by auto
    ultimately show ?thesis
      unfolding pass_post_def using r(2,4,6) later_trans [OF post(5) r(5)] False
      by (intro exI [of _ lst2] exI [of _ tail2] exI [of _ nm'] exI [of _ s2] exI [of _ zs]) auto
  qed
qed

section \<open>The whole sort\<close>

lemma sort_loop_spec:
  "ok s \<Longrightarrow> is_list (nxt s) l xs \<Longrightarrow> xs \<noteq> [] \<Longrightarrow> \<forall>x \<in> set xs. inf s x \<noteq> 0 \<Longrightarrow> runs s k xs \<Longrightarrow> 0 < k \<Longrightarrow>
   length xs < 2147483648 \<Longrightarrow>
   \<exists>l' s' ys. sort_loop cmp k l s = Some (l', s') \<and> is_list (nxt s') l' ys \<and> mset ys = mset xs \<and>
     sorted_wrt (R s') ys \<and> later s s' \<and> (\<forall>x. x \<notin> set xs \<longrightarrow> nxt s' x = nxt s x)"
proof (induction "length xs - k" arbitrary: s l xs k rule: less_induct)
  case less
  note pr = less.prems
  have "pass_post s k [] xs 0 (sort_pass cmp k l 0 0 0 s)"
    using pr is_list_distinct [OF pr(2)] by (intro sort_pass_spec) auto
  then obtain lst tail nm s1 zs where
    pass: "sort_pass cmp k l 0 0 0 s = Some (lst, tail, nm, s1)" and
    z: "built (nxt s1) lst tail zs" "mset zs = mset xs" "runs s1 (2 * k) zs" "later s s1"
      "nm \<le> 1 \<longleftrightarrow> length xs \<le> 2 * k"
    and frame: "\<And>x. x \<notin> set xs \<Longrightarrow> nxt s1 x = nxt s x"
    unfolding pass_post_def by auto
  have len: "length zs = length xs" by (rule mset_eq_length [OF z(2)])
  have "zs \<noteq> []" using pr(3) len by (cases zs) auto
  moreover have "set zs = set xs" by (rule mset_eq_setD [OF z(2)])
  moreover have "distinct zs" using mset_eq_imp_distinct_iff [OF z(2)] is_list_distinct [OF pr(2)] by blast
  ultimately have zs: "zs \<noteq> []" "set zs = set xs" "length zs = length xs" "distinct zs" using len by blast+
  have "tail = last zs" "tail \<noteq> 0" using z(1) zs(1) unfolding built_def by metis+
  then have tail: "tail \<noteq> 0" "tail \<in> set xs" using zs(1,2) last_in_set by blast+
  let ?s = "s1\<lparr>nxt := (nxt s1)(tail := 0)\<rparr>"
  have s: "later s ?s" "is_list (nxt ?s) lst zs" "runs ?s (2 * k) zs"
    using later_trans [OF z(4) later_nxt [OF refl]] built_close [OF z(1) zs(1,4)]
      runs_later [OF later_nxt [OF refl] z(3)] by simp_all
  have frame': "nxt ?s x = nxt s x" if "x \<notin> set xs" for x using frame [OF that] that tail(2) by auto
  show ?case
  proof (cases "nm \<le> 1")
    case True
    then have "sort_loop cmp k l s = Some (lst, ?s)"
      using pass tail(1) by (subst sort_loop.simps) simp
    moreover have "sorted_wrt (R ?s) zs" using runs_first [OF s(3)] True z(5) zs(3) by simp
    ultimately show ?thesis using s(1,2) z(2) frame' by blast
  next
    case False
    then have len: "2 * k < length zs" using z(5) zs(3) by simp
    then have loop: "sort_loop cmp k l s = sort_loop cmp (k * 2) lst ?s"
      using pass tail(1) False pr(7) zs(3) by (subst sort_loop.simps) simp
    have "\<exists>l' s' ys. sort_loop cmp (k * 2) lst ?s = Some (l', s') \<and> is_list (nxt s') l' ys \<and>
       mset ys = mset zs \<and> sorted_wrt (R s') ys \<and> later ?s s' \<and> (\<forall>x. x \<notin> set zs \<longrightarrow> nxt s' x = nxt ?s x)"
    proof (rule less.hyps)
      show "length zs - k * 2 < length xs - k" using len zs(3) pr(6) by simp
      show "ok ?s" "\<forall>x \<in> set zs. inf ?s x \<noteq> 0" using s(1) pr(1,4) zs(2) by (auto simp: later_def)
    qed (use s zs pr in \<open>auto simp: mult.commute\<close>)
    then show ?thesis
      unfolding loop using later_trans [OF s(1)] z(2) zs(2) frame' by metis
  qed
qed

lemma mergesort:
  assumes "ok s" "is_list (nxt s) l xs" "xs \<noteq> []" "\<forall>x \<in> set xs. inf s x \<noteq> 0" "length xs < 2147483648"
  shows "\<exists>l' s' ys. core_list_mergesort l cmp s = Some (l', s') \<and> is_list (nxt s') l' ys \<and> mset ys = mset xs \<and>
    sorted_wrt (\<lambda>x y. le s' (inf s x) (inf s y)) ys \<and> ok s' \<and> inf s' = inf s \<and>
    (\<forall>x. x \<notin> set xs \<longrightarrow> nxt s' x = nxt s x)"
  using sort_loop_spec [OF assms(1-4) runs_1 _ assms(5)] assms(1)
  unfolding core_list_mergesort_def later_def R_def by fastforce

end

section \<open>Sorting by index\<close>

lemma s16_bounds: "- 32768 \<le> sint a" "sint a \<le> 32767" for a :: s16
  using sint_greater_eq [of a] sint_less [of a] by simp_all

lemma sint_promote_diff: "sint (promote16 a - promote16 b) = sint a - sint b"
proof -
  have "promote16 a - promote16 b = word_of_int (sint a - sint b)"
    unfolding scast_eq by (simp only: wi_hom_syms)
  then show ?thesis using s16_bounds [of a] s16_bounds [of b] by (simp only:) (rule sint_of_int32; linarith)
qed

lemma regen_idem [simp]: "regen (regen d) = regen d"
  by (simp add: regen_def word_eq_bits bit_eval bit_simps)

text \<open>
  The order and the invariant of \<^verbatim>\<open>cmp_idx\<close> called with a null \<^verbatim>\<open>res\<close>: the indices never
  change, and the data of a cell that was compared has been rebuilt.
\<close>

definition idx_le :: "(ptr \<Rightarrow> s16) \<Rightarrow> (ptr \<Rightarrow> s16) \<Rightarrow> cstate \<Rightarrow> ptr \<Rightarrow> ptr \<Rightarrow> bool" where
  "idx_le i0 d0 s a b \<longleftrightarrow>
     sint (i0 a) \<le> sint (i0 b) \<and> data16 s a = regen (d0 a) \<and> data16 s b = regen (d0 b)"

definition idx_ok :: "(ptr \<Rightarrow> s16) \<Rightarrow> (ptr \<Rightarrow> s16) \<Rightarrow> core_results \<Rightarrow> cstate \<Rightarrow> bool" where
  "idx_ok i0 d0 r s \<longleftrightarrow> idx s = i0 \<and> res s = r \<and> (\<forall>a. regen (data16 s a) = regen (d0 a))"

lemma cmp_idx_run:
  "a \<noteq> 0 \<Longrightarrow> b \<noteq> 0 \<Longrightarrow> cmp_idx True a b s =
     (let s' = s\<lparr>data16 := (data16 s)(a := regen (data16 s a),
                                       b := regen (((data16 s)(a := regen (data16 s a))) b))\<rparr>
      in Some (promote16 (idx s a) - promote16 (idx s b), s'))"
  by (simp add: cmp_idx_def Let_def)

lemma cmp_idx_null: "cmp_idx True a b s = Some (c, s') \<Longrightarrow> a \<noteq> 0 \<and> b \<noteq> 0"
  by (auto simp: cmp_idx_def deref_def bind_eq_Some_conv split: if_splits)

lemma list_cmp_idx: "list_cmp (cmp_idx True) (idx_le i0 d0) (idx_ok i0 d0 r)"
proof (unfold_locales, goal_cases)
  case (1 s a b)
  then show ?case by (simp add: cmp_idx_run Let_def)
next
  case (2 s a b c s')
  then show ?case using cmp_idx_null [OF 2(2)] by (auto simp: cmp_idx_run Let_def idx_ok_def)
next
  case (3 s a b c s')
  then show ?case using cmp_idx_null [OF 3(2)] by (auto simp: cmp_idx_run Let_def)
next
  case (4 s a b c s' x y)
  then show ?case using cmp_idx_null [OF 4(2)] by (auto simp: cmp_idx_run Let_def idx_le_def)
next
  case (5 s a b c s')
  then show ?case using cmp_idx_null [OF 5(2)]
    by (auto simp: cmp_idx_run Let_def idx_le_def idx_ok_def sint_promote_diff)
qed (auto simp: idx_le_def idx_ok_def fun_eq_iff)

interpretation by_idx: list_cmp "cmp_idx True" "idx_le i0 d0" "idx_ok i0 d0 r" for i0 d0 r
  by (rule list_cmp_idx)

lemma sorted_wrt_all:
  assumes "sorted_wrt Q xs" "2 \<le> length xs" "x \<in> set xs"
  shows "\<exists>y. Q x y \<or> Q y x"
proof -
  obtain i where i: "i < length xs" "x = xs ! i" using assms(3) by (auto simp: in_set_conv_nth)
  show ?thesis
  proof (cases i)
    case 0
    then have "Q x (xs ! 1)" using i assms(1,2) by (auto simp: sorted_wrt_iff_nth_less)
    then show ?thesis by blast
  next
    case (Suc j)
    then have "Q (xs ! j) x" using i assms(1) by (auto simp: sorted_wrt_iff_nth_less)
    then show ?thesis by blast
  qed
qed

lemma sort_by_idx:
  assumes "is_list (nxt s) l xs" "2 \<le> length xs" "\<forall>x \<in> set xs. inf s x \<noteq> 0" "length xs < 2147483648"
  shows "\<exists>l' s' ys. core_list_mergesort l (cmp_idx True) s = Some (l', s') \<and> is_list (nxt s') l' ys \<and>
    mset ys = mset xs \<and> sorted (map (\<lambda>x. sint (idx s (inf s x))) ys) \<and>
    (\<forall>x \<in> set xs. data16 s' (inf s x) = regen (data16 s (inf s x))) \<and>
    idx s' = idx s \<and> inf s' = inf s \<and> res s' = res s \<and> (\<forall>x. x \<notin> set xs \<longrightarrow> nxt s' x = nxt s x)"
proof -
  let ?le = "idx_le (idx s) (data16 s)"
  have "idx_ok (idx s) (data16 s) (res s) s" by (simp add: idx_ok_def)
  from by_idx.mergesort [OF this assms(1) _ assms(3,4)] assms(2) obtain l' s' ys where
    r: "core_list_mergesort l (cmp_idx True) s = Some (l', s')" "is_list (nxt s') l' ys" "mset ys = mset xs"
      "sorted_wrt (\<lambda>x y. ?le s' (inf s x) (inf s y)) ys" "idx_ok (idx s) (data16 s) (res s) s'"
      "inf s' = inf s" "\<forall>x. x \<notin> set xs \<longrightarrow> nxt s' x = nxt s x"
    by fastforce
  have ys: "set ys = set xs" "length ys = length xs"
    using r(3) by (auto dest: mset_eq_setD mset_eq_length)
  have "sorted (map (\<lambda>x. sint (idx s (inf s x))) ys)"
    using r(4) unfolding sorted_map by (rule sorted_wrt_mono_rel [rotated]) (simp add: idx_le_def)
  moreover have "data16 s' (inf s x) = regen (data16 s (inf s x))" if "x \<in> set xs" for x
    using sorted_wrt_all [OF r(4), of x] that ys assms(2) by (auto simp: idx_le_def)
  ultimately show ?thesis using r by (auto simp: idx_ok_def)
qed

text \<open>
  C19. Sorting by index: \<^verbatim>\<open>core_list_mergesort\<close> with \<^verbatim>\<open>cmp_idx\<close> returns on every list of at
  least two cells; the result has the same cells, ordered by index, and the data of
  every cell has been rebuilt from its upper byte, which is how the benchmark returns
  the list to its original state.
\<close>

theorem mergesort_by_idx:
  assumes "is_list (nxt s) l xs" "2 \<le> length xs" "\<forall>x \<in> set xs. inf s x \<noteq> 0" "length xs < 2147483648"
  shows "\<exists>l' s' ys. core_list_mergesort l (cmp_idx True) s = Some (l', s') \<and> is_list (nxt s') l' ys \<and>
    mset ys = mset xs \<and> sorted (map (\<lambda>x. sint (idx s (inf s x))) ys) \<and>
    (\<forall>x \<in> set xs. data16 s' (inf s x) = regen (data16 s (inf s x))) \<and>
    idx s' = idx s \<and> inf s' = inf s \<and> res s' = res s \<and> (\<forall>x. x \<notin> set xs \<longrightarrow> nxt s' x = nxt s x)"
  by (rule sort_by_idx [OF assms])

theorem mergesort_by_idx_witness:
  "\<exists>l' s' ys. core_list_mergesort 8 (cmp_idx True) (demo_state [8, 16, 24] [(0, 7), (0, 3), (0, 5)] demo_results) =
      Some (l', s') \<and> is_list (nxt s') l' ys \<and> mset ys = mset [8, 16, 24]"
  using mergesort_by_idx [of "demo_state [8, 16, 24] [(0, 7), (0, 3), (0, 5)] demo_results" 8 "[8, 16, 24]"]
  by (fastforce simp: demo_state_def)

section \<open>Sorting by computed values\<close>

text \<open>The three parts of a data word: upper byte, the flag for a cached result, the result.\<close>

lemma cached_word:
  "bit ((data AND 0xff00) OR 0x0080 OR (v AND 0x7f) :: s16) 7"
  "((data AND 0xff00) OR 0x0080 OR (v AND 0x7f)) AND 0x7f = v AND (0x7f :: s16)"
  "((data AND 0xff00) OR 0x0080 OR (v AND 0x7f)) AND 0xff00 = data AND (0xff00 :: s16)"
  by (simp_all add: word_eq_bits bit_eval bit_simps)

definition cached_value :: "s16 \<Rightarrow> int" where
  "cached_value d = sint (d AND 0x7f)"

definition complex_le :: "cstate \<Rightarrow> ptr \<Rightarrow> ptr \<Rightarrow> bool" where
  "complex_le s a b \<longleftrightarrow> bit (data16 s a) 7 \<and> bit (data16 s b) 7 \<and>
     cached_value (data16 s a) \<le> cached_value (data16 s b)"

definition res_ok :: "core_results \<Rightarrow> bool" where
  "res_ok r \<longleftrightarrow> block_ok (res_size r) (seed1 r) (seed2 r) (memblock3 r)"

text \<open>The fields of \<^verbatim>\<open>core_results\<close> that no kernel writes.\<close>

definition res_cfg :: "core_results \<Rightarrow> s16 \<times> s16 \<times> s16 \<times> u32 \<times> u32 \<times> u32 \<times> ptr" where
  "res_cfg r = (seed1 r, seed2 r, seed3 r, res_size r, iterations r, execs r, res_list r)"

definition complex_ok :: "(ptr \<Rightarrow> s16) \<Rightarrow> (ptr \<Rightarrow> s16) \<Rightarrow> core_results \<Rightarrow> cstate \<Rightarrow> bool" where
  "complex_ok i0 d0 r0 s \<longleftrightarrow> idx s = i0 \<and> res_ok (res s) \<and> res_cfg (res s) = res_cfg r0 \<and>
     (\<forall>a. data16 s a AND 0xff00 = d0 a AND 0xff00)"

text \<open>
  One call of \<^verbatim>\<open>calc_func\<close>: it returns whatever kernel it runs, caches the result in the
  cell, keeps the upper byte, and leaves a cell with a cached result alone.
\<close>

definition calc_post :: "ptr \<Rightarrow> cstate \<Rightarrow> s16 \<Rightarrow> cstate \<Rightarrow> bool" where
  "calc_post a s v s' \<longleftrightarrow> nxt s' = nxt s \<and> inf s' = inf s \<and> idx s' = idx s \<and> res_ok (res s') \<and>
     res_cfg (res s') = res_cfg (res s) \<and> bit (data16 s' a) 7 \<and> v = data16 s' a AND 0x7f \<and> data16 s' a AND 0xff00 = data16 s a AND 0xff00 \<and>
     (\<forall>x. x \<noteq> a \<or> bit (data16 s a) 7 \<longrightarrow> data16 s' x = data16 s x)"

lemma calc_store:
  assumes "a \<noteq> 0" "\<not> bit (data16 s a) 7" "res_ok r" "res_cfg r = res_cfg (res s)"
  shows "calc_post a s (v AND 0x7f)
    (s\<lparr>res := r, data16 := (data16 s)(a := (data16 s a AND 0xff00) OR 0x0080 OR (v AND 0x7f))\<rparr>)"
  using assms by (simp add: calc_post_def cached_word)

lemma calc_kernel_returns:
  assumes "res_ok r"
  shows "\<exists>v r'. calc_kernel data r = Some (v, r') \<and> res_ok r' \<and> res_cfg r' = res_cfg r"
proof -
  define t where "t = calc_dtype data"
  define t' where "t' = (if sint t < 0x22 then 0x22 else t)"
  have "2 \<le> sint t'" by (simp add: t'_def)
  with assms obtain v mem where run:
    "core_bench_state (res_size r) (memblock3 r) (seed1 r) (seed2 r) t' (crc r) = Some (v, mem)"
    "block_ok (res_size r) (seed1 r) (seed2 r) mem"
    using core_bench_state_block unfolding res_ok_def by metis
  have "calc_kernel data r =
      (if data AND 0x7 = 0
       then Some (v, if crcstate r = 0 then r\<lparr>memblock3 := mem, crcstate := v\<rparr> else r\<lparr>memblock3 := mem\<rparr>)
       else if data AND 0x7 = 1
       then let (v, m) = core_bench_matrix (mat r) t (crc r)
            in Some (v, if crcmatrix r = 0 then r\<lparr>mat := m, crcmatrix := v\<rparr> else r\<lparr>mat := m\<rparr>)
       else Some (data, r))"
    using run(1) unfolding calc_kernel_def t'_def t_def Let_def by (simp add: case_prod_beta)
  then show ?thesis using run(2) assms by (auto simp: res_ok_def res_cfg_def case_prod_beta Let_def)
qed

lemma calc_func_spec:
  assumes "a \<noteq> 0" "res_ok (res s)"
  obtains v s' where "calc_func a s = Some (v, s')" "calc_post a s v s'"
proof (cases "bit (data16 s a) 7")
  case True
  then have "calc_func a s = Some (data16 s a AND 0x7f, s)" using assms(1) by (simp add: calc_func_def)
  moreover have "calc_post a s (data16 s a AND 0x7f) s" using True assms(2) by (simp add: calc_post_def)
  ultimately show ?thesis by (rule that)
next
  case False
  obtain v r where k: "calc_kernel (data16 s a) (res s) = Some (v, r)" "res_ok r" "res_cfg r = res_cfg (res s)"
    using calc_kernel_returns [OF assms(2)] by blast
  let ?r = "r\<lparr>crc := crcu16 v (crc r)\<rparr>"
  have "calc_func a s = Some (v AND 0x7f, s\<lparr>res := ?r,
      data16 := (data16 s)(a := (data16 s a AND 0xff00) OR 0x0080 OR (v AND 0x7f))\<rparr>)"
    using False assms(1) k(1) by (simp add: calc_func_def Let_def)
  moreover have "res_ok ?r" "res_cfg ?r = res_cfg (res s)" using k(2,3) by (simp_all add: res_ok_def res_cfg_def)
  ultimately show ?thesis using that calc_store [OF assms(1) False, of ?r v] by blast
qed

lemma cmp_complex_spec:
  assumes "complex_ok i0 d0 r0 s" "a \<noteq> 0" "b \<noteq> 0"
  obtains s1 s2 where "calc_post a s (data16 s1 a AND 0x7f) s1" "calc_post b s1 (data16 s2 b AND 0x7f) s2"
    "cmp_complex a b s = Some (promote16 (data16 s1 a AND 0x7f) - promote16 (data16 s2 b AND 0x7f), s2)"
    "data16 s2 a = data16 s1 a"
proof -
  obtain v s1 where 1: "calc_func a s = Some (v, s1)" "calc_post a s v s1"
    using calc_func_spec [OF assms(2)] assms(1) by (auto simp: complex_ok_def)
  have "res_ok (res s1)" using 1(2) by (simp add: calc_post_def)
  with assms(3) obtain w s2 where 2: "calc_func b s1 = Some (w, s2)" "calc_post b s1 w s2"
    by (rule calc_func_spec)
  have vw: "v = data16 s1 a AND 0x7f" "w = data16 s2 b AND 0x7f" "data16 s2 a = data16 s1 a"
    using 1(2) 2(2) by (auto simp: calc_post_def)
  show ?thesis using that [of s1 s2] 1 2 unfolding vw(1,2) using vw(3) by (simp add: cmp_complex_def)
qed

lemma cmp_complex_null: "cmp_complex a b s = Some (c, s') \<Longrightarrow> a \<noteq> 0 \<and> b \<noteq> 0"
  by (auto simp: cmp_complex_def calc_func_def deref_def bind_eq_Some_conv split: if_splits)

lemma calc_post_grows:
  "calc_post a s v s' \<Longrightarrow> complex_ok i0 d0 r0 s \<Longrightarrow> complex_ok i0 d0 r0 s'"
  "calc_post a s v s' \<Longrightarrow> complex_le s x y \<Longrightarrow> complex_le s' x y"
  unfolding calc_post_def complex_ok_def complex_le_def by metis+

lemma cmp_complex_post:
  assumes "complex_ok i0 d0 r0 s" "cmp_complex a b s = Some (c, s')"
  shows "complex_ok i0 d0 r0 s' \<and> nxt s' = nxt s \<and> inf s' = inf s \<and>
    (\<forall>x y. complex_le s x y \<longrightarrow> complex_le s' x y) \<and>
    (if sint c \<le> 0 then complex_le s' a b else complex_le s' b a)"
proof -
  note ab = cmp_complex_null [OF assms(2)]
  obtain s1 where s1: "calc_post a s (data16 s1 a AND 0x7f) s1" "calc_post b s1 (data16 s' b AND 0x7f) s'"
    "c = promote16 (data16 s1 a AND 0x7f) - promote16 (data16 s' b AND 0x7f)" "data16 s' a = data16 s1 a"
    using cmp_complex_spec [OF assms(1), of a b] ab assms(2) by (metis option.inject prod.inject)
  have "complex_ok i0 d0 r0 s'"
    using calc_post_grows(1) [OF s1(2) calc_post_grows(1) [OF s1(1) assms(1)]] .
  moreover have "\<forall>x y. complex_le s x y \<longrightarrow> complex_le s' x y"
    using calc_post_grows(2) [OF s1(2) calc_post_grows(2) [OF s1(1)]] by blast
  moreover have "nxt s' = nxt s" "inf s' = inf s" "bit (data16 s' a) 7" "bit (data16 s' b) 7"
    using s1(1,2,4) by (auto simp: calc_post_def)
  moreover have "sint c = cached_value (data16 s' a) - cached_value (data16 s' b)"
    using s1(3,4) by (simp add: cached_value_def sint_promote_diff)
  ultimately show ?thesis by (auto simp: complex_le_def)
qed

lemma list_cmp_complex: "list_cmp cmp_complex complex_le (complex_ok i0 d0 r0)"
proof (unfold_locales, goal_cases)
  case (1 s a b)
  then show ?case using cmp_complex_spec by metis
qed (use cmp_complex_post in \<open>blast+\<close>, auto simp: complex_le_def complex_ok_def fun_eq_iff)

interpretation by_value: list_cmp cmp_complex complex_le "complex_ok i0 d0 r0" for i0 d0 r0
  by (rule list_cmp_complex)

lemma sort_by_value:
  assumes "is_list (nxt s) l xs" "2 \<le> length xs" "\<forall>x \<in> set xs. inf s x \<noteq> 0" "length xs < 2147483648"
    and "res_ok (res s)"
  shows "\<exists>l' s' ys. core_list_mergesort l cmp_complex s = Some (l', s') \<and> is_list (nxt s') l' ys \<and>
    mset ys = mset xs \<and> (\<forall>x \<in> set xs. bit (data16 s' (inf s x)) 7) \<and>
    sorted (map (\<lambda>x. cached_value (data16 s' (inf s x))) ys) \<and>
    (\<forall>a. data16 s' a AND 0xff00 = data16 s a AND 0xff00) \<and> idx s' = idx s \<and> inf s' = inf s \<and>
    res_ok (res s') \<and> res_cfg (res s') = res_cfg (res s)"
proof -
  have "complex_ok (idx s) (data16 s) (res s) s" using assms(5) by (simp add: complex_ok_def)
  from by_value.mergesort [OF this assms(1) _ assms(3,4)] assms(2) obtain l' s' ys where
    r: "core_list_mergesort l cmp_complex s = Some (l', s')" "is_list (nxt s') l' ys" "mset ys = mset xs"
      "sorted_wrt (\<lambda>x y. complex_le s' (inf s x) (inf s y)) ys" "complex_ok (idx s) (data16 s) (res s) s'"
      "inf s' = inf s"
    by fastforce
  have ys: "set ys = set xs" "length ys = length xs"
    using r(3) by (auto dest: mset_eq_setD mset_eq_length)
  have "sorted (map (\<lambda>x. cached_value (data16 s' (inf s x))) ys)"
    using r(4) unfolding sorted_map by (rule sorted_wrt_mono_rel [rotated]) (simp add: complex_le_def)
  moreover have "bit (data16 s' (inf s x)) 7" if "x \<in> set xs" for x
    using sorted_wrt_all [OF r(4), of x] that ys assms(2) by (auto simp: complex_le_def)
  ultimately show ?thesis using r by (auto simp: complex_ok_def)
qed

text \<open>
  C1. Sorting by computed values: with terminated input for the state machine and
  equal seeds, the sort by \<^verbatim>\<open>cmp_complex\<close> returns, although every first comparison of a
  cell runs one of the other kernels and changes their data; the result has the same
  cells, every cell has its computed value cached, the cells are ordered by it, and
  indices and upper data bytes are kept.
\<close>

theorem mergesort_by_value:
  assumes "is_list (nxt s) l xs" "2 \<le> length xs" "\<forall>x \<in> set xs. inf s x \<noteq> 0" "length xs < 2147483648"
    and "res_ok (res s)"
  shows "\<exists>l' s' ys. core_list_mergesort l cmp_complex s = Some (l', s') \<and> is_list (nxt s') l' ys \<and>
    mset ys = mset xs \<and> (\<forall>x \<in> set xs. bit (data16 s' (inf s x)) 7) \<and>
    sorted (map (\<lambda>x. cached_value (data16 s' (inf s x))) ys) \<and>
    (\<forall>a. data16 s' a AND 0xff00 = data16 s a AND 0xff00) \<and> idx s' = idx s \<and> inf s' = inf s \<and>
    res_ok (res s') \<and> res_cfg (res s') = res_cfg (res s)"
  by (rule sort_by_value [OF assms])

theorem mergesort_by_value_witness:
  "\<exists>l' s' ys. core_list_mergesort 8 cmp_complex (demo_state [8, 16, 24] [(0, 0), (1, 0), (2, 0)] demo_results) =
      Some (l', s') \<and> is_list (nxt s') l' ys \<and> mset ys = mset [8, 16, 24]"
  using mergesort_by_value [of "demo_state [8, 16, 24] [(0, 0), (1, 0), (2, 0)] demo_results" 8 "[8, 16, 24]"]
  by (fastforce simp: demo_state_def res_ok_def block_ok_def demo_results_def)

text \<open>
  On an empty list the sort dereferences a null pointer: \<^verbatim>\<open>tail->next = NULL\<close> is
  executed before the test for the empty list case.
\<close>

theorem mergesort_empty: "core_list_mergesort 0 cmp s = None"
  unfolding core_list_mergesort_def
  by (subst sort_loop.simps, subst sort_pass.simps) (simp add: set_nxt_def)

end
