(* ===== verification/CoreBench.thy ===== *)
theory CoreBench
  imports CoreSort
begin

text \<open>
  The list benchmark itself and the outer loop: \<^verbatim>\<open>core_list_init\<close> and \<^verbatim>\<open>core_bench_list\<close> of
  \<^verbatim>\<open>fpga/coremark/src/core_list_join.c\<close> and \<^verbatim>\<open>iterate\<close> of \<^verbatim>\<open>core_main.c\<close>. The theory shows that
  an iteration always returns and puts the list back as it was, so that any number
  of iterations does.
\<close>

section \<open>The list benchmark\<close>

text \<open>
  One round of the search: the variables are \<^verbatim>\<open>list\<close>, \<^verbatim>\<open>info\<close>, \<^verbatim>\<open>retval\<close>, \<^verbatim>\<open>found\<close> and
  \<^verbatim>\<open>missed\<close>.
\<close>

definition find_round :: "s16 \<Rightarrow> ptr \<times> list_data \<times> u16 \<times> u16 \<times> u16 \<Rightarrow> cstate \<Rightarrow>
    ((ptr \<times> list_data \<times> u16 \<times> u16 \<times> u16) \<times> cstate) option" where
  "find_round i = (\<lambda>(lst, info, retval, found, missed) s. do {
     let info = info\<lparr>ld_data16 := i AND 0xff\<rparr>;
     this_find \<leftarrow> core_list_find lst info s;
     (lst, s) \<leftarrow> core_list_reverse lst s;
     (retval, found, missed, s) \<leftarrow>
       (if this_find = 0 then do {
          let missed = missed + 1;
          n \<leftarrow> deref (nxt s) lst;
          d \<leftarrow> deref (inf s) n;
          v \<leftarrow> deref (data16 s) d;
          Some (retval + (signed_drop_bit 8 v AND 1), found, missed, s)
        } else do {
          let found = found + 1;
          d \<leftarrow> deref (inf s) this_find;
          v \<leftarrow> deref (data16 s) d;
          let retval = (if v AND 1 \<noteq> 0 then retval + (signed_drop_bit 9 v AND 1) else retval);
          finder \<leftarrow> deref (nxt s) this_find;
          s \<leftarrow> (if finder \<noteq> 0 then do {
                  n \<leftarrow> deref (nxt s) finder;
                  s \<leftarrow> set_nxt this_find n s;
                  n \<leftarrow> deref (nxt s) lst;
                  s \<leftarrow> set_nxt finder n s;
                  set_nxt lst finder s
                } else Some s);
          Some (retval, found, missed, s)
        });
     let info = (if 0 \<le> sint (ld_idx info) then info\<lparr>ld_idx := ld_idx info + 1\<rparr> else info);
     Some ((lst, info, retval, found, missed), s)
   })"

fun find_rounds :: "nat \<Rightarrow> s16 \<Rightarrow> ptr \<times> list_data \<times> u16 \<times> u16 \<times> u16 \<Rightarrow> cstate \<Rightarrow>
    ((ptr \<times> list_data \<times> u16 \<times> u16 \<times> u16) \<times> cstate) option" where
  "find_rounds 0 i v s = Some (v, s)"
| "find_rounds (Suc n) i v s = do { (v, s) \<leftarrow> find_round i v s; find_rounds n (i + 1) v s }"

text \<open>\<^verbatim>\<open>while (finder) { retval = crc16(list->info->data16, retval); finder = finder->next; }\<close>\<close>

partial_function (option) crc_loop :: "ptr \<Rightarrow> ptr \<Rightarrow> u16 \<Rightarrow> cstate \<Rightarrow> u16 option" where
  "crc_loop lst finder retval s =
     (if finder = 0 then Some retval
      else do {
        d \<leftarrow> deref (inf s) lst;
        v \<leftarrow> deref (data16 s) d;
        crc_loop lst (nxt s finder) (crc16 v retval) s
      })"

text \<open>The part after the sort: remove a cell, checksum, put it back.\<close>

definition remove_round :: "ptr \<Rightarrow> list_data \<Rightarrow> u16 \<Rightarrow> cstate \<Rightarrow> (u16 \<times> cstate) option" where
  "remove_round lst info retval s = do {
     n \<leftarrow> deref (nxt s) lst;
     (remover, s) \<leftarrow> core_list_remove n s;
     finder \<leftarrow> core_list_find lst info s;
     finder \<leftarrow> (if finder = 0 then deref (nxt s) lst else Some finder);
     retval \<leftarrow> crc_loop lst finder retval s;
     n \<leftarrow> deref (nxt s) lst;
     (remover, s) \<leftarrow> core_list_undo_remove remover n s;
     Some (retval, s)
   }"

definition core_bench_list :: "s16 \<Rightarrow> cstate \<Rightarrow> (u16 \<times> cstate) option" where
  "core_bench_list finder_idx s = do {
     let lst = res_list (res s);
     let find_num = seed3 (res s);
     let info = \<lparr>ld_data16 = 0, ld_idx = finder_idx\<rparr>;
     ((lst, info, retval, found, missed), s) \<leftarrow>
       find_rounds (nat (sint find_num)) 0 (lst, info, 0, 0, 0) s;
     let retval = retval + (found * 4 - missed);
     (lst, s) \<leftarrow> (if 0 < sint finder_idx then core_list_mergesort lst cmp_complex s else Some (lst, s));
     (retval, s) \<leftarrow> remove_round lst info retval s;
     (lst, s) \<leftarrow> core_list_mergesort lst (cmp_idx True) s;
     finder \<leftarrow> deref (nxt s) lst;
     retval \<leftarrow> crc_loop lst finder retval s;
     Some (retval, s)
   }"

section \<open>The outer loop\<close>

definition iterate_body :: "bool \<Rightarrow> cstate \<Rightarrow> cstate option" where
  "iterate_body first s = do {
     (c, s) \<leftarrow> core_bench_list 1 s;
     let s = s\<lparr>res := (res s)\<lparr>crc := crcu16 c (crc (res s))\<rparr>\<rparr>;
     (c, s) \<leftarrow> core_bench_list (- 1) s;
     let s = s\<lparr>res := (res s)\<lparr>crc := crcu16 c (crc (res s))\<rparr>\<rparr>;
     Some (if first then s\<lparr>res := (res s)\<lparr>crclist := crc (res s)\<rparr>\<rparr> else s)
   }"

fun iterate_loop :: "nat \<Rightarrow> bool \<Rightarrow> cstate \<Rightarrow> cstate option" where
  "iterate_loop 0 first s = Some s"
| "iterate_loop (Suc n) first s = do { s \<leftarrow> iterate_body first s; iterate_loop n False s }"

definition iterate :: "cstate \<Rightarrow> cstate option" where
  "iterate s =
     (let s = s\<lparr>res := (res s)\<lparr>crc := 0, crclist := 0, crcmatrix := 0, crcstate := 0\<rparr>\<rparr>
      in iterate_loop (unat (iterations (res s))) True s)"

section \<open>Building the list\<close>

fun insert_loop :: "nat \<Rightarrow> u32 \<Rightarrow> s16 \<Rightarrow> ptr \<Rightarrow> list_data \<Rightarrow> ptr \<Rightarrow> ptr \<Rightarrow> ptr \<Rightarrow> ptr \<Rightarrow> cstate \<Rightarrow> cstate option" where
  "insert_loop 0 i seed lst info memblock datablock memblock_end datablock_end s = Some s"
| "insert_loop (Suc n) i seed lst info memblock datablock memblock_end datablock_end s = do {
     let datpat = (ucast (scast seed XOR i) :: u16) AND 0xf;
     let dat = push_bit 3 datpat OR ucast (i AND 0x7);
     let info = info\<lparr>ld_data16 := push_bit 8 dat OR dat\<rparr>;
     (_, memblock, datablock, s) \<leftarrow>
       core_list_insert_new lst info memblock datablock memblock_end datablock_end s;
     insert_loop n (i + 1) seed lst info memblock datablock memblock_end datablock_end s
   }"

partial_function (option) index_loop :: "u32 \<Rightarrow> s16 \<Rightarrow> ptr \<Rightarrow> u32 \<Rightarrow> cstate \<Rightarrow> cstate option" where
  "index_loop sz seed finder i s = do {
     n \<leftarrow> deref (nxt s) finder;
     if n = 0 then Some s
     else do {
       d \<leftarrow> deref (inf s) finder;
       (i, s) \<leftarrow>
         (if i < sz div 5 then do { s \<leftarrow> set_idx d (ucast i) s; Some (i + 1, s) }
          else do {
            let pat = (ucast (i XOR scast seed) :: u16);
            let i = i + 1;
            s \<leftarrow> set_idx d (ucast (0x3fff AND (push_bit 8 (i AND 0x07) OR ucast pat) :: u32)) s;
            Some (i, s)
          });
       index_loop sz seed n i s
     }
   }"

definition core_list_init :: "u32 \<Rightarrow> ptr \<Rightarrow> s16 \<Rightarrow> cstate \<Rightarrow> (ptr \<times> cstate) option" where
  "core_list_init blksize memblock seed s = do {
     let per_item = 16 + 4;
     let sz = blksize div per_item - 2;
     let memblock_end = memblock + 8 * unat sz;
     let datablock = memblock_end;
     let datablock_end = datablock + 4 * unat sz;
     let lst = memblock;
     s \<leftarrow> set_nxt lst 0 s;
     s \<leftarrow> set_inf lst datablock s;
     d \<leftarrow> deref (inf s) lst;
     s \<leftarrow> set_idx d 0 s;
     s \<leftarrow> set_data16 d 0x8080 s;
     let memblock = memblock + 8;
     let datablock = datablock + 4;
     let info = \<lparr>ld_data16 = 0xffff, ld_idx = 0x7fff\<rparr>;
     (_, memblock, datablock, s) \<leftarrow>
       core_list_insert_new lst info memblock datablock memblock_end datablock_end s;
     s \<leftarrow> insert_loop (unat sz) 0 seed lst info memblock datablock memblock_end datablock_end s;
     finder \<leftarrow> deref (nxt s) lst;
     s \<leftarrow> index_loop sz seed finder 1 s;
     core_list_mergesort lst (cmp_idx True) s
   }"

section \<open>The search keeps the cells\<close>

text \<open>Moving the successor of a found cell behind the head.\<close>

lemma move_to_front:
  assumes "is_list h l ys" "f \<in> set ys" "h f \<noteq> 0"
  shows "\<exists>ys'. is_list (((h(f := h (h f)))(h f := (h(f := h (h f))) l))(l := h f)) l ys' \<and> mset ys' = mset ys"
proof -
  let ?g = "h f"
  obtain as bs where ys: "ys = as @ f # bs" using assms(2) by (meson split_list)
  then have "is_list h ?g bs" using assms(1) by (auto simp: path_append)
  then obtain cs where bs: "bs = ?g # cs" "is_list h (h ?g) cs" using assms(3) by (cases bs) auto
  have d: "distinct (as @ f # ?g # cs)" using is_list_distinct [OF assms(1)] ys bs(1) by simp
  show ?thesis
  proof (cases as)
    case Nil
    then have "l = f" using assms(1) ys by simp
    then have "is_list (((h(f := h ?g))(?g := (h(f := h ?g)) l))(l := ?g)) l (f # ?g # cs)"
      using bs d assms Nil ys by (simp add: path_upd)
    then show ?thesis using ys bs(1) Nil by (intro exI [of _ "f # ?g # cs"] conjI) (assumption, simp)
  next
    case (Cons a as')
    then have l: "a = l" "l \<noteq> 0" "path h (h l) as' f" "f \<noteq> 0"
      using assms(1) ys by (auto simp: path_append)
    then have "is_list (((h(f := h ?g))(?g := (h(f := h ?g)) l))(l := ?g)) l (l # ?g # as' @ f # cs)"
      using bs(2) d assms(3) Cons by (auto simp: path_append path_upd)
    then show ?thesis using ys bs(1) Cons l(1) by (intro exI [of _ "l # ?g # as' @ f # cs"]) auto
  qed
qed

text \<open>Two states that differ only in the links.\<close>

definition relinked :: "cstate \<Rightarrow> cstate \<Rightarrow> bool" where
  "relinked s s' \<longleftrightarrow> inf s' = inf s \<and> data16 s' = data16 s \<and> idx s' = idx s \<and> res s' = res s"

lemma nxt_only: "s' = s\<lparr>nxt := h\<rparr> \<Longrightarrow> relinked s s'"
  by (simp add: relinked_def)

lemma relinked_trans: "relinked s t \<Longrightarrow> relinked t u \<Longrightarrow> relinked s u"
  by (simp add: relinked_def)

lemma core_list_find_in:
  assumes "is_list (nxt s) p xs" "\<forall>x \<in> set xs. inf s x \<noteq> 0"
  shows "\<exists>f. core_list_find p info s = Some f \<and> (f = 0 \<or> f \<in> set xs)"
proof (cases "find (find_match info s) xs")
  case None
  then show ?thesis using core_list_find_eq [OF assms, of info] by simp
next
  case (Some x)
  then have "x \<in> set xs" by (auto simp: find_Some_iff)
  then show ?thesis using core_list_find_eq [OF assms, of info] Some by simp
qed

lemma find_round_keeps:
  assumes "is_list (nxt s) lst ys" "2 \<le> length ys" "\<forall>y \<in> set ys. inf s y \<noteq> 0"
  obtains lst' info' r f m s' ys' where
    "find_round i (lst, info, retval, found, missed) s = Some ((lst', info', r, f, m), s')"
    "relinked s s'" "is_list (nxt s') lst' ys'" "mset ys' = mset ys"
proof -
  let ?info = "info\<lparr>ld_data16 := i AND 0xff\<rparr>"
  obtain tf where tf: "core_list_find lst ?info s = Some tf" "tf = 0 \<or> tf \<in> set ys"
    using core_list_find_in [OF assms(1,3)] by blast
  obtain l1 s1 where rev: "core_list_reverse lst s = Some (l1, s1)" "is_list (nxt s1) l1 (rev ys)"
    "relinked s s1"
    using reverse_list [OF assms(1)] nxt_only by blast
  have fields: "inf s1 = inf s" "data16 s1 = data16 s"
    using rev(3) by (simp_all add: relinked_def)
  obtain a b cs where rs: "rev ys = a # b # cs"
    using assms(2) by (metis length_rev Suc_le_length_iff numeral_2_eq_2)
  then have ab: "l1 = a" "a \<noteq> 0" "nxt s1 a = b" "b \<noteq> 0" "b \<in> set ys"
    using rev(2) arg_cong [OF rs, of set] by auto
  show ?thesis
  proof (cases "tf = 0")
    case True
    then show ?thesis
      using that [of l1 _ _ _ _ s1 "rev ys"] tf(1) rev assms(3) ab fields
      by (simp add: find_round_def Let_def)
  next
    case False
    then have tf': "tf \<in> set ys" "inf s tf \<noteq> 0" using tf(2) assms(3) by auto
    show ?thesis
    proof (cases "nxt s1 tf = 0")
      case True
      then show ?thesis
        using that [of l1 _ _ _ _ s1 "rev ys"] tf(1) False rev tf' fields
        by (simp add: find_round_def Let_def)
    next
      case move: False
      let ?h = "nxt s1"
      let ?s = "s1\<lparr>nxt := ((?h(tf := ?h (?h tf)))(?h tf := (?h(tf := ?h (?h tf))) l1))(l1 := ?h tf)\<rparr>"
      obtain ys' where "is_list (nxt ?s) l1 ys'" "mset ys' = mset ys"
        using move_to_front [OF rev(2), of tf] move tf'(1) by auto
      moreover have "relinked s ?s" using rev(3) by (simp add: relinked_def)
      ultimately show ?thesis
        using that [of l1 _ _ _ _ ?s ys'] tf(1) False rev(1) tf' fields move ab
        by (simp add: find_round_def Let_def)
    qed
  qed
qed

text \<open>Any number of rounds only permutes the cells.\<close>

lemma find_rounds_keeps:
  "is_list (nxt s) lst ys \<Longrightarrow> 2 \<le> length ys \<Longrightarrow> \<forall>y \<in> set ys. inf s y \<noteq> 0 \<Longrightarrow>
   \<exists>lst' info' r f m s' ys'. find_rounds n i (lst, info, retval, found, missed) s = Some ((lst', info', r, f, m), s') \<and>
     relinked s s' \<and> is_list (nxt s') lst' ys' \<and> mset ys' = mset ys"
proof (induction n arbitrary: i lst info retval found missed s ys)
  case 0
  then show ?case by (auto simp: relinked_def)
next
  case (Suc n)
  obtain l1 info1 r1 f1 m1 s1 ys1 where
    one: "find_round i (lst, info, retval, found, missed) s = Some ((l1, info1, r1, f1, m1), s1)"
      "relinked s s1" "is_list (nxt s1) l1 ys1" "mset ys1 = mset ys"
    by (rule find_round_keeps [OF Suc.prems])
  have "inf s1 = inf s" using one(2) by (simp add: relinked_def)
  then have ready: "2 \<le> length ys1" "\<forall>y \<in> set ys1. inf s1 y \<noteq> 0"
    using Suc.prems(2,3) mset_eq_length [OF one(4)] mset_eq_setD [OF one(4)] by metis+
  obtain l2 info2 r2 f2 m2 s2 ys2 where
    two: "find_rounds n (i + 1) (l1, info1, r1, f1, m1) s1 = Some ((l2, info2, r2, f2, m2), s2)"
      "relinked s1 s2" "is_list (nxt s2) l2 ys2" "mset ys2 = mset ys1"
    using Suc.IH [OF one(3) ready] by blast
  with one show ?case using relinked_trans [OF one(2) two(2)] by auto
qed

section \<open>Checksum loops and the removed cell\<close>

lemma crc_loop_returns:
  "is_list (nxt s) finder ys \<Longrightarrow> lst \<noteq> 0 \<Longrightarrow> inf s lst \<noteq> 0 \<Longrightarrow> \<exists>r. crc_loop lst finder retval s = Some r"
proof (induction ys arbitrary: finder retval)
  case Nil
  then show ?case by (subst crc_loop.simps) simp
next
  case (Cons y ys)
  then have "finder \<noteq> 0" "is_list (nxt s) (nxt s finder) ys" by auto
  with Cons.IH [OF this(2)] Cons.prems show ?case by (subst crc_loop.simps) simp
qed

lemma remove_round_restores:
  assumes "is_list (nxt s) lst xs" "3 \<le> length xs" "\<forall>x \<in> set xs. inf s x \<noteq> 0"
  shows "\<exists>r. remove_round lst info retval s = Some (r, s)"
proof -
  obtain a b c zs where xs: "xs = a # b # c # zs"
    using assms(2) by (metis Suc_le_length_iff numeral_3_eq_3)
  then have n: "lst = a" "a \<noteq> 0" "nxt s a = b" "is_list (nxt s) b (b # c # zs)" "b \<noteq> 0" "c \<noteq> 0"
    and d: "distinct (a # b # c # zs)"
    using assms(1) is_list_distinct [OF assms(1)] by auto
  let ?s = "removed b c s"
  have l: "is_list (nxt ?s) a (a # b # zs)" "nxt ?s a = b"
    using n d by (auto simp: removed_def path_upd)
  have i: "\<forall>x \<in> set (a # b # zs). inf ?s x \<noteq> 0" using assms(3) xs d by (auto simp: removed_def)
  obtain f where f: "core_list_find a info ?s = Some f" "f = 0 \<or> f \<in> set (a # b # zs)"
    using core_list_find_in [OF l(1) i] by blast
  define g where "g = (if f = 0 then b else f)"
  have "g \<in> set (a # b # zs)" using f(2) by (auto simp: g_def)
  then obtain us vs where "a # b # zs = us @ g # vs" by (meson split_list)
  with l(1) have "is_list (nxt ?s) g (g # vs)" by (metis path_append path.simps(2))
  then obtain r where "crc_loop a g retval ?s = Some r"
    using crc_loop_returns [of ?s g "g # vs" a] n(2) i by auto
  then show ?thesis
    using n(1-3,5) f(1) l(2) remove_state [OF n(4)] by (auto simp: remove_round_def g_def)
qed

section \<open>A list ready for the benchmark\<close>

text \<open>
  The state \<^verbatim>\<open>core_list_init\<close> sets up and every iteration starts from: the cells \<open>xs\<close> hang off
  \<^verbatim>\<open>res->list\<close> in the order of their strictly increasing indices, every cell has data
  whose two bytes agree, and the input of the state machine is terminated.
\<close>

definition list_ready :: "ptr list \<Rightarrow> cstate \<Rightarrow> bool" where
  "list_ready xs s \<longleftrightarrow> is_list (nxt s) (res_list (res s)) xs \<and> 3 \<le> length xs \<and> length xs < 2147483648 \<and>
     (\<forall>x \<in> set xs. inf s x \<noteq> 0) \<and> res_ok (res s) \<and>
     sorted_wrt (<) (map (\<lambda>x. sint (idx s (inf s x))) xs) \<and>
     (\<forall>x \<in> set xs. regen (data16 s (inf s x)) = data16 s (inf s x))"

definition same_list :: "ptr list \<Rightarrow> cstate \<Rightarrow> cstate \<Rightarrow> bool" where
  "same_list xs s s' \<longleftrightarrow> (\<forall>x \<in> set xs. inf s' x = inf s x \<and> data16 s' (inf s x) = data16 s (inf s x) \<and>
     idx s' (inf s x) = idx s (inf s x)) \<and> res_cfg (res s') = res_cfg (res s)"

lemma regen_upper: "d AND 0xff00 = e AND 0xff00 \<Longrightarrow> regen d = regen e"
proof -
  have "regen d = regen (d AND 0xff00)" for d
    by (simp add: regen_def word_eq_bits bit_eval bit_simps)
  then show "d AND 0xff00 = e AND 0xff00 \<Longrightarrow> regen d = regen e" by metis
qed

lemma sorted_back:
  fixes k :: "'a \<Rightarrow> int"
  assumes "mset ys = mset xs" "sorted (map k ys)" "sorted_wrt (<) (map k xs)"
  shows "ys = xs"
proof -
  have "sorted (map k xs)" using assms(3) by (rule strict_sorted_imp_sorted)
  then have "map k ys = map k xs"
    using assms(1,2) by (metis mset_map properties_for_sort)
  moreover have "inj_on k (set xs)"
    using strict_sorted_iff [of "map k xs"] assms(3) by (simp add: distinct_map)
  ultimately show ?thesis using mset_eq_setD [OF assms(1)] by (metis map_inj_on sup.idem)
qed

text \<open>The sort in the middle of the benchmark, whether it is made or not.\<close>

lemma middle_sort:
  assumes "is_list (nxt s) l xs" "2 \<le> length xs" "\<forall>x \<in> set xs. inf s x \<noteq> 0" "length xs < 2147483648"
    and "res_ok (res s)"
  obtains l' s' ys where
    "(if b then core_list_mergesort l cmp_complex s else Some (l, s)) = Some (l', s')"
    "is_list (nxt s') l' ys" "mset ys = mset xs" "inf s' = inf s" "idx s' = idx s"
    "\<forall>a. regen (data16 s' a) = regen (data16 s a)" "res_ok (res s')" "res_cfg (res s') = res_cfg (res s)"
proof (cases b)
  case False
  then show ?thesis using that [of l s xs] assms by simp
next
  case True
  obtain l' s' ys where "core_list_mergesort l cmp_complex s = Some (l', s')" "is_list (nxt s') l' ys"
    "mset ys = mset xs" "\<forall>a. data16 s' a AND 0xff00 = data16 s a AND 0xff00" "idx s' = idx s" "inf s' = inf s"
    "res_ok (res s')" "res_cfg (res s') = res_cfg (res s)"
    using sort_by_value [OF assms] by blast
  moreover have "\<forall>a. regen (data16 s' a) = regen (data16 s a)" using calculation(4) regen_upper by blast
  ultimately show ?thesis using that [of l' s' ys] True by simp
qed

lemma core_bench_list_run:
  assumes "list_ready xs s"
  shows "\<exists>r s'. core_bench_list fi s = Some (r, s') \<and> list_ready xs s' \<and> same_list xs s s'"
proof -
  note ready = assms [unfolded list_ready_def]
  let ?k = "\<lambda>x. sint (idx s (inf s x))"
  obtain l1 info1 r1 f1 m1 s1 ys1 where
    rounds: "find_rounds (nat (sint (seed3 (res s)))) 0 (res_list (res s), \<lparr>ld_data16 = 0, ld_idx = fi\<rparr>, 0, 0, 0) s =
        Some ((l1, info1, r1, f1, m1), s1)" "relinked s s1"
      "is_list (nxt s1) l1 ys1" "mset ys1 = mset xs"
    using find_rounds_keeps [of s "res_list (res s)" xs "nat (sint (seed3 (res s)))" 0
        "\<lparr>ld_data16 = 0, ld_idx = fi\<rparr>" 0 0 0] ready by auto
  note f1 = rounds(2) [unfolded relinked_def]
  have ys1: "2 \<le> length ys1" "\<forall>x \<in> set ys1. inf s1 x \<noteq> 0" "length ys1 < 2147483648" "res_ok (res s1)"
    using ready f1 mset_eq_length [OF rounds(4)] mset_eq_setD [OF rounds(4)] by simp_all
  obtain l2 s2 ys2 where mid:
    "(if 0 < sint fi then core_list_mergesort l1 cmp_complex s1 else Some (l1, s1)) = Some (l2, s2)"
    "is_list (nxt s2) l2 ys2" "mset ys2 = mset ys1" "inf s2 = inf s1" "idx s2 = idx s1"
    "\<forall>a. regen (data16 s2 a) = regen (data16 s1 a)" "res_ok (res s2)" "res_cfg (res s2) = res_cfg (res s1)"
    by (rule middle_sort [OF rounds(3) ys1, of "0 < sint fi"])
  have m2: "mset ys2 = mset xs" using mid(3) rounds(4) by simp
  have ys2: "3 \<le> length ys2" "2 \<le> length ys2" "length ys2 < 2147483648" "\<forall>x \<in> set ys2. inf s2 x \<noteq> 0"
    using ready f1 mid(4) mset_eq_length [OF m2] mset_eq_setD [OF m2] by simp_all
  obtain r2 where rm: "remove_round l2 info1 (r1 + (f1 * 4 - m1)) s2 = Some (r2, s2)"
    using remove_round_restores [OF mid(2) ys2(1,4)] by blast
  obtain l3 s3 ys3 where srt: "core_list_mergesort l2 (cmp_idx True) s2 = Some (l3, s3)"
    "is_list (nxt s3) l3 ys3" "mset ys3 = mset ys2" "sorted (map (\<lambda>x. sint (idx s2 (inf s2 x))) ys3)"
    "\<forall>x \<in> set ys2. data16 s3 (inf s2 x) = regen (data16 s2 (inf s2 x))"
    "idx s3 = idx s2" "inf s3 = inf s2" "res s3 = res s2"
    using sort_by_idx [OF mid(2) ys2(2,4,3)] by blast
  have m3: "mset ys3 = mset xs" using srt(3) m2 by simp
  have fields: "inf s3 = inf s" "idx s3 = idx s" using srt(6,7) mid(4,5) f1 by simp_all
  have "ys3 = xs"
    by (rule sorted_back [OF m3, of ?k]) (use srt(4) mid(4,5) f1 ready in simp_all)
  have data: "data16 s3 (inf s x) = data16 s (inf s x)" if "x \<in> set xs" for x
    using srt(5) mid(4,6) f1 ready that mset_eq_setD [OF m2] by simp
  obtain a b zs where xs: "xs = a # b # zs" using ready by (metis Suc_le_length_iff numeral_3_eq_3)
  then have l3: "l3 = a" "a \<noteq> 0" "res_list (res s) = a" "is_list (nxt s3) (nxt s3 a) (b # zs)" "inf s3 a \<noteq> 0"
    using srt(2) ready fields \<open>ys3 = xs\<close> by auto
  obtain r3 where crc: "crc_loop l3 (nxt s3 l3) r2 s3 = Some r3"
    using crc_loop_returns [OF l3(4), of l3] l3 by auto
  have cfg: "res_cfg (res s3) = res_cfg (res s)" using srt(8) mid(8) f1 by simp
  then have "res_list (res s3) = l3" using l3(1,3) by (simp add: res_cfg_def)
  then have "list_ready xs s3"
    using ready fields data srt(2,8) mid(7) \<open>ys3 = xs\<close> by (simp add: list_ready_def)
  moreover have "same_list xs s s3" using fields data cfg by (simp add: same_list_def)
  moreover have "core_bench_list fi s = Some (r3, s3)"
    using rounds(1) mid(1) rm srt(1) crc l3 by (simp add: core_bench_list_def Let_def)
  ultimately show ?thesis by blast
qed

text \<open>The outer loop writes only checksums between two runs.\<close>

definition checksums_only :: "core_results \<Rightarrow> core_results \<Rightarrow> bool" where
  "checksums_only r r' \<longleftrightarrow> memblock3 r' = memblock3 r \<and> res_cfg r' = res_cfg r"

lemma list_ready_checksums:
  assumes "checksums_only (res s) r" "list_ready xs s"
  shows "list_ready xs (s\<lparr>res := r\<rparr>)" "same_list xs s (s\<lparr>res := r\<rparr>)"
  using assms by (simp_all add: checksums_only_def list_ready_def same_list_def res_ok_def res_cfg_def)

lemma same_list_refl: "same_list xs s s"
  by (simp add: same_list_def)

lemma same_list_trans: "same_list xs s t \<Longrightarrow> same_list xs t u \<Longrightarrow> same_list xs s u"
  by (simp add: same_list_def)

lemma checksums_onlyI [simp]:
  "checksums_only r (r\<lparr>crc := v\<rparr>)" "checksums_only r (r\<lparr>crc := v, crclist := w\<rparr>)"
  "checksums_only r (r\<lparr>crc := v, crclist := w, crcmatrix := x, crcstate := y\<rparr>)"
  by (simp_all add: checksums_only_def res_cfg_def)

lemma iterate_body_run:
  assumes "list_ready xs s"
  shows "\<exists>s'. iterate_body first s = Some s' \<and> list_ready xs s' \<and> same_list xs s s'"
proof -
  obtain c1 s1 where 1: "core_bench_list 1 s = Some (c1, s1)" "list_ready xs s1" "same_list xs s s1"
    using core_bench_list_run [OF assms] by blast
  let ?s1 = "s1\<lparr>res := (res s1)\<lparr>crc := crcu16 c1 (crc (res s1))\<rparr>\<rparr>"
  note s1 = list_ready_checksums [OF checksums_onlyI(1) 1(2), of "crcu16 c1 (crc (res s1))"]
  obtain c2 s2 where 2: "core_bench_list (- 1) ?s1 = Some (c2, s2)" "list_ready xs s2" "same_list xs ?s1 s2"
    using core_bench_list_run [OF s1(1)] by blast
  let ?v = "crcu16 c2 (crc (res s2))"
  let ?s2 = "if first then s2\<lparr>res := (res s2)\<lparr>crc := ?v, crclist := ?v\<rparr>\<rparr> else s2\<lparr>res := (res s2)\<lparr>crc := ?v\<rparr>\<rparr>"
  have "list_ready xs ?s2" "same_list xs s2 ?s2"
    using list_ready_checksums [OF checksums_onlyI(1) 2(2)] list_ready_checksums [OF checksums_onlyI(2) 2(2)]
    by (cases first; simp)+
  moreover have "iterate_body first s = Some ?s2" using 1(1) 2(1) by (simp add: iterate_body_def Let_def)
  ultimately show ?thesis
    using same_list_trans [OF 1(3) same_list_trans [OF s1(2) 2(3)]] same_list_trans by blast
qed

lemma iterate_loop_run:
  "list_ready xs s \<Longrightarrow> \<exists>s'. iterate_loop n first s = Some s' \<and> list_ready xs s' \<and> same_list xs s s'"
proof (induction n arbitrary: first s)
  case (Suc n)
  obtain s1 where "iterate_body first s = Some s1" "list_ready xs s1" "same_list xs s s1"
    using iterate_body_run [OF Suc.prems] by blast
  moreover from Suc.IH [OF this(2)] obtain s2 where
    "iterate_loop n False s1 = Some s2" "list_ready xs s2" "same_list xs s1 s2" by blast
  ultimately show ?case using same_list_trans by auto
qed (simp add: same_list_refl)

section \<open>Properties\<close>

text \<open>
  C10. \<^verbatim>\<open>core_bench_list\<close> always returns from a list in its initial state, whatever it searches
  for and whether or not it sorts by computed values, and puts the list back: the
  same cells in the same order off \<^verbatim>\<open>res->list\<close>, with their data and indices, although it
  has reversed, relinked and sorted the list and overwritten the data in between.
\<close>

theorem core_bench_list_restores:
  assumes "list_ready xs s"
  shows "\<exists>r s'. core_bench_list finder_idx s = Some (r, s') \<and> list_ready xs s' \<and>
    is_list (nxt s') (res_list (res s)) xs \<and>
    (\<forall>x \<in> set xs. inf s' x = inf s x \<and> data16 s' (inf s x) = data16 s (inf s x) \<and>
       idx s' (inf s x) = idx s (inf s x))"
proof -
  obtain r s' where "core_bench_list finder_idx s = Some (r, s')" "list_ready xs s'" "same_list xs s s'"
    using core_bench_list_run [OF assms] by blast
  moreover from this have "is_list (nxt s') (res_list (res s)) xs"
    by (simp add: list_ready_def same_list_def res_cfg_def)
  ultimately show ?thesis by (simp add: same_list_def)
qed

definition demo_ready :: cstate where
  "demo_ready = (demo_state [8, 16, 24] [(0, 1), (0x0101, 5), (0x0202, 9)]
     (demo_results\<lparr>seed3 := 3\<rparr>))"

lemma list_ready_demo: "list_ready [8, 16, 24] demo_ready"
  by (simp add: list_ready_def demo_ready_def demo_state_def demo_results_def res_ok_def block_ok_def regen_def)

theorem core_bench_list_restores_witness:
  "\<exists>r s'. core_bench_list 1 demo_ready = Some (r, s') \<and> is_list (nxt s') 8 [8, 16, 24]"
  using core_bench_list_restores [OF list_ready_demo, of 1]
  by (auto simp: demo_ready_def demo_state_def demo_results_def)

lemma iterate_same:
  assumes "list_ready xs s"
  shows "\<exists>s'. iterate s = Some s' \<and> list_ready xs s' \<and> same_list xs s s'"
proof -
  let ?r = "(res s)\<lparr>crc := 0, crclist := 0, crcmatrix := 0, crcstate := 0\<rparr>"
  note s0 = list_ready_checksums [OF checksums_onlyI(3) assms, of 0 0 0 0]
  obtain s' where s': "iterate s = Some s'" "list_ready xs s'" "same_list xs (s\<lparr>res := ?r\<rparr>) s'"
    using iterate_loop_run [OF s0(1)] by (fastforce simp: iterate_def Let_def)
  then show ?thesis using same_list_trans [OF s0(2) s'(3)] by blast
qed

text \<open>
  C20. \<^verbatim>\<open>iterate\<close> returns for every number of iterations, and leaves the list as it found it,
  so every iteration works on the same list.
\<close>

theorem iterate_returns:
  assumes "list_ready xs s"
  shows "\<exists>s'. iterate s = Some s' \<and> list_ready xs s' \<and> is_list (nxt s') (res_list (res s)) xs"
  using iterate_same [OF assms] by (auto simp: list_ready_def same_list_def res_cfg_def)

theorem iterate_returns_witness:
  "\<exists>s'. iterate demo_ready = Some s' \<and> list_ready [8, 16, 24] s'"
  using iterate_returns [OF list_ready_demo] by blast

end
