(* ===== verification/EePrintf.thy ===== *)
theory EePrintf
  imports Uart
begin

text \<open>
  The formatted output of the CoreMark port, \<^verbatim>\<open>fpga/coremark/ee_printf.c\<close>: conversion of
  numbers and addresses, the interpreter of format strings and the output through the serial
  port. Strings are lists of characters without the terminating zero; the variable
  arguments are a list, and taking one that is not there or is of another kind is \<^const>\<open>None\<close>. \<^verbatim>\<open>long\<close> and \<^verbatim>\<open>int\<close>
  have 32 bits; field widths and precisions are unbounded integers. Floating point values and the
  digit conversion of \<^verbatim>\<open>cvt.c\<close> are parameters.
\<close>

section \<open>Flags and digits\<close>

definition ZEROPAD :: u32 where "ZEROPAD = push_bit 0 1"
definition SIGN :: u32 where "SIGN = push_bit 1 1"
definition PLUS :: u32 where "PLUS = push_bit 2 1"
definition SPACE :: u32 where "SPACE = push_bit 3 1"
definition LEFT :: u32 where "LEFT = push_bit 4 1"
definition HEX_PREP :: u32 where "HEX_PREP = push_bit 5 1"
definition UPPERCASE :: u32 where "UPPERCASE = push_bit 6 1"

lemmas flag_defs = ZEROPAD_def SIGN_def PLUS_def SPACE_def LEFT_def HEX_PREP_def UPPERCASE_def

abbreviation flag :: "u32 \<Rightarrow> u32 \<Rightarrow> bool" where
  "flag t f \<equiv> t AND f \<noteq> 0"

definition is_digit :: "char \<Rightarrow> bool" where
  "is_digit c \<longleftrightarrow> of_char c \<ge> (48 :: nat) \<and> of_char c \<le> (57 :: nat)"

definition digits :: string where "digits = ''0123456789abcdefghijklmnopqrstuvwxyz''"
definition upper_digits :: string where "upper_digits = ''0123456789ABCDEFGHIJKLMNOPQRSTUVWXYZ''"

fun strnlen :: "string \<Rightarrow> u32 \<Rightarrow> nat" where
  "strnlen [] count = 0"
| "strnlen (c # cs) count = (if count \<noteq> 0 then Suc (strnlen cs (count - 1)) else 0)"

text \<open>\<^verbatim>\<open>skip_atoi\<close>: the number and the rest of the string.\<close>

fun atoi_loop :: "int \<Rightarrow> string \<Rightarrow> int \<times> string" where
  "atoi_loop i [] = (i, [])"
| "atoi_loop i (c # cs) = (if is_digit c then atoi_loop (i * 10 + of_char c - 48) cs else (i, c # cs))"

definition skip_atoi :: "string \<Rightarrow> int \<times> string" where
  "skip_atoi s = atoi_loop 0 s"

section \<open>Padding loops\<close>

text \<open>\<^verbatim>\<open>while (size-- > 0) *str++ = c\<close>: the final \<open>size\<close> and the characters.\<close>

function pad_loop :: "char \<Rightarrow> int \<Rightarrow> int \<times> string" where
  "pad_loop c size0 = (if size0 > 0 then (let (sz, cs) = pad_loop c (size0 - 1) in (sz, c # cs)) else (size0 - 1, []))"
  by pat_completeness auto
termination by (relation "measure (\<lambda>(c, size0). nat size0)") auto

text \<open>\<^verbatim>\<open>while (len < size--) *str++ = ' '\<close>.\<close>

function fill_loop :: "int \<Rightarrow> int \<Rightarrow> int \<times> string" where
  "fill_loop len size0 =
     (if len < size0 then (let (sz, cs) = fill_loop len (size0 - 1) in (sz, CHR '' '' # cs)) else (size0 - 1, []))"
  by pat_completeness auto
termination by (relation "measure (\<lambda>(len, size0). nat (size0 - len))") auto

text \<open>\<^verbatim>\<open>while (i < precision--) *str++ = '0'\<close>.\<close>

function zero_digits :: "int \<Rightarrow> int \<Rightarrow> string" where
  "zero_digits i precision = (if i < precision then CHR ''0'' # zero_digits i (precision - 1) else [])"
  by pat_completeness auto
termination by (relation "measure (\<lambda>(i, precision). nat (precision - i))") auto

section \<open>Numbers\<close>

function digit_loop :: "string \<Rightarrow> u32 \<Rightarrow> u32 \<Rightarrow> string" where
  "digit_loop dig radix num =
     (if num = 0 \<or> unat radix < 2 then [] else dig ! unat (num mod radix) # digit_loop dig radix (num div radix))"
  by pat_completeness auto
termination
  by (relation "measure (\<lambda>(dig, radix, num). unat num)") (auto simp: unat_div unat_gt_0 intro!: div_less_dividend)

declare pad_loop.simps [simp del] fill_loop.simps [simp del] zero_digits.simps [simp del] digit_loop.simps [simp del]

definition sign_part :: "u32 \<Rightarrow> u32 \<Rightarrow> int \<Rightarrow> string \<times> u32 \<times> int" where
  "sign_part type num size0 =
     (if flag type SIGN then
        (if num <s 0 then (''-'', - num, size0 - 1)
         else if flag type PLUS then (''+'', num, size0 - 1)
         else if flag type SPACE then ('' '', num, size0 - 1)
         else ([], num, size0))
      else ([], num, size0))"

text \<open>The prefix of the alternate form, and the part that writes the characters.\<close>

definition hex_prep :: "u32 \<Rightarrow> int \<Rightarrow> string" where
  "hex_prep type radix =
     (if flag type HEX_PREP then (if radix = 8 then ''0'' else if radix = 16 then [CHR ''0'', digits ! 33] else []) else [])"

definition emit_number :: "u32 \<Rightarrow> string \<Rightarrow> string \<Rightarrow> string \<Rightarrow> int \<Rightarrow> int \<Rightarrow> string" where
  "emit_number type sign prep tmp size0 precision =
     (let c = (if flag type ZEROPAD then CHR ''0'' else CHR '' '');
          i = int (length tmp);
          precision = (if i > precision then i else precision);
          size0 = size0 - precision;
          (size0, spaces) = (if \<not> flag type (ZEROPAD OR LEFT) then pad_loop (CHR '' '') size0 else (size0, []));
          (size0, fill) = (if \<not> flag type LEFT then pad_loop c size0 else (size0, []));
          zeros = zero_digits i precision;
          (size0, rest) = pad_loop (CHR '' '') size0
      in spaces @ sign @ prep @ fill @ zeros @ rev tmp @ rest)"

definition number :: "u32 \<Rightarrow> int \<Rightarrow> int \<Rightarrow> int \<Rightarrow> u32 \<Rightarrow> string option" where
  "number num radix size0 precision type =
     (let dig = (if flag type UPPERCASE then upper_digits else digits);
          type = (if flag type LEFT then type AND NOT ZEROPAD else type)
      in if radix < 2 \<or> radix > 36 then None
         else (let (sign, num, size0) = sign_part type num size0;
                   size0 = (if flag type HEX_PREP then (if radix = 16 then size0 - 2 else if radix = 8 then size0 - 1 else size0)
                            else size0);
                   tmp = (if num = 0 then ''0'' else digit_loop dig (word_of_int radix) num)
               in Some (emit_number type sign (hex_prep type radix) tmp size0 precision)))"

section \<open>Hardware and network addresses\<close>

fun eaddr_tmp :: "string \<Rightarrow> u8 list \<Rightarrow> string" where
  "eaddr_tmp dig [] = []"
| "eaddr_tmp dig [b] = [dig ! unat (drop_bit 4 b), dig ! unat (b AND 0x0F)]"
| "eaddr_tmp dig (b # bs) = [dig ! unat (drop_bit 4 b), dig ! unat (b AND 0x0F), CHR '':''] @ eaddr_tmp dig bs"

text \<open>The padding both address formats share.\<close>

definition place :: "string \<Rightarrow> int \<Rightarrow> u32 \<Rightarrow> string" where
  "place tmp size0 type =
     (let len = int (length tmp);
          (size0, before) = (if \<not> flag type LEFT then fill_loop len size0 else (size0, []));
          (size0, behind) = fill_loop len size0
      in before @ tmp @ behind)"

definition eaddr :: "u8 list \<Rightarrow> int \<Rightarrow> u32 \<Rightarrow> string" where
  "eaddr addr size0 type =
     place (eaddr_tmp (if flag type UPPERCASE then upper_digits else digits) (take 6 addr)) size0 type"

definition octet :: "u8 \<Rightarrow> string" where
  "octet b =
     (let n = unat b
      in if n = 0 then [digits ! 0]
         else if n \<ge> 100 then [digits ! (n div 100), digits ! (n mod 100 div 10), digits ! (n mod 100 mod 10)]
         else if n \<ge> 10 then [digits ! (n div 10), digits ! (n mod 10)]
         else [digits ! n])"

fun iaddr_tmp :: "u8 list \<Rightarrow> string" where
  "iaddr_tmp [] = []"
| "iaddr_tmp [b] = octet b"
| "iaddr_tmp (b # bs) = octet b @ CHR ''.'' # iaddr_tmp bs"

definition iaddr :: "u8 list \<Rightarrow> int \<Rightarrow> u32 \<Rightarrow> string" where
  "iaddr addr size0 type = place (iaddr_tmp (take 4 addr)) size0 type"

section \<open>Floating point output\<close>

text \<open>
  The operations on \<^verbatim>\<open>double\<close> values: sign test, negation, comparison with zero, and the two
  digit conversions, which return the digits, the position of the decimal point and the sign
  (\<^const>\<open>None\<close> when they run over their buffer).
\<close>

record 'd flops =
  fl_neg :: "'d \<Rightarrow> bool"
  fl_minus :: "'d \<Rightarrow> 'd"
  fl_zero :: "'d \<Rightarrow> bool"
  ecvtbuf :: "'d \<Rightarrow> int \<Rightarrow> (string \<times> int \<times> bool) option"
  fcvtbuf :: "'d \<Rightarrow> int \<Rightarrow> (string \<times> int \<times> bool) option"

fun dot_digits :: "int \<Rightarrow> int \<Rightarrow> string \<Rightarrow> string" where
  "dot_digits pos decpt [] = []"
| "dot_digits pos decpt (d # ds) = (if pos = decpt then [CHR ''.''] else []) @ d # dot_digits (pos + 1) decpt ds"

definition digit_char :: "int \<Rightarrow> char" where
  "digit_char d = char_of (nat (d + 48))"

text \<open>
  \<^verbatim>\<open>ee_bufcpy\<close> of the string behind a pointer: \<^const>\<open>None\<close> when it reads beyond the string, as for a negative count,
  whose loop does not meet its end.
\<close>

definition ee_bufcpy :: "string \<Rightarrow> int \<Rightarrow> string option" where
  "ee_bufcpy ps count = (if count < 0 \<or> int (length ps) < count then None else Some (take (nat count) ps))"

definition exp_format :: "'d flops \<Rightarrow> 'd \<Rightarrow> bool \<Rightarrow> int \<Rightarrow> string option" where
  "exp_format fl value capexp precision =
     (do {
        (ds, decpt, sign) \<leftarrow> ecvtbuf fl value (precision + 1);
        if ds = [] then None
        else do {
          copied \<leftarrow> ee_bufcpy (tl ds) precision;
          (let exp = (if decpt = 0 then (if fl_zero fl value then 0 else -1) else decpt - 1);
                   (esign, exp) = (if exp < 0 then (CHR ''-'', - exp) else (CHR ''+'', exp))
               in Some ((if sign then ''-'' else []) @ [hd ds] @ (if precision > 0 then ''.'' else []) @
                    copied @ [if capexp then CHR ''E'' else CHR ''e'', esign,
                      digit_char (exp div 10 div 10 mod 10), digit_char (exp div 10 mod 10), digit_char (exp mod 10)]))
        }
      })"

definition fix_format :: "'d flops \<Rightarrow> 'd \<Rightarrow> int \<Rightarrow> string option" where
  "fix_format fl value precision =
     (do {
        (ds, decpt, sign) \<leftarrow> fcvtbuf fl value precision;
        Some ((if sign then ''-'' else []) @
         (if ds \<noteq> [] then
            (if decpt \<le> 0 then ''0.'' @ replicate (nat (- decpt)) (CHR ''0'') @ ds else dot_digits 0 decpt ds)
          else ''0'' @ (if precision > 0 then CHR ''.'' # replicate (nat precision) (CHR ''0'') else [])))
      })"

definition parse_float :: "'d flops \<Rightarrow> 'd \<Rightarrow> char \<Rightarrow> int \<Rightarrow> string option" where
  "parse_float fl value fmt precision = do {
     let capexp = (fmt = CHR ''G'' \<or> fmt = CHR ''E'');
     let fmt = (if fmt = CHR ''G'' then CHR ''g'' else if fmt = CHR ''E'' then CHR ''e'' else fmt);
     (fmt, precision) \<leftarrow>
       (if fmt = CHR ''g'' then do {
          (_, decpt, _) \<leftarrow> ecvtbuf fl value precision;
          let magnitude = decpt - 1;
          Some (if magnitude < -4 \<or> magnitude > precision - 1 then (CHR ''e'', precision - 1)
                else (CHR ''f'', precision - decpt))
        } else Some (fmt, precision));
     if fmt = CHR ''e'' then exp_format fl value capexp precision
     else if fmt = CHR ''f'' then fix_format fl value precision
     else Some []
   }"

text \<open>
  In \<^verbatim>\<open>decimal_point\<close> the loop that makes room moves the characters behind the exponent letter, and the
  point then overwrites the letter; the buffer has 80 characters, so the limit of 256 is never reached.
\<close>

fun decimal_point :: "string \<Rightarrow> string" where
  "decimal_point [] = ''.''"
| "decimal_point (c # cs) =
     (if c = CHR ''.'' then c # cs
      else if c = CHR ''e'' \<or> c = CHR ''E'' then CHR ''.'' # take 1 cs @ cs
      else c # decimal_point cs)"

text \<open>\<^verbatim>\<open>cropzeros\<close> ends the string behind the last digit it keeps.\<close>

definition cropzeros :: "string \<Rightarrow> string" where
  "cropzeros s =
     (let whole = takeWhile (\<lambda>c. c \<noteq> CHR ''.'') s
      in case dropWhile (\<lambda>c. c \<noteq> CHR ''.'') s of
           [] \<Rightarrow> s
         | _ # behind \<Rightarrow>
             (let frac = takeWhile (\<lambda>c. c \<noteq> CHR ''e'' \<and> c \<noteq> CHR ''E'') behind;
                  kept = rev (dropWhile (\<lambda>c. c = CHR ''0'') (rev frac))
              in if kept = [] then whole else whole @ CHR ''.'' # kept))"

definition flt :: "'d flops \<Rightarrow> 'd \<Rightarrow> int \<Rightarrow> int \<Rightarrow> char \<Rightarrow> u32 \<Rightarrow> string option" where
  "flt fl num size0 precision fmt flags =
     (let flags = (if flag flags LEFT then flags AND NOT ZEROPAD else flags);
          c = (if flag flags ZEROPAD then CHR ''0'' else CHR '' '');
          (sign, num, size0) =
            (if flag flags SIGN then
               (if fl_neg fl num then (''-'', fl_minus fl num, size0 - 1)
                else if flag flags PLUS then (''+'', num, size0 - 1)
                else if flag flags SPACE then ('' '', num, size0 - 1)
                else ([], num, size0))
             else ([], num, size0));
          precision = (if precision < 0 then 6 else precision)
      in do {
        tmp \<leftarrow> parse_float fl num fmt precision;
        let tmp = (if flag flags HEX_PREP \<and> precision = 0 then decimal_point tmp else tmp);
        let tmp = (if fmt = CHR ''g'' \<and> \<not> flag flags HEX_PREP then cropzeros tmp else tmp);
        let n = strnlen tmp 256;
        let size0 = size0 - int n;
        let (size0, spaces) = (if \<not> flag flags (ZEROPAD OR LEFT) then pad_loop (CHR '' '') size0 else (size0, []));
        let (size0, fill) = (if \<not> flag flags LEFT then pad_loop c size0 else (size0, []));
        let (size0, rest) = pad_loop (CHR '' '') size0;
        Some (spaces @ sign @ fill @ take n tmp @ rest)
      })"

section \<open>Format strings\<close>

datatype 'd arg = AInt u32 | APtr u32 | AStr "string option" | AAddr "u8 list" | AFloat 'd

fun parse_flags :: "u32 \<Rightarrow> string \<Rightarrow> u32 \<times> string" where
  "parse_flags flags [] = (flags, [])"
| "parse_flags flags (c # cs) =
     (if c = CHR ''-'' then parse_flags (flags OR LEFT) cs
      else if c = CHR ''+'' then parse_flags (flags OR PLUS) cs
      else if c = CHR '' '' then parse_flags (flags OR SPACE) cs
      else if c = CHR ''#'' then parse_flags (flags OR HEX_PREP) cs
      else if c = CHR ''0'' then parse_flags (flags OR ZEROPAD) cs
      else (flags, c # cs))"

fun take_int :: "'d arg list \<Rightarrow> (u32 \<times> 'd arg list) option" where
  "take_int (AInt w # args) = Some (w, args)"
| "take_int _ = None"

definition parse_width :: "u32 \<Rightarrow> string \<Rightarrow> 'd arg list \<Rightarrow> (int \<times> u32 \<times> string \<times> 'd arg list) option" where
  "parse_width flags fmt args =
     (case fmt of
        [] \<Rightarrow> Some (-1, flags, [], args)
      | c # cs \<Rightarrow>
          if is_digit c then (let (w, fmt) = skip_atoi fmt in Some (w, flags, fmt, args))
          else if c = CHR ''*'' then do {
            (w, args) \<leftarrow> take_int args;
            if sint w < 0 then Some (- sint w, flags OR LEFT, cs, args) else Some (sint w, flags, cs, args)
          }
          else Some (-1, flags, fmt, args))"

definition parse_precision :: "string \<Rightarrow> 'd arg list \<Rightarrow> (int \<times> string \<times> 'd arg list) option" where
  "parse_precision fmt args =
     (case fmt of
        [] \<Rightarrow> Some (-1, [], args)
      | c # cs \<Rightarrow>
          if c = CHR ''.'' then do {
            (p, fmt, args) \<leftarrow>
              (case cs of
                 [] \<Rightarrow> Some (-1, [], args)
               | d # ds \<Rightarrow>
                   if is_digit d then (let (p, fmt) = skip_atoi cs in Some (p, fmt, args))
                   else if d = CHR ''*'' then do { (p, args) \<leftarrow> take_int args; Some (sint p, ds, args) }
                   else Some (-1, cs, args));
            Some (if p < 0 then 0 else p, fmt, args)
          }
          else Some (-1, fmt, args))"

definition parse_qualifier :: "string \<Rightarrow> char option \<times> string" where
  "parse_qualifier fmt =
     (case fmt of
        [] \<Rightarrow> (None, [])
      | c # cs \<Rightarrow> if c = CHR ''l'' \<or> c = CHR ''L'' then (Some c, cs) else (None, fmt))"

text \<open>\<^verbatim>\<open>while (--field_width > 0) *str++ = ' '\<close>.\<close>

function width_loop :: "int \<Rightarrow> int \<times> string" where
  "width_loop w = (if w - 1 > 0 then (let (w, cs) = width_loop (w - 1) in (w, CHR '' '' # cs)) else (w - 1, []))"
  by pat_completeness auto
termination by (relation "measure nat") auto

declare width_loop.simps [simp del]

definition char_field :: "u32 \<Rightarrow> int \<Rightarrow> u32 \<Rightarrow> string" where
  "char_field v width flags =
     (let (width, before) = (if \<not> flag flags LEFT then width_loop width else (width, []));
          (width, behind) = width_loop width
      in before @ char_of (unat v mod 256) # behind)"

definition string_field :: "string option \<Rightarrow> int \<Rightarrow> int \<Rightarrow> u32 \<Rightarrow> string" where
  "string_field s width precision flags =
     (let s = (case s of None \<Rightarrow> ''<NULL>'' | Some s \<Rightarrow> s)
      in place (take (strnlen s (word_of_int precision)) s) width flags)"

definition int_field :: "int \<Rightarrow> int \<Rightarrow> int \<Rightarrow> u32 \<Rightarrow> 'd arg list \<Rightarrow> (string \<times> 'd arg list) option" where
  "int_field radix width precision flags args = do {
     (num, args) \<leftarrow> take_int args;
     out \<leftarrow> number num radix width precision flags;
     Some (out, args)
   }"

text \<open>The conversion at the head of \<open>fmt\<close>: the output, the rest of the format and of the arguments.\<close>

definition conversion ::
    "'d flops \<Rightarrow> u32 \<Rightarrow> int \<Rightarrow> int \<Rightarrow> char option \<Rightarrow> string \<Rightarrow> 'd arg list \<Rightarrow> (string \<times> string \<times> 'd arg list) option" where
  "conversion fl flags width precision qualifier fmt args =
     (case fmt of
        [] \<Rightarrow> Some (''%'', [], args)
      | c # cs \<Rightarrow>
          if c = CHR ''c'' then do { (v, args) \<leftarrow> take_int args; Some (char_field v width flags, cs, args) }
          else if c = CHR ''s'' then
            (case args of AStr s # args \<Rightarrow> Some (string_field s width precision flags, cs, args) | _ \<Rightarrow> None)
          else if c = CHR ''p'' then
            (case args of
               APtr p # args \<Rightarrow>
                 (let (width, flags) = (if width = -1 then (8, flags OR ZEROPAD) else (width, flags))
                  in do { out \<leftarrow> number p 16 width precision flags; Some (out, cs, args) })
             | _ \<Rightarrow> None)
          else if c = CHR ''A'' \<or> c = CHR ''a'' then
            (case args of
               AAddr a # args \<Rightarrow>
                 (let flags = (if c = CHR ''A'' then flags OR UPPERCASE else flags)
                  in if qualifier = Some (CHR ''l'')
                     then (if length a < 6 then None else Some (eaddr a width flags, cs, args))
                     else (if length a < 4 then None else Some (iaddr a width flags, cs, args)))
             | _ \<Rightarrow> None)
          else if c = CHR ''o'' then do { (out, args) \<leftarrow> int_field 8 width precision flags args; Some (out, cs, args) }
          else if c = CHR ''X'' then do {
            (out, args) \<leftarrow> int_field 16 width precision (flags OR UPPERCASE) args; Some (out, cs, args) }
          else if c = CHR ''x'' then do { (out, args) \<leftarrow> int_field 16 width precision flags args; Some (out, cs, args) }
          else if c = CHR ''d'' \<or> c = CHR ''i'' then do {
            (out, args) \<leftarrow> int_field 10 width precision (flags OR SIGN) args; Some (out, cs, args) }
          else if c = CHR ''u'' then do { (out, args) \<leftarrow> int_field 10 width precision flags args; Some (out, cs, args) }
          else if c = CHR ''f'' then
            (case args of
               AFloat v # args \<Rightarrow> do { out \<leftarrow> flt fl v width precision c (flags OR SIGN); Some (out, cs, args) }
             | _ \<Rightarrow> None)
          else Some ((if c \<noteq> CHR ''%'' then ''%'' else []) @ [c], cs, args))"

definition directive :: "'d flops \<Rightarrow> string \<Rightarrow> 'd arg list \<Rightarrow> (string \<times> string \<times> 'd arg list) option" where
  "directive fl fmt args =
     (let (flags, fmt) = parse_flags 0 fmt
      in do {
        (width, flags, fmt, args) \<leftarrow> parse_width flags fmt args;
        (precision, fmt, args) \<leftarrow> parse_precision fmt args;
        let (qualifier, fmt) = parse_qualifier fmt;
        conversion fl flags width precision qualifier fmt args
      })"

lemma parse_flags_length: "parse_flags f s = (f', r) \<Longrightarrow> length r \<le> length s"
  by (induction f s rule: parse_flags.induct) (auto split: if_splits)

lemma atoi_loop_length: "atoi_loop i s = (n, r) \<Longrightarrow> length r \<le> length s"
  by (induction i s rule: atoi_loop.induct) (auto split: if_splits)

lemma conversion_length: "conversion fl f w p q s args = Some (out, r, args') \<Longrightarrow> length r \<le> length s"
  unfolding conversion_def
  by (auto simp: bind_eq_Some_conv Let_def split: list.splits if_splits arg.splits)

lemma parse_width_length: "parse_width f s args = Some (w, f', r, args') \<Longrightarrow> length r \<le> length s"
  by (auto simp: parse_width_def bind_eq_Some_conv skip_atoi_def split: list.splits if_splits prod.splits
      dest!: atoi_loop_length)

lemma parse_precision_length: "parse_precision s args = Some (p, r, args') \<Longrightarrow> length r \<le> length s"
  by (auto simp: parse_precision_def bind_eq_Some_conv skip_atoi_def split: list.splits if_splits prod.splits
      dest!: atoi_loop_length)

lemma directive_length:
  assumes "directive fl s args = Some (out, r, args')"
  shows "length r \<le> length s"
proof -
  obtain f s1 where 1: "parse_flags 0 s = (f, s1)" by (cases "parse_flags 0 s")
  obtain w f' s2 a2 p s3 a3 where 2: "parse_width f s1 args = Some (w, f', s2, a2)"
      "parse_precision s2 a2 = Some (p, s3, a3)"
      "(let (q, s4) = parse_qualifier s3 in conversion fl f' w p q s4 a3) = Some (out, r, args')"
    using assms 1 by (auto simp: directive_def bind_eq_Some_conv)
  obtain q s4 where 3: "parse_qualifier s3 = (q, s4)" by (cases "parse_qualifier s3")
  then have "length s4 \<le> length s3" by (auto simp: parse_qualifier_def split: list.splits if_splits)
  with 3 2 show ?thesis
    using parse_flags_length [OF 1] parse_width_length [OF 2(1)] parse_precision_length [OF 2(2)]
      conversion_length [of fl f' w p q s4 a3 out r args'] by simp
qed

function vsprintf :: "'d flops \<Rightarrow> string \<Rightarrow> 'd arg list \<Rightarrow> string option" where
  "vsprintf fl [] args = Some []"
| "vsprintf fl (c # fmt) args =
     (if c \<noteq> CHR ''%'' then map_option ((#) c) (vsprintf fl fmt args)
      else case directive fl fmt args of
             None \<Rightarrow> None
           | Some (out, rest, args') \<Rightarrow> map_option ((@) out) (vsprintf fl rest args'))"
  by pat_completeness auto
termination
  by (relation "measure (\<lambda>(fl, fmt, args). length fmt)") (auto simp: less_Suc_eq_le dest: directive_length)

text \<open>\<^verbatim>\<open>ee_vsprintf\<close>: the contents of the buffer up to its terminating zero, and the return value.\<close>

definition ee_vsprintf :: "'d flops \<Rightarrow> string \<Rightarrow> 'd arg list \<Rightarrow> (string \<times> nat) option" where
  "ee_vsprintf fl fmt args = do { out \<leftarrow> vsprintf fl fmt args; Some (out, length out) }"

section \<open>Output\<close>

definition UART_TX_DATA :: u32 where "UART_TX_DATA = 0x40001000"
definition UART_TX_STATUS :: u32 where "UART_TX_STATUS = 0x40001004"

definition uart_send_char :: "uart_env \<Rightarrow> char \<Rightarrow> 'i uart_sys \<Rightarrow> 'i uart_sys option" where
  "uart_send_char env c s = tx_poll env UART_TX_STATUS UART_TX_DATA (of_char c) s"

fun send_loop :: "uart_env \<Rightarrow> string \<Rightarrow> nat \<Rightarrow> 'i uart_sys \<Rightarrow> (nat \<times> 'i uart_sys) option" where
  "send_loop env [] n s = Some (n, s)"
| "send_loop env (c # cs) n s =
     (if c = char_of (0 :: nat) then Some (n, s) else do { s \<leftarrow> uart_send_char env c s; send_loop env cs (n + 1) s })"

text \<open>The buffer has 1024 bytes; more output than fits is \<^const>\<open>None\<close>.\<close>

definition ee_printf :: "'d flops \<Rightarrow> uart_env \<Rightarrow> string \<Rightarrow> 'd arg list \<Rightarrow> 'i uart_sys \<Rightarrow> (nat \<times> 'i uart_sys) option" where
  "ee_printf fl env fmt args s = do {
     (buf, len) \<leftarrow> ee_vsprintf fl fmt args;
     if 1024 \<le> len then None else send_loop env buf 0 s
   }"

section \<open>Loops in closed form\<close>

lemma pad_loop_eq: "pad_loop c n = (min n 0 - 1, replicate (nat n) c)"
proof (induction c n rule: pad_loop.induct)
  case (1 c n)
  show ?case
  proof (cases "n > 0")
    case True
    then have "nat n = Suc (nat (n - 1))" by simp
    with 1 True show ?thesis by (subst pad_loop.simps) simp
  qed (subst pad_loop.simps, simp)
qed

lemma fill_loop_eq: "fill_loop len n = (min n len - 1, replicate (nat (n - len)) (CHR '' ''))"
proof (induction len n rule: fill_loop.induct)
  case (1 len n)
  show ?case
  proof (cases "len < n")
    case True
    then have "nat (n - len) = Suc (nat (n - 1 - len))" by simp
    with 1 True show ?thesis by (subst fill_loop.simps) simp
  qed (subst fill_loop.simps, simp)
qed

lemma zero_digits_eq: "zero_digits i p = replicate (nat (p - i)) (CHR ''0'')"
proof (induction i p rule: zero_digits.induct)
  case (1 i p)
  show ?case
  proof (cases "i < p")
    case True
    then have "nat (p - i) = Suc (nat (p - 1 - i))" by simp
    with 1 True show ?thesis by (subst zero_digits.simps) simp
  qed (subst zero_digits.simps, simp)
qed

lemma width_loop_eq: "width_loop w = (min w 1 - 1, replicate (nat (w - 1)) (CHR '' ''))"
proof (induction w rule: width_loop.induct)
  case (1 w)
  show ?case
  proof (cases "w - 1 > 0")
    case True
    then have "nat (w - 1) = Suc (nat (w - 1 - 1))" by simp
    with 1 True show ?thesis by (subst width_loop.simps) simp
  qed (subst width_loop.simps, simp)
qed

lemma strnlen_eq: "strnlen s n = min (length s) (unat n)"
proof (induction s n rule: strnlen.induct)
  case (2 c cs n)
  show ?case
  proof (cases "n = 0")
    case False
    then obtain k where "unat n = Suc k" by (metis not0_implies_Suc unat_eq_zero)
    with 2 False show ?thesis by (simp add: unat_minus_one)
  qed simp
qed simp

lemma flag_bit: "n < 32 \<Longrightarrow> (t AND push_bit n 1 \<noteq> 0) = bit t n" for t :: u32
proof -
  assume "n < 32"
  then have "bit (t AND push_bit n 1) k \<longleftrightarrow> k = n \<and> bit t n" for k by (auto simp: bit_simps)
  then show ?thesis by (metis bit_0_eq bot_apply bot_bool_def bit_eqI)
qed

section \<open>Digits\<close>

definition digit_val :: "char \<Rightarrow> nat" where
  "digit_val c = (if is_digit c then of_char c - 48 else if of_char c \<ge> (97 :: nat) then of_char c - 87 else of_char c - 55)"

definition read_digits :: "nat \<Rightarrow> string \<Rightarrow> nat" where
  "read_digits b s = foldl (\<lambda>v c. v * b + digit_val c) 0 s"

lemma digit_tables:
  "list_all (\<lambda>n. digit_val (digits ! n) = n \<and> digit_val (upper_digits ! n) = n) [0..<36]"
  by code_simp

lemma digit_val_nth: "n < 36 \<Longrightarrow> digit_val (digits ! n) = n" "n < 36 \<Longrightarrow> digit_val (upper_digits ! n) = n"
  using digit_tables by (auto simp: list_all_iff)

lemma read_digits_snoc: "read_digits b (s @ [c]) = read_digits b s * b + digit_val c"
  by (simp add: read_digits_def)

lemma digit_loop_value:
  assumes "2 \<le> unat b" "unat b \<le> 36" "dig = digits \<or> dig = upper_digits"
  shows "read_digits (unat b) (rev (digit_loop dig b num)) = unat num"
  using assms
proof (induction dig b num rule: digit_loop.induct)
  case (1 dig b num)
  show ?case
  proof (cases "num = 0")
    case False
    have "unat num mod unat b < unat b" using 1(2) by (intro mod_less_divisor) simp
    then have "unat (num mod b) < 36" using 1(3) by (simp add: unat_mod)
    then have "digit_val (dig ! unat (num mod b)) = unat (num mod b)" using 1(4) digit_val_nth by auto
    with False 1 show ?thesis
      by (subst digit_loop.simps) (simp add: read_digits_snoc unat_div unat_mod)
  qed (simp add: digit_loop.simps read_digits_def)
qed

lemma digit_loop_nonempty: "num \<noteq> 0 \<Longrightarrow> 2 \<le> unat b \<Longrightarrow> digit_loop dig b num \<noteq> []"
  by (subst digit_loop.simps) simp

section \<open>The layout of a number\<close>

text \<open>
  What is to be printed, from the flags and the integer the argument stands for: the value, its sign, the radix prefix and the letters.
\<close>

definition shown :: "u32 \<Rightarrow> u32 \<Rightarrow> int" where
  "shown type num = (if flag type SIGN then sint num else uint num)"

definition sign_of :: "u32 \<Rightarrow> u32 \<Rightarrow> string" where
  "sign_of type num =
     (if shown type num < 0 then ''-'' else if \<not> flag type SIGN then []
      else if flag type PLUS then ''+'' else if flag type SPACE then '' '' else [])"

definition radix_prefix :: "u32 \<Rightarrow> int \<Rightarrow> string" where
  "radix_prefix type radix =
     (if flag type HEX_PREP \<and> radix = 16 then ''0x'' else if flag type HEX_PREP \<and> radix = 8 then ''0'' else [])"

definition letters :: "u32 \<Rightarrow> string" where
  "letters type = (if flag type UPPERCASE then ''ABCDEFGHIJKLMNOPQRSTUVWXYZ'' else ''abcdefghijklmnopqrstuvwxyz'')"

definition magnitude :: "u32 \<Rightarrow> u32 \<Rightarrow> u32" where
  "magnitude type num = (if flag type SIGN \<and> num <s 0 then - num else num)"

definition digits_of :: "u32 \<Rightarrow> int \<Rightarrow> u32 \<Rightarrow> string" where
  "digits_of type radix num =
     (if num = 0 then ''0'' else rev (digit_loop (if flag type UPPERCASE then upper_digits else digits) (word_of_int radix) num))"

lemma sign_part_eq:
  "sign_part type num n = (sign_of type num, magnitude type num, n - int (length (sign_of type num)))"
  by (auto simp: sign_part_def sign_of_def shown_def magnitude_def word_sless_alt)

lemma magnitude_shown: "int (unat (magnitude type num)) = \<bar>shown type num\<bar>"
proof (cases "flag type SIGN \<and> sint num < 0")
  case True
  then have "magnitude type num = word_of_int (- sint num)" by (simp add: magnitude_def word_sless_alt)
  moreover have "0 \<le> - sint num" "- sint num < 2 ^ 32" using True sint_ge [of num] by simp_all
  then have "uint (word_of_int (- sint num) :: u32) = - sint num"
    unfolding uint_word_of_int by (simp only: mod_pos_pos_trivial len_num1 len_bit0 mult_1_right) simp
  moreover have "\<bar>shown type num\<bar> = - sint num" using True by (simp add: shown_def)
  ultimately show ?thesis using True by (simp only: unat_eq_nat_uint)
next
  case False
  have "uint num = sint num" if "0 \<le> sint num"
  proof -
    have "uint num = uint (word_of_int (sint num) :: u32)" by simp
    also have "\<dots> = sint num"
      using that sint_lt [of num] unfolding uint_word_of_int by (intro mod_pos_pos_trivial) simp_all
    finally show ?thesis .
  qed
  moreover have "magnitude type num = num" using False by (auto simp: magnitude_def word_sless_alt)
  ultimately show ?thesis using False by (auto simp: shown_def)
qed

lemma hex_prep_prefix: "hex_prep type radix = radix_prefix type radix"
  by (simp add: hex_prep_def radix_prefix_def digits_def)

lemma flag_iff:
  "flag t ZEROPAD \<longleftrightarrow> bit t 0" "flag t SIGN \<longleftrightarrow> bit t 1" "flag t PLUS \<longleftrightarrow> bit t 2" "flag t SPACE \<longleftrightarrow> bit t 3"
  "flag t LEFT \<longleftrightarrow> bit t 4" "flag t HEX_PREP \<longleftrightarrow> bit t 5" "flag t UPPERCASE \<longleftrightarrow> bit t 6"
  unfolding flag_defs by (rule flag_bit, simp)+

lemma bit_clear_zeropad: "bit (t AND NOT ZEROPAD) n \<longleftrightarrow> bit t n \<and> n \<noteq> 0"
  using bit_imp_le_length [of t n] by (auto simp: ZEROPAD_def bit_simps)

lemma clear_zeropad:
  "flag (type AND NOT ZEROPAD) SIGN = flag type SIGN" "flag (type AND NOT ZEROPAD) PLUS = flag type PLUS"
  "flag (type AND NOT ZEROPAD) SPACE = flag type SPACE" "flag (type AND NOT ZEROPAD) HEX_PREP = flag type HEX_PREP"
  "flag (type AND NOT ZEROPAD) LEFT = flag type LEFT" "\<not> flag (type AND NOT ZEROPAD) ZEROPAD"
  "flag type (ZEROPAD OR LEFT) \<longleftrightarrow> flag type ZEROPAD \<or> flag type LEFT"
proof -
  have or: "x OR y \<noteq> 0 \<longleftrightarrow> x \<noteq> 0 \<or> y \<noteq> 0" for x y :: u32 by (simp add: or_eq_0_iff)
  show "flag type (ZEROPAD OR LEFT) \<longleftrightarrow> flag type ZEROPAD \<or> flag type LEFT"
    by (simp add: bit.conj_disj_distrib or)
qed (simp_all only: flag_iff bit_clear_zeropad, simp_all)

lemma sign_of_clear: "sign_of (type AND NOT ZEROPAD) num = sign_of type num" "magnitude (type AND NOT ZEROPAD) num = magnitude type num"
  by (simp_all add: sign_of_def shown_def magnitude_def clear_zeropad)

lemma hex_prep_length: "int (length (hex_prep type radix)) =
    (if flag type HEX_PREP then if radix = 16 then 2 else if radix = 8 then 1 else 0 else 0)"
  by (simp add: hex_prep_def)

lemma hex_prep_clear: "hex_prep (type AND NOT ZEROPAD) radix = hex_prep type radix"
  by (simp add: hex_prep_def clear_zeropad)

lemma emit_number_eq:
  assumes "\<not> (flag type LEFT \<and> flag type ZEROPAD)"
  shows "emit_number type sign prep tmp w precision =
    (let zeros = replicate (nat (precision - int (length tmp))) (CHR ''0'');
         room = nat (w - int (length zeros + length tmp))
     in if flag type LEFT then sign @ prep @ zeros @ rev tmp @ replicate room (CHR '' '')
        else if flag type ZEROPAD then sign @ prep @ replicate room (CHR ''0'') @ zeros @ rev tmp
        else replicate room (CHR '' '') @ sign @ prep @ zeros @ rev tmp)"
proof -
  have p: "nat ((if int (length tmp) > precision then int (length tmp) else precision) - int (length tmp)) =
      nat (precision - int (length tmp))" by simp
  have r: "w - (if int (length tmp) > precision then int (length tmp) else precision) =
      w - int (nat (precision - int (length tmp)) + length tmp)" by simp
  have z: "nat (min v 0 - 1) = 0" for v :: int by simp
  show ?thesis
    using assms by (cases "flag type LEFT"; cases "flag type ZEROPAD")
      (simp_all only: emit_number_def Let_def pad_loop_eq zero_digits_eq clear_zeropad(7) prod.case p r z length_replicate
        simp_thms if_True if_False replicate_0 append_Nil append_Nil2)
qed

text \<open>
  The number in full: spaces or zeros in front according to the flags, sign and radix prefix, zeros up to the precision, the digits,
  and spaces behind in a left-justified field.
\<close>

lemma number_eq:
  assumes "2 \<le> radix" "radix \<le> 36"
  shows "number num radix width precision type =
    (let ds = digits_of type radix (magnitude type num); sign = sign_of type num; prep = hex_prep type radix;
         zeros = replicate (nat (precision - int (length ds))) (CHR ''0'');
         room = nat (width - int (length sign + length prep + length zeros + length ds))
     in Some (if flag type LEFT then sign @ prep @ zeros @ ds @ replicate room (CHR '' '')
              else if flag type ZEROPAD then sign @ prep @ replicate room (CHR ''0'') @ zeros @ ds
              else replicate room (CHR '' '') @ sign @ prep @ zeros @ ds))"
proof -
  define tmp where "tmp = (if magnitude type num = 0 then ''0'' else
    digit_loop (if flag type UPPERCASE then upper_digits else digits) (word_of_int radix) (magnitude type num))"
  let ?t = "if flag type LEFT then type AND NOT ZEROPAD else type"
  let ?w = "width - int (length (sign_of type num)) - int (length (hex_prep type radix))"
  have ds: "digits_of type radix (magnitude type num) = rev tmp" by (simp add: digits_of_def tmp_def)
  have hp: "(if flag type HEX_PREP then if radix = 16 then w - 2 else if radix = 8 then w - 1 else w else w) =
      w - int (length (hex_prep type radix))" for w :: int by (simp add: hex_prep_length)
  have "number num radix width precision type = Some (emit_number ?t (sign_of type num) (hex_prep type radix) tmp ?w precision)"
    using assms by (cases "flag type LEFT")
      (simp_all add: number_def Let_def sign_part_eq sign_of_clear clear_zeropad hex_prep_clear hp tmp_def)
  also have "\<dots> = Some (let zeros = replicate (nat (precision - int (length tmp))) (CHR ''0'');
         room = nat (?w - int (length zeros + length tmp))
     in if flag type LEFT then sign_of type num @ hex_prep type radix @ zeros @ rev tmp @ replicate room (CHR '' '')
        else if flag type ZEROPAD then sign_of type num @ hex_prep type radix @ replicate room (CHR ''0'') @ zeros @ rev tmp
        else replicate room (CHR '' '') @ sign_of type num @ hex_prep type radix @ zeros @ rev tmp)"
    by (cases "flag type LEFT"; cases "flag type ZEROPAD")
      (simp_all add: emit_number_eq Let_def clear_zeropad)
  finally show ?thesis by (simp add: ds Let_def algebra_simps)
qed

section \<open>Reading numbers back\<close>

lemma unat_radix: "2 \<le> radix \<Longrightarrow> radix \<le> 36 \<Longrightarrow> unat (word_of_int radix :: u32) = nat radix"
  by (simp add: unat_eq_nat_uint uint_word_of_int)

lemma digits_of_value:
  assumes "2 \<le> radix" "radix \<le> 36"
  shows "read_digits (nat radix) (digits_of type radix num) = unat num" "digits_of type radix num \<noteq> []"
proof -
  let ?b = "word_of_int radix :: u32"
  have b: "unat ?b = nat radix" "2 \<le> unat ?b" "unat ?b \<le> 36" using assms by (simp_all add: unat_radix)
  have "digit_val (CHR ''0'') = 0" by code_simp
  then show "read_digits (nat radix) (digits_of type radix num) = unat num"
    using digit_loop_value [OF b(2,3), of "if flag type UPPERCASE then upper_digits else digits" num] b(1)
    by (simp add: digits_of_def read_digits_def)
  show "digits_of type radix num \<noteq> []" using digit_loop_nonempty [OF _ b(2)] by (simp add: digits_of_def)
qed

lemma read_zeros: "read_digits b (replicate n (CHR ''0'') @ s) = read_digits b s"
proof -
  have "digit_val (CHR ''0'') = 0" by code_simp
  then have "foldl (\<lambda>v c. v * b + digit_val c) 0 (replicate n (CHR ''0'')) = 0" by (induction n) simp_all
  then show ?thesis by (simp add: read_digits_def)
qed

text \<open>What \<^const>\<open>number\<close> prints, as far as a reader is concerned.\<close>

lemma number_layout_aux:
  assumes "2 \<le> radix" "radix \<le> 36"
  shows "\<exists>k ds j. number num radix width precision type =
      Some (replicate k (CHR '' '') @ sign_of type num @ hex_prep type radix @ ds @ replicate j (CHR '' '')) \<and>
    read_digits (nat radix) ds = unat (magnitude type num) \<and> ds \<noteq> [] \<and> precision \<le> int (length ds) \<and>
    k + j = nat (width - int (length (sign_of type num) + length (hex_prep type radix) + length ds)) \<and>
    (if flag type LEFT then k = 0 else j = 0) \<and> (flag type ZEROPAD \<and> \<not> flag type LEFT \<longrightarrow> k = 0) \<and>
    (\<exists>n. ds = replicate n (CHR ''0'') @ digits_of type radix (magnitude type num) \<and>
      (n = 0 \<or> int (length ds) \<le> precision \<or> flag type ZEROPAD \<and> \<not> flag type LEFT))"
proof -
  let ?d = "digits_of type radix (magnitude type num)" and ?sg = "sign_of type num" and ?pr = "hex_prep type radix"
  let ?z = "nat (precision - int (length ?d))"
  let ?zs = "replicate ?z (CHR ''0'')"
  let ?room = "nat (width - int (length ?sg + length ?pr + length ?zs + length ?d))"
  note v = digits_of_value [OF assms, of type "magnitude type num"]
  have n: "number num radix width precision type =
      Some (if flag type LEFT then ?sg @ ?pr @ ?zs @ ?d @ replicate ?room (CHR '' '')
              else if flag type ZEROPAD then ?sg @ ?pr @ replicate ?room (CHR ''0'') @ ?zs @ ?d
              else replicate ?room (CHR '' '') @ ?sg @ ?pr @ ?zs @ ?d)"
    using number_eq [OF assms] by (simp add: Let_def)
  show ?thesis
  proof (cases "flag type LEFT")
    case True
    then show ?thesis
      unfolding n using v by (intro exI [of _ 0] exI [of _ "?zs @ ?d"] exI [of _ ?room])
        (auto simp: read_zeros add.assoc)
  next
    case l: False
    show ?thesis
    proof (cases "flag type ZEROPAD")
      case True
      with l show ?thesis
        unfolding n using v by (intro exI [of _ 0] exI [of _ "replicate ?room (CHR ''0'') @ ?zs @ ?d"] exI [of _ 0])
          (auto simp: read_zeros add.assoc intro!: exI [of _ "?room + ?z"] simp: replicate_add)
    next
      case False
      with l show ?thesis
        unfolding n using v by (intro exI [of _ ?room] exI [of _ "?zs @ ?d"] exI [of _ 0])
          (auto simp: read_zeros add.assoc)
    qed
  qed
qed

lemma digit_loop_chars:
  assumes "unat b \<le> 10" "c \<in> set (digit_loop dig b num)" "dig = digits \<or> dig = upper_digits"
  shows "is_digit c"
  using assms
proof (induction dig b num rule: digit_loop.induct)
  case (1 dig b num)
  have t: "list_all (\<lambda>n. is_digit (digits ! n) \<and> is_digit (upper_digits ! n)) [0..<10]" by code_simp
  show ?case
  proof (cases "num = 0 \<or> unat b < 2")
    case False
    then have "unat num mod unat b < unat b" by (intro mod_less_divisor) simp
    then have "unat (num mod b) < 10" using 1(2) by (simp add: unat_mod)
    then have "is_digit (dig ! unat (num mod b))" using t 1(4) by (auto simp: list_all_iff)
    with 1 False show ?thesis by (auto simp: digit_loop.simps [of dig b num])
  qed (use 1 in \<open>simp add: digit_loop.simps\<close>)
qed

lemma decimal_digits: "c \<in> set (digits_of type 10 num) \<Longrightarrow> is_digit c"
proof -
  have "is_digit (CHR ''0'')" by code_simp
  moreover have "unat (10 :: u32) \<le> 10" by simp
  ultimately show "c \<in> set (digits_of type 10 num) \<Longrightarrow> is_digit c"
    using digit_loop_chars [of 10 c _ num] by (auto simp: digits_of_def split: if_splits)
qed

lemma atoi_digits:
  "\<forall>c \<in> set ds. is_digit c \<Longrightarrow> atoi_loop (int v) (ds @ t) = atoi_loop (int (foldl (\<lambda>v c. v * 10 + digit_val c) v ds)) t"
proof (induction ds arbitrary: v)
  case (Cons c ds)
  have "is_digit c" using Cons.prems by simp
  then have "int v * 10 + of_char c - 48 = int (v * 10 + digit_val c)" by (simp add: digit_val_def is_digit_def of_nat_diff of_nat_of_char)
  then have "atoi_loop (int v) ((c # ds) @ t) = atoi_loop (int (v * 10 + digit_val c)) (ds @ t)"
    using Cons.prems by (simp only: append_Cons atoi_loop.simps list.set_intros if_True)
  with Cons.IH [of "v * 10 + digit_val c"] Cons.prems show ?case by (simp del: of_nat_add of_nat_mult)
qed simp

lemma skip_atoi_digits:
  assumes "\<forall>c \<in> set ds. is_digit c" "t = [] \<or> \<not> is_digit (hd t)"
  shows "skip_atoi (ds @ t) = (int (read_digits 10 ds), t)"
  using atoi_digits [OF assms(1), of 0 t] assms(2) by (cases t) (simp_all add: skip_atoi_def read_digits_def)

lemma unat_ucast16: "unat (ucast x :: u32) = unat x" for x :: u16
  using unsigned_less [of x, where 'a = nat] by (simp add: unsigned_ucast_eq take_bit_nat_eq_self_iff)

lemma digit_loop_length:
  "unat num < unat b ^ k \<Longrightarrow> 2 \<le> unat b \<Longrightarrow> length (digit_loop dig b num) \<le> k"
proof (induction k arbitrary: num)
  case (Suc k)
  have "unat (num div b) < unat b ^ k" using Suc.prems by (simp add: unat_div div_less_iff_less_mult mult.commute)
  with Suc show ?case by (subst digit_loop.simps) simp
qed (simp add: digit_loop.simps unat_gt_0 [symmetric])

lemma digit_loop_last:
  "2 \<le> unat b \<Longrightarrow> unat b \<le> 36 \<Longrightarrow> dig = digits \<or> dig = upper_digits \<Longrightarrow> num \<noteq> 0 \<Longrightarrow> last (digit_loop dig b num) \<noteq> CHR ''0''"
proof (induction dig b num rule: digit_loop.induct)
  case (1 dig b num)
  show ?case
  proof (cases "num div b = 0")
    case True
    then have "unat num div unat b = 0" by (simp add: word_unat_eq_iff unat_div)
    then have "unat num < unat b" using "1.prems"(1) by (auto simp: div_eq_0_iff)
    then have "num mod b = num" "unat num < 36" using "1.prems" by (simp_all add: word_unat_eq_iff unat_mod)
    then have "digit_val (dig ! unat (num mod b)) = unat num" using "1.prems" digit_val_nth by auto
    moreover have "digit_val (CHR ''0'') = 0" by code_simp
    ultimately have "dig ! unat (num mod b) \<noteq> CHR ''0''" using "1.prems"(4) by (metis unat_eq_zero)
    with True "1.prems" show ?thesis by (simp add: digit_loop.simps [of dig b num] digit_loop.simps [of dig b 0])
  next
    case False
    with 1 digit_loop_nonempty [OF False, of b dig] show ?thesis by (simp add: digit_loop.simps [of dig b num])
  qed
qed

lemma digits_of_first:
  assumes "2 \<le> radix" "radix \<le> 36" "num \<noteq> 0"
  shows "hd (digits_of type radix num) \<noteq> CHR ''0''"
  using digit_loop_last [of "word_of_int radix"] assms by (simp add: digits_of_def unat_radix hd_rev)

lemma digit_loop_set: "2 \<le> unat b \<Longrightarrow> unat b \<le> 36 \<Longrightarrow> length dig = 36 \<Longrightarrow> set (digit_loop dig b num) \<subseteq> set dig"
proof (induction dig b num rule: digit_loop.induct)
  case (1 dig b num)
  have "unat num mod unat b < unat b" using "1.prems" by (intro mod_less_divisor) simp
  then have "unat (num mod b) < 36" using "1.prems"(2) by (simp only: unat_mod)
  with 1 show ?case by (simp add: digit_loop.simps [of dig b num])
qed

lemma digits_of_chars:
  assumes "2 \<le> radix" "radix \<le> 36"
  shows "set (digits_of type radix num) \<subseteq> set ''0123456789'' \<union> set (letters type)"
proof -
  let ?dig = "if flag type UPPERCASE then upper_digits else digits"
  have "set ?dig \<subseteq> set ''0123456789'' \<union> set (letters type)" by (simp add: letters_def upper_digits_def digits_def)
  moreover have "set (digit_loop ?dig (word_of_int radix) num) \<subseteq> set ?dig"
    using assms by (intro digit_loop_set) (simp_all add: unat_radix upper_digits_def digits_def)
  ultimately have "set (digit_loop ?dig (word_of_int radix) num) \<subseteq> set ''0123456789'' \<union> set (letters type)" by (rule order_trans [rotated])
  then show ?thesis by (simp add: digits_of_def)
qed

section \<open>Properties\<close>

text \<open>
  C17. The text of a number in any radix, width, precision and combination of flags is spaces, sign, radix prefix, digits,
  spaces, in this order. The sign is a minus for a negative value of a signed conversion, else the plus or the space the flags ask for; the
  prefix is 0x or 0 when the alternate form is asked for; the digits are of the case asked for, read back as the absolute value, are at
  least as many as the precision asks for and have no other leading zeros than those and the ones of zero padding. The padding
  fills the field exactly, on the side the flags ask for.
\<close>

theorem number_layout:
  assumes "2 \<le> radix" "radix \<le> 36"
  shows "\<exists>k ds j. number num radix width precision type =
      Some (replicate k (CHR '' '') @ sign_of type num @ radix_prefix type radix @ ds @ replicate j (CHR '' '')) \<and>
    int (read_digits (nat radix) ds) = \<bar>shown type num\<bar> \<and> ds \<noteq> [] \<and> precision \<le> int (length ds) \<and>
    set ds \<subseteq> set ''0123456789'' \<union> set (letters type) \<and>
    (hd ds = CHR ''0'' \<longrightarrow> shown type num = 0 \<or> int (length ds) \<le> precision \<or> flag type ZEROPAD \<and> \<not> flag type LEFT) \<and>
    k + j = nat (width - int (length (sign_of type num) + length (radix_prefix type radix) + length ds)) \<and>
    (if flag type LEFT then k = 0 else j = 0) \<and> (flag type ZEROPAD \<and> \<not> flag type LEFT \<longrightarrow> k = 0)"
proof -
  let ?d = "digits_of type radix (magnitude type num)"
  obtain k ds j n where out: "number num radix width precision type =
      Some (replicate k (CHR '' '') @ sign_of type num @ hex_prep type radix @ ds @ replicate j (CHR '' ''))"
    and val: "read_digits (nat radix) ds = unat (magnitude type num)" and l: "ds \<noteq> []" "precision \<le> int (length ds)"
    and kj: "k + j = nat (width - int (length (sign_of type num) + length (hex_prep type radix) + length ds))"
      "if flag type LEFT then k = 0 else j = 0" "flag type ZEROPAD \<and> \<not> flag type LEFT \<longrightarrow> k = 0"
    and ds: "ds = replicate n (CHR ''0'') @ ?d" "n = 0 \<or> int (length ds) \<le> precision \<or> flag type ZEROPAD \<and> \<not> flag type LEFT"
    using number_layout_aux [OF assms, of num width precision type] by blast
  have "int (read_digits (nat radix) ds) = \<bar>shown type num\<bar>" using val magnitude_shown by simp
  moreover have "set ds \<subseteq> set ''0123456789'' \<union> set (letters type)" using ds(1) digits_of_chars [OF assms] by auto
  moreover have "shown type num = 0 \<or> int (length ds) \<le> precision \<or> flag type ZEROPAD \<and> \<not> flag type LEFT" if "hd ds = CHR ''0''"
  proof (cases "n = 0 \<and> magnitude type num \<noteq> 0")
    case True
    with that ds(1) digits_of_first [OF assms, of "magnitude type num" type] show ?thesis by simp
  next
    case False
    then show ?thesis using ds(2) magnitude_shown [of type num] by auto
  qed
  ultimately show ?thesis using out l kj unfolding hex_prep_prefix by blast
qed

theorem number_layout_witness:
  "\<exists>k ds j. number 0xFFFFFFD6 10 6 (-1) SIGN =
      Some (replicate k (CHR '' '') @ ''-'' @ ds @ replicate j (CHR '' '')) \<and> read_digits 10 ds = 42"
proof -
  have f: "flag SIGN SIGN" "\<not> flag SIGN HEX_PREP" "(0xFFFFFFD6 :: u32) <s 0"
    unfolding SIGN_def HEX_PREP_def by (simp_all add: word_sless_alt)
  then have s: "sign_of SIGN 0xFFFFFFD6 = ''-''" "radix_prefix SIGN 10 = []" "\<bar>shown SIGN 0xFFFFFFD6\<bar> = 42"
    by (simp_all add: sign_of_def shown_def radix_prefix_def)
  show ?thesis using number_layout [of 10 "0xFFFFFFD6" 6 "-1" SIGN] unfolding s by auto
qed

text \<open>
  Decimal numbers make the round trip: what is printed, read by the parser of the same file from behind the leading spaces and the sign, is the
  magnitude of the number, and the parser stops exactly at the padding behind it.
\<close>

theorem decimal_roundtrip:
  "\<exists>k ds j. number num 10 width precision type =
      Some (replicate k (CHR '' '') @ sign_of type num @ ds @ replicate j (CHR '' '')) \<and>
    skip_atoi (ds @ replicate j (CHR '' '')) = (int (unat (magnitude type num)), replicate j (CHR '' ''))"
proof -
  have h: "2 \<le> (10 :: int)" "10 \<le> (36 :: int)" by simp_all
  obtain k ds j n where out: "number num 10 width precision type =
      Some (replicate k (CHR '' '') @ sign_of type num @ hex_prep type 10 @ ds @ replicate j (CHR '' ''))"
    and val: "read_digits (nat 10) ds = unat (magnitude type num)"
    and ds: "ds = replicate n (CHR ''0'') @ digits_of type 10 (magnitude type num)"
    using number_layout_aux [OF h, of num width precision type] by blast
  have z: "is_digit (CHR ''0'')" "\<not> is_digit (CHR '' '')" by code_simp+
  have "\<forall>c \<in> set ds. is_digit c" using z(1) decimal_digits by (auto simp: ds)
  moreover have "replicate j (CHR '' '') = [] \<or> \<not> is_digit (hd (replicate j (CHR '' '')))" using z(2) by (cases j) simp_all
  ultimately have "skip_atoi (ds @ replicate j (CHR '' '')) = (int (unat (magnitude type num)), replicate j (CHR '' ''))"
    using skip_atoi_digits [of ds "replicate j (CHR '' '')"] val by simp
  moreover have "hex_prep type 10 = []" by (simp add: hex_prep_def)
  ultimately show ?thesis using out by auto
qed

lemma vsprintf_literal:
  "CHR ''%'' \<notin> set s \<Longrightarrow> vsprintf fl (s @ fmt) args = map_option ((@) s) (vsprintf fl fmt args)"
  by (induction s) (cases "vsprintf fl fmt args"; auto)+

lemma vsprintf_text: "CHR ''%'' \<notin> set s \<Longrightarrow> vsprintf fl s args = Some s"
  using vsprintf_literal [of s fl "[]" args] by simp

lemma vsprintf_conversion:
  assumes "CHR ''%'' \<notin> set a" "CHR ''%'' \<notin> set b" "directive fl (d @ b) args = Some (out, b, args')"
  shows "vsprintf fl (a @ ''%'' @ d @ b) args = Some (a @ out @ b)"
  using assms by (simp add: vsprintf_literal vsprintf_text)

text \<open>
  The checksum lines of the report: a 16-bit checksum printed with \<^verbatim>\<open>0x%04x\<close> appears as exactly four
  hexadecimal digits that read back as the checksum, between the texts around it.
\<close>

theorem crc_line:
  assumes "CHR ''%'' \<notin> set a" "CHR ''%'' \<notin> set b"
  shows "\<exists>ds. vsprintf fl (a @ ''%04x'' @ b) [AInt (ucast crc)] = Some (a @ ds @ b) \<and> length ds = 4 \<and>
    read_digits 16 ds = unat (crc :: u16)"
proof -
  have fl: "\<not> flag ZEROPAD SIGN" "\<not> flag ZEROPAD HEX_PREP" "\<not> flag ZEROPAD LEFT" "flag ZEROPAD ZEROPAD"
    unfolding flag_iff by (simp_all add: ZEROPAD_def bit_simps)
  have s: "sign_of ZEROPAD n = []" "hex_prep ZEROPAD 16 = []" "magnitude ZEROPAD n = n" for n
    using fl by (simp_all add: sign_of_def shown_def hex_prep_def magnitude_def)
  have len: "length (digits_of ZEROPAD 16 (ucast crc)) \<le> 4"
    using digit_loop_length [of "ucast crc" 16 4] unsigned_less [of crc, where 'a = nat]
    by (simp add: digits_of_def unat_ucast16)
  have full: "number (ucast crc) 16 4 (-1) ZEROPAD =
      Some (replicate (4 - length (digits_of ZEROPAD 16 (ucast crc))) (CHR ''0'') @ digits_of ZEROPAD 16 (ucast crc))"
    using number_eq [of 16 "ucast crc" 4 "-1" ZEROPAD] fl len by (simp add: s Let_def nat_diff_distrib)
  have d: "is_digit (CHR ''4'')" "\<not> is_digit (CHR ''x'')" "\<not> is_digit (CHR ''0'') = False" by code_simp+
  have "directive fl (''04x'' @ b) [AInt (ucast crc)] =
      Some (replicate (4 - length (digits_of ZEROPAD 16 (ucast crc))) (CHR ''0'') @ digits_of ZEROPAD 16 (ucast crc), b, [])"
    using full d by (simp add: directive_def parse_width_def parse_precision_def parse_qualifier_def conversion_def
        int_field_def skip_atoi_def)
  from vsprintf_conversion [OF assms this] show ?thesis
    using len digits_of_value(1) [of 16 ZEROPAD "ucast crc"] by (auto simp: read_zeros unat_ucast16)
qed

definition demo_flops :: "int flops" where
  "demo_flops = \<lparr>fl_neg = (\<lambda>x. x < 0), fl_minus = uminus, fl_zero = (\<lambda>x. x = 0),
     ecvtbuf = (\<lambda>v n. Some (''125'', 1, False)), fcvtbuf = (\<lambda>v n. Some (''1250'', 1, False))\<rparr>"

theorem crc_line_witness:
  "\<exists>ds. vsprintf demo_flops ''seedcrc          : 0x%04x'' [AInt 0xe9f5] = Some (''seedcrc          : 0x'' @ ds) \<and>
     length ds = 4 \<and> read_digits 16 ds = 0xe9f5"
  using crc_line [of "''seedcrc          : 0x''" "[]" demo_flops "0xe9f5"] by simp

lemma send_char_poll: "uart_send_char env c s = poll_out env board_uart (of_char c) s"
  by (simp add: uart_send_char_def poll_out_def board_uart_def UART_TX_STATUS_def UART_TX_DATA_def TX_STATUS_def TX_DATA_def)

lemma send_loop_outbox:
  "char_of (0 :: nat) \<notin> set cs \<Longrightarrow> sys_ok env s \<Longrightarrow>
   \<exists>s'. send_loop env cs n s = Some (n + length cs, s') \<and> sys_ok env s' \<and>
     outbox (dev s') = outbox (dev s) @ map of_char cs \<and> client_of s' = client_of s"
proof (induction cs arbitrary: n s)
  case (Cons c cs)
  obtain s1 where "uart_send_char env c s = Some s1" "sys_ok env s1" "outbox (dev s1) = outbox (dev s) @ [of_char c]"
      "client_of s1 = client_of s"
    using poll_out_returns [OF board_uart_ok Cons.prems(2)] send_char_poll by metis
  with Cons.IH [of s1 "n + 1"] Cons.prems(1) show ?case by auto
qed simp

text \<open>
  Printing reaches the wire: when the formatted text has no zero byte and fits the buffer, \<^verbatim>\<open>ee_printf\<close> returns its length, and the transmitter
  has then accepted exactly its characters, in order, behind everything accepted before.
\<close>

theorem ee_printf_sends:
  assumes "vsprintf fl fmt args = Some out" "length out < 1024" "char_of (0 :: nat) \<notin> set out" "sys_ok env s"
  shows "\<exists>s'. ee_printf fl env fmt args s = Some (length out, s') \<and> sys_ok env s' \<and> client_of s' = client_of s \<and>
    (\<forall>n. sent (dev (uart_wait env (Suc n) s')) = outbox (dev s) @ map of_char out)"
proof -
  obtain s' where s': "send_loop env out 0 s = Some (length out, s')" "sys_ok env s'"
      "outbox (dev s') = outbox (dev s) @ map of_char out" "client_of s' = client_of s"
    using send_loop_outbox [OF assms(3,4), of 0] by auto
  have "sent (dev (uart_wait env (Suc n) s')) = outbox (dev s) @ map of_char out" for n
    using outbox_sent [OF wait_start] wait_busy [OF s'(2), of "Suc n"] s'(3) by metis
  with s' assms(1,2) show ?thesis by (simp add: ee_printf_def ee_vsprintf_def)
qed

theorem ee_printf_sends_witness:
  "\<exists>s'. ee_printf demo_flops demo_uart_env ''ok'' [] demo_uart = Some (2, s') \<and>
     sent (dev (uart_wait demo_uart_env 1 s')) = [0x6F, 0x6B]"
proof -
  have v: "vsprintf demo_flops ''ok'' [] = Some ''ok''" by (rule vsprintf_text) simp
  have o: "outbox (dev demo_uart) @ map of_char ''ok'' = [0x6F, 0x6B]"
    by (simp add: demo_uart_def idle_uart_def outbox_def of_char_def)
  have "char_of (0 :: nat) \<notin> set ''ok''" by code_simp
  from ee_printf_sends [OF v _ this demo_uart_ok(1), unfolded o] show ?thesis
    unfolding One_nat_def by (simp add: numeral_2_eq_2 del: uart_wait.simps) blast
qed

text \<open>The decimal point is inserted behind the digits of the whole part.\<close>

lemma dot_digits_eq:
  "pos \<le> decpt \<Longrightarrow> dot_digits pos decpt ds = take (nat (decpt - pos)) ds @
     (if nat (decpt - pos) < length ds then CHR ''.'' # drop (nat (decpt - pos)) ds else [])"
proof (induction pos decpt ds rule: dot_digits.induct)
  case (2 pos decpt d ds)
  have past: "p > decpt \<Longrightarrow> dot_digits p decpt xs = xs" for p xs by (induction xs arbitrary: p) simp_all
  show ?case
  proof (cases "pos = decpt")
    case True
    then show ?thesis by (simp add: past)
  next
    case False
    with 2(2) have "nat (decpt - pos) = Suc (nat (decpt - (pos + 1)))" by simp
    with 2 False show ?thesis by simp
  qed
qed simp

text \<open>
  Fixed-point output: with the digits \<open>ds\<close> and the point position the conversion delivers, \<^verbatim>\<open>%f\<close> prints
  the sign, the whole part, the point and the fraction; a value below one gets a zero in front and the zeros up to its first digit.
\<close>

theorem fix_format_point:
  assumes "fcvtbuf fl v p = Some (ds, decpt, neg)" "ds \<noteq> []"
  shows "parse_float fl v (CHR ''f'') p = Some ((if neg then ''-'' else []) @
    (if 0 < decpt then take (nat decpt) ds @ (if nat decpt < length ds then CHR ''.'' # drop (nat decpt) ds else [])
     else ''0.'' @ replicate (nat (- decpt)) (CHR ''0'') @ ds))"
  using assms dot_digits_eq [of 0 decpt ds] by (simp add: parse_float_def fix_format_def)

theorem fix_format_point_witness: "parse_float demo_flops 1 (CHR ''f'') 3 = Some ''1.250''"
  using fix_format_point [of demo_flops 1 3 "''1250''" 1 False] by (simp add: demo_flops_def)

text \<open>
  In exponential output the two helpers destroy the exponent: \<^verbatim>\<open>decimal_point\<close> writes the point over the
  exponent letter and doubles the character behind it, and \<^verbatim>\<open>cropzeros\<close> ends the string at the
  letter, so the exponent is lost.
\<close>

theorem exponent_lost:
  assumes "\<forall>c \<in> set p. c \<noteq> CHR ''.'' \<and> c \<noteq> CHR ''e'' \<and> c \<noteq> CHR ''E''" "\<forall>c \<in> set q. c \<noteq> CHR ''e'' \<and> c \<noteq> CHR ''E''"
    and "q \<noteq> []" "last q \<noteq> CHR ''0''"
  shows "decimal_point (p @ CHR ''e'' # x) = p @ CHR ''.'' # take 1 x @ x \<and>
    cropzeros (p @ CHR ''.'' # q @ replicate n (CHR ''0'') @ CHR ''e'' # x) = p @ CHR ''.'' # q"
proof
  show "decimal_point (p @ CHR ''e'' # x) = p @ CHR ''.'' # take 1 x @ x"
    using assms(1) by (induction p) auto
  have whole: "takeWhile (\<lambda>c. c \<noteq> CHR ''.'') (p @ CHR ''.'' # r) = p" "dropWhile (\<lambda>c. c \<noteq> CHR ''.'') (p @ CHR ''.'' # r) = CHR ''.'' # r" for r
    using assms(1) by (simp_all add: takeWhile_append dropWhile_append)
  have frac: "takeWhile (\<lambda>c. c \<noteq> CHR ''e'' \<and> c \<noteq> CHR ''E'') (q @ replicate n (CHR ''0'') @ CHR ''e'' # x) = q @ replicate n (CHR ''0'')"
    using assms(2) by (simp add: takeWhile_append)
  have kept: "rev (dropWhile (\<lambda>c. c = CHR ''0'') (rev (q @ replicate n (CHR ''0'')))) = q"
    using assms(3,4) by (cases q rule: rev_cases) (simp_all add: dropWhile_append)
  show "cropzeros (p @ CHR ''.'' # q @ replicate n (CHR ''0'') @ CHR ''e'' # x) = p @ CHR ''.'' # q"
    using assms(3) unfolding cropzeros_def whole list.case frac kept Let_def by simp
qed

theorem exponent_lost_witness:
  "decimal_point ''5e+010'' = ''5.++010'' \<and> cropzeros ''1.500e+010'' = ''1.5''"
  using exponent_lost [of "''5''" "''5''" "''+010''" 0] exponent_lost [of "''1''" "''5''" "''+010''" 2] by (simp add: numeral_2_eq_2)

end
