(* ===== verification/Double.thy ===== *)
theory Double
  imports Prelude Complex_Main "HOL-Library.Log_Nat"
begin

text \<open>
  The C type \<^verbatim>\<open>double\<close> of the port, as far as the program uses it: finite numbers, represented by the
  rational they denote, with every arithmetic operation rounded to 53 significant bits, ties to even.
  Infinities, NaN, signed zeros and the limits of the exponent range are left out; the program
  computes with times of at most 72 seconds and iteration counts of 32 bits.
\<close>

section \<open>Rounding\<close>

type_synonym double = rat

definition round_even :: "rat \<Rightarrow> int" where
  "round_even x = (let f = \<lfloor>x\<rfloor>; r = x - of_int f
     in if r < 1 / 2 then f else if 1 / 2 < r then f + 1 else if even f then f else f + 1)"

text \<open>The exponent: \<^prop>\<open>2 powi expo x \<le> \<bar>x\<bar> \<and> \<bar>x\<bar> < 2 powi (expo x + 1)\<close> for \<^prop>\<open>x \<noteq> 0\<close>.\<close>

definition expo :: "rat \<Rightarrow> int" where
  "expo x = (let (n, d) = quotient_of \<bar>x\<bar>; k = bitlen n - bitlen d
     in if \<bar>x\<bar> < 2 powi k then k - 1 else k)"

definition ulp :: "rat \<Rightarrow> rat" where
  "ulp x = 2 powi (expo x - 52)"

definition rnd :: "rat \<Rightarrow> double" where
  "rnd x = (if x = 0 then 0 else of_int (round_even (x / ulp x)) * ulp x)"

text \<open>A number that is a double.\<close>

definition dbl :: "rat \<Rightarrow> bool" where
  "dbl x \<longleftrightarrow> rnd x = x"

section \<open>Accuracy\<close>

lemma round_even_near: "\<bar>of_int (round_even x) - x\<bar> \<le> 1 / 2"
proof -
  have "0 \<le> x - of_int \<lfloor>x\<rfloor>" "x - of_int \<lfloor>x\<rfloor> < 1" by linarith+
  then show ?thesis unfolding round_even_def Let_def by (auto simp: abs_le_iff)
qed

lemma round_even_int [simp]: "round_even (of_int n) = n"
  by (simp add: round_even_def)

lemma round_even_ge: "of_int n \<le> x \<Longrightarrow> n \<le> round_even x"
  using le_floor_iff [of n x] by (auto simp: round_even_def Let_def)

lemma round_even_le: "x \<le> of_int n \<Longrightarrow> round_even x \<le> n"
proof (cases "x = of_int n")
  case False
  moreover assume "x \<le> of_int n"
  ultimately have "\<lfloor>x\<rfloor> + 1 \<le> n" by (simp add: floor_less_iff zless_imp_add1_zle)
  then show ?thesis by (auto simp: round_even_def Let_def)
qed simp

lemma floorlog_quotient:
  assumes "0 < n" "0 < d"
  defines "k \<equiv> int (floorlog 2 n) - int (floorlog 2 d)"
  shows "2 powi (k - 1) \<le> (of_nat n / of_nat d :: rat)" "(of_nat n / of_nat d :: rat) < 2 powi (k + 1)"
proof -
  have pos: "0 < floorlog 2 n" "0 < floorlog 2 d"
    using assms(1,2) floorlog_eq_zero_iff [of 2] by (metis gr0I not_less one_less_numeral_iff semiring_norm(76))+
  obtain a b where ab: "floorlog 2 n = Suc a" "floorlog 2 d = Suc b" using pos by (metis gr0_implies_Suc)
  have nd: "2 ^ a \<le> n" "n < 2 ^ Suc a" "2 ^ b \<le> d" "d < 2 ^ Suc b"
    using floorlog_bounds [of n 2] floorlog_bounds [of d 2] assms(1,2) ab by simp_all
  have q: "(2 :: rat) ^ a \<le> of_nat n" "of_nat n < (2 :: rat) ^ Suc a" "(2 :: rat) ^ b \<le> of_nat d" "of_nat d < (2 :: rat) ^ Suc b"
    using nd by (metis of_nat_le_iff of_nat_less_iff of_nat_numeral of_nat_power)+
  have k: "k = int a - int b" using ab by (simp add: k_def)
  have "(2 :: rat) powi (k - 1) = 2 ^ a / 2 ^ Suc b" "(2 :: rat) powi (k + 1) = 2 ^ Suc a / 2 ^ b"
    unfolding k by (simp_all add: power_int_diff power_int_add divide_simps)
  moreover have "(2 :: rat) ^ a / 2 ^ Suc b \<le> of_nat n / of_nat d"
    using q assms(2) by (intro frac_le) simp_all
  moreover have "(of_nat n / of_nat d :: rat) < 2 ^ Suc a / 2 ^ b"
    using q assms(2) by (intro frac_less) simp_all
  ultimately show "2 powi (k - 1) \<le> (of_nat n / of_nat d :: rat)" "(of_nat n / of_nat d :: rat) < 2 powi (k + 1)" by simp_all
qed

lemma expo_bounds:
  assumes "x \<noteq> 0"
  shows "2 powi expo x \<le> \<bar>x\<bar>" "\<bar>x\<bar> < 2 powi (expo x + 1)"
proof -
  obtain n d where q: "quotient_of \<bar>x\<bar> = (n, d)" by fastforce
  have d: "0 < d" using quotient_of_denom_pos [OF q] .
  have x: "\<bar>x\<bar> = of_int n / of_int d" using quotient_of_div [OF q] .
  then have n: "0 < n" using assms d by (metis of_int_0_less_iff zero_less_abs_iff zero_less_divide_iff not_less_iff_gr_or_eq)
  let ?k = "int (floorlog 2 (nat n)) - int (floorlog 2 (nat d))"
  have nat: "\<bar>x\<bar> = of_nat (nat n) / of_nat (nat d)" using x n d by (simp add: of_nat_nat)
  have b: "2 powi (?k - 1) \<le> \<bar>x\<bar>" "\<bar>x\<bar> < 2 powi (?k + 1)"
    using floorlog_quotient [of "nat n" "nat d"] n d unfolding nat by simp_all
  show "2 powi expo x \<le> \<bar>x\<bar>" "\<bar>x\<bar> < 2 powi (expo x + 1)"
    using b by (simp_all add: expo_def q Let_def bitlen_def)
qed

lemma ulp_pos [simp]: "0 < ulp x"
  by (simp add: ulp_def zero_less_power_int)

lemma powi_split: "(2 :: rat) powi e = 2 ^ 52 * 2 powi (e - 52)"
  by (simp add: power_int_diff)

lemma expo_ulp:
  assumes "x \<noteq> 0"
  shows "2 ^ 52 * ulp x \<le> \<bar>x\<bar>" "\<bar>x\<bar> < 2 ^ 53 * ulp x"
  using expo_bounds [OF assms] by (simp_all add: ulp_def power_int_diff power_int_add)

text \<open>The relative error of a rounding is at most \<open>2 ^ -53\<close>.\<close>

lemma rnd_error: "\<bar>rnd x - x\<bar> \<le> \<bar>x\<bar> / 2 ^ 53"
proof (cases "x = 0")
  case False
  let ?u = "ulp x"
  have "\<bar>rnd x - x\<bar> = \<bar>of_int (round_even (x / ?u)) - x / ?u\<bar> * ?u"
    using False ulp_pos [THEN less_imp_neq, of x] unfolding abs_mult_pos [OF less_imp_le, OF ulp_pos] by (simp add: rnd_def left_diff_distrib)
  also have "\<dots> \<le> 1 / 2 * ?u" using round_even_near ulp_pos [of x] by (simp add: mult_right_mono)
  also have "\<dots> \<le> \<bar>x\<bar> / 2 ^ 53" using expo_ulp(1) [OF False] by simp
  finally show ?thesis .
qed (simp add: rnd_def)

lemma rnd_0 [simp]: "rnd 0 = 0"
  by (simp add: rnd_def)

text \<open>Rounding never crosses a multiple of the unit, in particular no integer of 53 bits.\<close>

lemma rnd_ge_unit: "x \<noteq> 0 \<Longrightarrow> of_int m * ulp x \<le> x \<Longrightarrow> of_int m * ulp x \<le> rnd x"
  using round_even_ge [of m "x / ulp x"] ulp_pos [of x] by (simp add: rnd_def pos_le_divide_eq)

lemma rnd_le_unit: "x \<noteq> 0 \<Longrightarrow> x \<le> of_int m * ulp x \<Longrightarrow> rnd x \<le> of_int m * ulp x"
  using round_even_le [of "x / ulp x" m] ulp_pos [of x] by (simp add: rnd_def pos_divide_le_eq)

lemma unit_multiple:
  assumes "\<bar>x\<bar> < 2 ^ 53" "x \<noteq> 0"
  obtains m where "of_int n = of_int m * ulp x"
proof -
  have "(2 :: rat) powi expo x < 2 powi 53" using expo_bounds(1) [OF assms(2)] assms(1) by simp
  then have "expo x < 53" using power_int_increasing [of 53 "expo x" "2 :: rat"] by linarith
  then have "2 powi (52 - expo x) = (2 :: rat) ^ nat (52 - expo x)" by (simp add: power_int_def)
  moreover have "ulp x * 2 powi (52 - expo x) = 1" by (simp add: ulp_def power_int_add [symmetric])
  ultimately obtain k where "2 ^ k * ulp x = 1" by (metis mult.commute)
  then have "of_int n = of_int (n * 2 ^ k) * ulp x" by (simp add: mult.assoc)
  then show ?thesis by (rule that)
qed

lemma rnd_ge_int: "of_int n \<le> x \<Longrightarrow> \<bar>x\<bar> < 2 ^ 53 \<Longrightarrow> of_int n \<le> rnd x"
  by (cases "x = 0") (simp, metis rnd_ge_unit unit_multiple)

lemma rnd_le_int: "x \<le> of_int n \<Longrightarrow> \<bar>x\<bar> < 2 ^ 53 \<Longrightarrow> rnd x \<le> of_int n"
  by (cases "x = 0") (simp, metis rnd_le_unit unit_multiple)

lemma rnd_int: "\<bar>n\<bar> < 2 ^ 53 \<Longrightarrow> rnd (of_int n) = of_int n"
proof (rule antisym)
  assume "\<bar>n\<bar> < 2 ^ 53"
  then have "\<bar>of_int n :: rat\<bar> < 2 ^ 53" by (metis of_int_abs of_int_less_iff of_int_numeral of_int_power)
  then show "rnd (of_int n) \<le> of_int n" "of_int n \<le> rnd (of_int n)" by (simp_all add: rnd_le_int rnd_ge_int)
qed

lemma rnd_nonneg: "0 \<le> x \<Longrightarrow> 0 \<le> rnd x"
  using rnd_ge_unit [of x 0] by (cases "x = 0") simp_all

lemma rnd_near:
  assumes "0 \<le> x"
  shows "rnd x \<le> x + x / 2 ^ 53" "x - x / 2 ^ 53 \<le> rnd x"
proof -
  have "\<bar>rnd x - x\<bar> \<le> x / 2 ^ 53" using rnd_error [of x] assms by simp
  then show "rnd x \<le> x + x / 2 ^ 53" "x - x / 2 ^ 53 \<le> rnd x" by linarith+
qed

lemma rnd_close:
  assumes "0 \<le> x" "x \<le> c * 2 ^ 53"
  shows "rnd x - x \<le> c" "x - rnd x \<le> c"
proof -
  have "x / 2 ^ 53 \<le> c" using assms(2) by (simp add: divide_simps)
  then show "rnd x - x \<le> c" "x - rnd x \<le> c" using rnd_near [OF assms(1)] by linarith+
qed

lemma expo_unique:
  assumes "2 powi e \<le> \<bar>x\<bar>" "\<bar>x\<bar> < 2 powi (e + 1)"
  shows "expo x = e"
proof -
  have "x \<noteq> 0" using assms(1) zero_less_power_int [of "2 :: rat" e] by (metis abs_zero not_less zero_less_numeral)
  note b = expo_bounds [OF this]
  have "(2 :: rat) powi e < 2 powi (expo x + 1)" "(2 :: rat) powi expo x < 2 powi (e + 1)" using b assms by linarith+
  then have "e < expo x + 1" "expo x < e + 1"
    using power_int_increasing [of "expo x + 1" e "2 :: rat"] power_int_increasing [of "e + 1" "expo x" "2 :: rat"]
    by (metis not_less one_le_numeral)+
  then show ?thesis by simp
qed

text \<open>The fraction of a double stays at least one unit of 53 bits below one; ten times it stays below ten.\<close>

lemma frac_rnd:
  assumes "0 \<le> z"
  shows "rnd z - of_int \<lfloor>rnd z\<rfloor> \<le> 1 - 1 / 2 ^ 53"
proof (cases "z < 1 / 2")
  case True
  from True rnd_near(1) [OF assms] have lt: "rnd z < 1 - 1 / 2 ^ 53" by simp
  then have "\<lfloor>rnd z\<rfloor> = 0" using rnd_nonneg [OF assms] by (simp add: floor_eq_iff)
  with lt show ?thesis by simp
next
  case False
  then have z: "z \<noteq> 0" "(2 :: rat) powi (-1) \<le> z" by simp_all
  then have "(2 :: rat) powi (-1) < 2 powi (expo z + 1)" using expo_bounds(2) [OF z(1)] by simp
  then have "-1 < expo z + 1" using power_int_increasing [of "expo z + 1" "-1" "2 :: rat"] by (metis not_less one_le_numeral)
  then have "(2 :: rat) powi (expo z + 1) = 2 ^ nat (expo z + 1)" by (simp add: power_int_def)
  moreover have "ulp z = 2 powi (expo z + 1) / 2 ^ 53" by (simp add: ulp_def power_int_diff power_int_add)
  ultimately have "ulp z = 2 ^ nat (expo z + 1) / 2 ^ 53" by simp
  then obtain M where M: "rnd z = of_int M / of_int (2 ^ 53)"
    using z(1) by (metis rnd_def of_int_mult of_int_numeral of_int_power times_divide_eq_right)
  have "rnd z - of_int \<lfloor>rnd z\<rfloor> = of_int (M mod 2 ^ 53) / of_int (2 ^ 53)"
    unfolding M floor_divide_of_int_eq minus_mult_div_eq_mod [symmetric] by (simp add: field_simps)
  moreover have "M mod 2 ^ 53 \<le> 2 ^ 53 - 1" by simp
  then have "(of_int (M mod 2 ^ 53) :: rat) \<le> of_int (2 ^ 53 - 1)" by (rule of_int_le_iff [THEN iffD2])
  ultimately show ?thesis by (simp add: field_simps)
qed

lemma rnd_ten:
  assumes "0 \<le> a" "a \<le> 1 - 1 / 2 ^ 53"
  shows "rnd (a * 10) < 10"
proof (cases "a * 10 < 8")
  case True
  then show ?thesis using rnd_le_int [of "a * 10" 8] assms by simp
next
  case False
  have e: "expo (a * 10) = 3" by (rule expo_unique) (use False assms in simp_all)
  let ?x = "a * 10 * 2 ^ 49"
  have r: "rnd (a * 10) = of_int (round_even ?x) / 2 ^ 49"
    using False by (auto simp: rnd_def ulp_def e)
  have "of_int (round_even ?x) \<le> ?x + 1 / 2" using round_even_near [of ?x] by linarith
  also have "\<dots> < of_int (10 * 2 ^ 49)" using assms(2) by simp
  finally show ?thesis unfolding r by (simp add: divide_simps)
qed

text \<open>A rounded number is a double.\<close>

lemma rnd_scaled:
  assumes "2 ^ 52 \<le> \<bar>m\<bar>" "\<bar>m\<bar> < 2 ^ 53"
  shows "rnd (of_int m * 2 powi e) = of_int m * 2 powi e"
proof -
  let ?x = "of_int m * 2 powi e :: rat"
  have p: "0 < (2 :: rat) powi e" by (simp add: zero_less_power_int)
  have "(2 :: rat) ^ 52 \<le> of_int \<bar>m\<bar>" "of_int \<bar>m\<bar> < (2 :: rat) ^ 53"
    using assms by (metis of_int_le_iff of_int_numeral of_int_power, metis of_int_less_iff of_int_numeral of_int_power)
  then have "2 ^ 52 * 2 powi e \<le> \<bar>?x\<bar>" "\<bar>?x\<bar> < 2 ^ 53 * 2 powi e"
    using p by (simp_all only: abs_mult abs_of_pos [OF p] of_int_abs mult_le_cancel_right_pos mult_less_cancel_right_pos)
  then have "expo ?x = e + 52" by (intro expo_unique) (simp_all add: power_int_add algebra_simps)
  then have "ulp ?x = 2 powi e" by (simp add: ulp_def)
  moreover have "?x / 2 powi e = of_int m" using p by simp
  ultimately show ?thesis by (simp add: rnd_def)
qed

lemma dbl_rnd: "dbl (rnd x)"
proof (cases "x = 0")
  case False
  define y where "y = x / ulp x"
  define m where "m = round_even y"
  have x: "rnd x = of_int m * 2 powi (expo x - 52)" using False by (simp add: rnd_def m_def y_def ulp_def)
  have "\<bar>y\<bar> = \<bar>x\<bar> / ulp x" unfolding y_def abs_divide abs_of_pos [OF ulp_pos] ..
  then have q: "2 ^ 52 \<le> \<bar>y\<bar>" "\<bar>y\<bar> < 2 ^ 53"
    using expo_ulp [OF False] ulp_pos [of x] by (simp_all add: pos_le_divide_eq pos_divide_less_eq)
  have "2 ^ 52 \<le> \<bar>m\<bar> \<and> \<bar>m\<bar> \<le> 2 ^ 53"
  proof (cases "0 \<le> y")
    case True
    then show ?thesis using q round_even_ge [of "2 ^ 52" y] round_even_le [of y "2 ^ 53"] by (simp add: m_def)
  next
    case False
    then show ?thesis using q round_even_le [of y "- (2 ^ 52)"] round_even_ge [of "- (2 ^ 53)" y] by (simp add: m_def)
  qed
  moreover have "of_int m * 2 powi (expo x - 52) = of_int (m div 2) * (2 :: rat) powi (expo x - 51)" if "\<bar>m\<bar> = 2 ^ 53"
  proof -
    have "m = 2 ^ 53 \<or> m = - (2 ^ 53)" using that by linarith
    then have "2 * (m div 2) = m" by auto
    then have "(of_int m :: rat) = 2 * of_int (m div 2)" by (metis of_int_mult of_int_numeral)
    then show ?thesis using power_int_add [of "2 :: rat" "expo x - 52" 1] by simp
  qed
  moreover have "2 ^ 52 \<le> \<bar>m div 2\<bar> \<and> \<bar>m div 2\<bar> < 2 ^ 53" if "\<bar>m\<bar> = 2 ^ 53"
    using that by (auto simp: abs_if split: if_splits)
  ultimately show ?thesis unfolding dbl_def x using rnd_scaled [of m] rnd_scaled [of "m div 2"] by (metis order.not_eq_order_implies_strict)
qed (simp add: dbl_def)

end
