(* ===== verification/Cvt.thy ===== *)
theory Cvt
  imports EePrintf Double
begin

text \<open>
  The digit conversion of \<^verbatim>\<open>fpga/coremark/cvt.c\<close> on the doubles of \<^verbatim>\<open>Double\<close>, and with it the
  concrete operations behind the floating point formats of \<^verbatim>\<open>ee_printf\<close>. The buffer is the list of the
  character codes written so far; running over its 80 bytes is \<^const>\<open>None\<close>.
\<close>

section \<open>The conversion\<close>

definition CVTBUFSIZE :: nat where "CVTBUFSIZE = 80"

text \<open>\<^verbatim>\<open>modf\<close>: the fraction and the whole part, both exact.\<close>

definition trunc :: "double \<Rightarrow> int" where
  "trunc x = (if x < 0 then \<lceil>x\<rceil> else \<lfloor>x\<rfloor>)"

definition modf :: "double \<Rightarrow> double \<times> double" where
  "modf x = (x - of_int (trunc x), of_int (trunc x))"

text \<open>The digits of the whole part, the last one first; \<^verbatim>\<open>r2\<close> is the length of the list.\<close>

partial_function (option) whole_loop :: "double \<Rightarrow> nat list \<Rightarrow> nat list option" where
  "whole_loop fi ds =
     (if fi = 0 then Some ds
      else if CVTBUFSIZE \<le> length ds then None
      else (let (fj, fi) = modf (rnd (fi / 10))
            in whole_loop fi (nat (trunc (rnd (rnd (fj + rnd 0.03) * 10)) + 48) # ds)))"

partial_function (option) small_loop :: "double \<Rightarrow> int \<Rightarrow> (double \<times> int) option" where
  "small_loop arg r2 =
     (let fj = rnd (arg * 10) in if fj < 1 then small_loop fj (r2 - 1) else Some (arg, r2))"

function frac_loop :: "nat \<Rightarrow> double \<Rightarrow> nat list \<Rightarrow> nat list" where
  "frac_loop p1 arg buf =
     (if length buf \<le> p1 \<and> length buf < CVTBUFSIZE
      then (let (arg, fj) = modf (rnd (arg * 10)) in frac_loop p1 arg (buf @ [nat (trunc fj + 48)]))
      else buf)"
  by pat_completeness auto
termination
  by (relation "measure (\<lambda>(p1, arg, buf). CVTBUFSIZE - length buf)") auto

text \<open>
  Rounding: \<^verbatim>\<open>p1\<close> moves to the left as long as it meets a character above \<^verbatim>\<open>'9'\<close>; at the start of the buffer the
  carry becomes a new first digit, which ends the loop.
\<close>

fun carry_loop :: "bool \<Rightarrow> nat \<Rightarrow> nat \<Rightarrow> int \<Rightarrow> nat list \<Rightarrow> nat list \<times> nat \<times> int" where
  "carry_loop eflag 0 p decpt buf =
     (if 57 < buf ! 0
      then (let buf = buf[0 := 49]; decpt = decpt + 1
            in if eflag then (buf, p, decpt) else (if 0 < p then buf[p := 48] else buf, p + 1, decpt))
      else (buf, p, decpt))"
| "carry_loop eflag (Suc p1) p decpt buf =
     (if 57 < buf ! Suc p1
      then (let buf = buf[Suc p1 := 48] in carry_loop eflag p1 p decpt (buf[p1 := buf ! p1 + 1]))
      else (buf, p, decpt))"

definition cvt :: "double \<Rightarrow> int \<Rightarrow> bool \<Rightarrow> (string \<times> int \<times> bool) option" where
  "cvt arg ndigits eflag = do {
     let ndigits = (if ndigits < 0 then 0 else ndigits);
     let ndigits = (if int CVTBUFSIZE - 1 \<le> ndigits then int CVTBUFSIZE - 2 else ndigits);
     let sign = (arg < 0);
     let arg = (if arg < 0 then - arg else arg);
     let (arg, fi) = modf arg;
     (buf, arg, r2) \<leftarrow>
       (if fi \<noteq> 0 then do { ds \<leftarrow> whole_loop fi []; Some (ds, arg, int (length ds)) }
        else if 0 < arg then do { (arg, r2) \<leftarrow> small_loop arg 0; Some ([], arg, r2) }
        else Some ([], arg, 0));
     let p1 = ndigits + (if eflag then 0 else r2);
     if p1 < 0 then Some ([], r2, sign)
     else do {
       let buf = frac_loop (nat p1) arg buf;
       if int CVTBUFSIZE \<le> p1 then Some (map char_of (take (CVTBUFSIZE - 1) buf), r2, sign)
       else do {
         let (buf, p, decpt) = carry_loop eflag (nat p1) (nat p1) r2 (buf[nat p1 := buf ! nat p1 + 5]);
         if CVTBUFSIZE \<le> p then None else Some (map char_of (take p buf), decpt, sign)
       }
     }
   }"

text \<open>The entry points on the static buffer, which the program does not call.\<close>

definition ecvt :: "double \<Rightarrow> int \<Rightarrow> (string \<times> int \<times> bool) option" where
  "ecvt arg ndigits = cvt arg ndigits True"

definition fcvt :: "double \<Rightarrow> int \<Rightarrow> (string \<times> int \<times> bool) option" where
  "fcvt arg ndigits = cvt arg ndigits False"

definition double_flops :: "double flops" where
  "double_flops = \<lparr>fl_neg = (\<lambda>x. x < 0), fl_minus = uminus, fl_zero = (\<lambda>x. x = 0),
     ecvtbuf = (\<lambda>x n. cvt x n True), fcvtbuf = (\<lambda>x n. cvt x n False)\<rparr>"

section \<open>Digits of the whole part\<close>

definition digit_code :: "nat \<Rightarrow> bool" where
  "digit_code c \<longleftrightarrow> 48 \<le> c \<and> c \<le> 57"

definition codes_val :: "nat list \<Rightarrow> nat" where
  "codes_val cs = foldl (\<lambda>v c. v * 10 + (c - 48)) 0 cs"

lemma codes_val_snoc [simp]: "codes_val (cs @ [c]) = codes_val cs * 10 + (c - 48)" "codes_val [] = 0"
  by (simp_all add: codes_val_def)

fun dec_codes :: "nat \<Rightarrow> nat list" where
  "dec_codes n = (if n = 0 then [] else dec_codes (n div 10) @ [n mod 10 + 48])"

declare dec_codes.simps [simp del]

lemma dec_codes_val: "codes_val (dec_codes n) = n \<and> (\<forall>c \<in> set (dec_codes n). digit_code c)"
proof (induction n rule: dec_codes.induct)
  case (1 n)
  then show ?case by (subst (1 2) dec_codes.simps) (auto simp: digit_code_def)
qed

lemma dec_codes_length: "n < 10 ^ k \<Longrightarrow> length (dec_codes n) \<le> k"
proof (induction k arbitrary: n)
  case 0
  then show ?case by (simp add: dec_codes.simps)
next
  case (Suc k)
  then have "n div 10 < 10 ^ k" by (simp add: less_mult_imp_div_less)
  from Suc.IH [OF this] show ?case by (subst dec_codes.simps) simp
qed

lemma modf_nonneg: "0 \<le> x \<Longrightarrow> modf x = (x - of_int \<lfloor>x\<rfloor>, of_int \<lfloor>x\<rfloor>)"
  by (simp add: modf_def trunc_def)

text \<open>One round of the loop: the quotient is exact, and the added 0.03 covers the rounding errors.\<close>

lemma whole_step:
  assumes "0 < n" "n < 2 ^ 49"
  defines "q \<equiv> rnd (of_nat n / 10)"
  shows "\<lfloor>q\<rfloor> = int (n div 10)" "0 \<le> q"
    "trunc (rnd (rnd (q - of_int \<lfloor>q\<rfloor> + rnd 0.03) * 10)) = int (n mod 10)"
proof -
  let ?a = "n div 10" and ?b = "n mod 10"
  have nn: "n = ?a * 10 + ?b" by simp
  have "(of_nat n :: rat) = of_nat ?a * 10 + of_nat ?b" by (metis nn of_nat_add of_nat_mult of_nat_numeral)
  then have n: "(of_nat n / 10 :: rat) = of_nat ?a + of_nat ?b / 10" by simp
  have b: "?b \<le> 9" by simp
  have "(of_nat n :: rat) < of_nat (2 ^ 49)" using assms(2) by (rule of_nat_less_iff [THEN iffD2])
  then have small: "(of_nat n / 10 :: rat) / 2 ^ 53 \<le> 1 / 160" by simp
  have err: "q - of_nat n / 10 \<le> 1 / 160" "of_nat n / 10 - q \<le> 1 / 160"
    unfolding q_def using small rnd_near [of "of_nat n / 10"] by linarith+
  have ge: "of_nat ?a \<le> q"
  proof -
    have "(of_nat n / 10 :: rat) < 2 ^ 53" using small by simp
    moreover have "of_int (int ?a) \<le> (of_nat n / 10 :: rat)" unfolding n by simp
    ultimately show ?thesis using rnd_ge_int [of "int ?a" "of_nat n / 10"] unfolding q_def by (simp del: divide_le_eq)
  qed
  have b': "(of_nat ?b :: rat) \<le> 9" using b by (metis of_nat_le_iff of_nat_numeral)
  show fl: "\<lfloor>q\<rfloor> = int ?a" using ge err(1) b' n by (intro floor_unique) simp_all
  show "0 \<le> q" using ge by (meson of_nat_0_le_iff order_trans)
  let ?f = "q - of_int \<lfloor>q\<rfloor>"
  have f: "of_nat ?b / 10 - 1 / 160 \<le> ?f" "?f \<le> of_nat ?b / 10 + 1 / 160" "0 \<le> ?f" "?f < 1"
    using fl ge err n b' by simp_all
  have c: "29 / 1000 \<le> rnd 0.03" "rnd 0.03 \<le> 31 / 1000" using rnd_near [of "0.03"] by simp_all
  let ?x = "?f + rnd 0.03"
  have x: "0 \<le> ?x" "?x \<le> 2" using f c by linarith+
  have y: "rnd ?x - ?x \<le> 1 / 1000" "?x - rnd ?x \<le> 1 / 1000"
    using rnd_close [OF x(1), of "1 / 1000"] x(2) by simp_all
  let ?y = "rnd ?x * 10"
  have y': "0 \<le> ?y" "?y \<le> 30" using x y rnd_nonneg [OF x(1)] by linarith+
  have z: "rnd ?y - ?y \<le> 1 / 100" "?y - rnd ?y \<le> 1 / 100"
    using rnd_close [OF y'(1), of "1 / 100"] y'(2) by simp_all
  have bounds: "of_nat ?b \<le> rnd ?y" "rnd ?y < of_nat ?b + 1" using z y f c by linarith+
  then have "0 \<le> rnd ?y" by (meson of_nat_0_le_iff order_trans)
  moreover have "\<lfloor>rnd ?y\<rfloor> = int ?b" using bounds by (intro floor_unique) simp_all
  ultimately show "trunc (rnd ?y) = int ?b" by (simp add: trunc_def)
qed

lemma whole_loop_digits:
  "n < 2 ^ 49 \<Longrightarrow> length (dec_codes n) + length ds \<le> 80 \<Longrightarrow> whole_loop (of_nat n) ds = Some (dec_codes n @ ds)"
proof (induction n arbitrary: ds rule: dec_codes.induct)
  case (1 n)
  show ?case
  proof (cases "n = 0")
    case True
    then show ?thesis by (subst whole_loop.simps) (simp add: dec_codes.simps)
  next
    case False
    note s = whole_step [OF _ 1(2)]
    have codes: "dec_codes n = dec_codes (n div 10) @ [n mod 10 + 48]" using False by (subst dec_codes.simps) simp
    have "n div 10 < 2 ^ 49" using 1(2) by (meson div_le_dividend le_less_trans)
    moreover have "modf (rnd (of_nat n / 10)) = (rnd (of_nat n / 10) - of_nat (n div 10), of_nat (n div 10))"
      using s(1,2) False by (simp add: modf_nonneg)
    ultimately show ?thesis
      using False 1(3) s codes 1(1) [OF False, of "(n mod 10 + 48) # ds"]
      by (subst whole_loop.simps) (simp add: CVTBUFSIZE_def nat_add_distrib nat_int_add)
  qed
qed

section \<open>Digits of the fraction\<close>

text \<open>
  The invariant of both fraction loops: after \<open>j\<close> multiplications by ten the value is the number \<open>D\<close> of
  the digits so far plus the remaining fraction, up to the accumulated rounding errors.
\<close>

definition near :: "rat \<Rightarrow> nat \<Rightarrow> nat \<Rightarrow> rat \<Rightarrow> bool" where
  "near v j D a \<longleftrightarrow> 0 \<le> a \<and> a \<le> 1 - 1 / 2 ^ 53 \<and> \<bar>v * 10 ^ j - (of_nat D + a)\<bar> \<le> (10 ^ j - 1) / 9 * (10 / 2 ^ 53)"

lemma near_step:
  assumes "near v j D a"
  defines "x \<equiv> rnd (a * 10)"
  shows "near v (Suc j) (D * 10 + nat \<lfloor>x\<rfloor>) (x - of_int \<lfloor>x\<rfloor>)" "0 \<le> x" "nat \<lfloor>x\<rfloor> \<le> 9"
proof -
  have a: "0 \<le> a" "a \<le> 1 - 1 / 2 ^ 53" and e: "\<bar>v * 10 ^ j - (of_nat D + a)\<bar> \<le> (10 ^ j - 1) / 9 * (10 / 2 ^ 53)"
    using assms(1) by (auto simp: near_def)
  show x: "0 \<le> x" using a(1) by (simp add: x_def rnd_nonneg)
  have "x < 10" unfolding x_def by (rule rnd_ten [OF a])
  then have "\<lfloor>x\<rfloor> < 10" unfolding floor_less_iff by simp
  then show "nat \<lfloor>x\<rfloor> \<le> 9" by linarith
  have "\<bar>x - a * 10\<bar> \<le> a * 10 / 2 ^ 53" using rnd_error [of "a * 10"] a(1) by (simp add: x_def)
  also have "\<dots> \<le> 10 / 2 ^ 53" using a(2) by (simp add: divide_simps)
  finally have r: "\<bar>x - a * 10\<bar> \<le> 10 / 2 ^ 53" .
  have sum: "of_nat (D * 10 + nat \<lfloor>x\<rfloor>) + (x - of_int \<lfloor>x\<rfloor>) = of_nat D * 10 + x" using x by simp
  have "\<bar>v * 10 ^ Suc j - (of_nat D * 10 + x)\<bar> = \<bar>10 * (v * 10 ^ j - (of_nat D + a)) - (x - a * 10)\<bar>"
    by (simp add: algebra_simps)
  also have "\<dots> \<le> 10 * \<bar>v * 10 ^ j - (of_nat D + a)\<bar> + \<bar>x - a * 10\<bar>"
    using abs_triangle_ineq4 [of "10 * (v * 10 ^ j - (of_nat D + a))" "x - a * 10"] unfolding abs_mult by simp
  also have "\<dots> \<le> 10 * ((10 ^ j - 1) / 9 * (10 / 2 ^ 53)) + 10 / 2 ^ 53"
    using mult_left_mono [OF e, of 10] r by (intro add_mono) simp_all
  also have "\<dots> = (10 ^ Suc j - 1) / 9 * (10 / 2 ^ 53)" by (simp add: field_simps)
  finally show "near v (Suc j) (D * 10 + nat \<lfloor>x\<rfloor>) (x - of_int \<lfloor>x\<rfloor>)"
    using x frac_rnd [of "a * 10"] a(1) by (simp add: near_def sum x_def)
qed

declare frac_loop.simps [simp del]

lemma frac_loop_near:
  "near v j (codes_val buf) a \<Longrightarrow> list_all digit_code buf \<Longrightarrow> length buf \<le> Suc p1 \<Longrightarrow> p1 < 80 \<Longrightarrow>
   \<exists>a'. near v (j + (Suc p1 - length buf)) (codes_val (frac_loop p1 a buf)) a' \<and>
     list_all digit_code (frac_loop p1 a buf) \<and> length (frac_loop p1 a buf) = Suc p1"
proof (induction "Suc p1 - length buf" arbitrary: j buf a)
  case 0
  then show ?case by (subst (1 2 3) frac_loop.simps) auto
next
  case (Suc n)
  let ?x = "rnd (a * 10)"
  let ?buf = "buf @ [nat (\<lfloor>?x\<rfloor> + 48)]"
  note s = near_step [OF Suc.prems(1)]
  have "0 \<le> \<lfloor>?x\<rfloor>" using s(2) by simp
  then have c: "nat (\<lfloor>?x\<rfloor> + 48) = nat \<lfloor>?x\<rfloor> + 48" by (simp add: nat_add_distrib)
  have lt: "length buf \<le> p1" using Suc.hyps(2) by linarith
  have step: "frac_loop p1 a buf = frac_loop p1 (?x - of_int \<lfloor>?x\<rfloor>) ?buf"
    using lt Suc.prems(4) s(2) by (subst frac_loop.simps) (simp add: CVTBUFSIZE_def modf_nonneg trunc_def)
  have "near v (Suc j) (codes_val ?buf) (?x - of_int \<lfloor>?x\<rfloor>)" using s(1) by (simp add: c)
  moreover have "list_all digit_code ?buf" using Suc.prems(2) s(3) by (simp add: c digit_code_def)
  ultimately show ?case
    using Suc.hyps(1) [of ?buf "Suc j" "?x - of_int \<lfloor>?x\<rfloor>"] Suc.hyps(2) Suc.prems(4) unfolding step
    by (simp add: Suc_diff_le)
qed

lemma small_loop_near:
  "1 \<le> 9 ^ N * a \<Longrightarrow> near v j 0 a \<Longrightarrow>
   \<exists>k a'. small_loop a r2 = Some (a', r2 - int k) \<and> near v (j + k) 0 a'"
proof (induction N arbitrary: a j r2)
  case 0
  then show ?case by (simp add: near_def)
next
  case (Suc N)
  let ?x = "rnd (a * 10)"
  show ?case
  proof (cases "?x < 1")
    case True
    note s = near_step [OF Suc.prems(2)]
    then have "\<lfloor>?x\<rfloor> = 0" using True by (simp add: floor_eq_iff)
    then have n: "near v (Suc j) 0 ?x" using s(1) by simp
    have "0 \<le> a" using Suc.prems(2) by (simp add: near_def)
    then have "9 * a \<le> ?x" using rnd_close(2) [of "a * 10" a] by simp
    then have "9 ^ N * (9 * a) \<le> 9 ^ N * ?x" by (rule mult_left_mono) simp
    moreover have "9 ^ N * (9 * a) = 9 ^ Suc N * a" by simp
    ultimately have "1 \<le> 9 ^ N * ?x" using Suc.prems(1) by linarith
    from Suc.IH [OF this n, of "r2 - 1"] obtain k a' where
      "small_loop ?x (r2 - 1) = Some (a', r2 - 1 - int k)" "near v (Suc j + k) 0 a'" by blast
    then show ?thesis using True
      by (subst small_loop.simps, intro exI [of _ "Suc k"] exI [of _ a']) simp
  next
    case False
    then show ?thesis using Suc.prems(2)
      by (subst small_loop.simps, intro exI [of _ 0] exI [of _ a]) simp
  qed
qed

lemma small_bound:
  assumes "0 < (a :: rat)"
  obtains N where "1 \<le> 9 ^ N * a"
proof -
  obtain N where N: "1 / a < of_nat N" using reals_Archimedean2 by blast
  have "N < 9 ^ N" by (rule power_gt_expt) simp
  then have "(of_nat N :: rat) < 9 ^ N" by (metis of_nat_less_iff of_nat_numeral of_nat_power)
  with N have "1 / a < 9 ^ N" by linarith
  with assms have "1 \<le> 9 ^ N * a" by (simp add: pos_divide_less_eq)
  then show ?thesis by (rule that)
qed

section \<open>Rounding the digits\<close>

lemma codes_val_append: "codes_val (xs @ ys) = codes_val xs * 10 ^ length ys + codes_val ys"
proof (induction ys rule: rev_induct)
  case (snoc y ys)
  then show ?case by (simp add: append_assoc [symmetric] algebra_simps del: append_assoc)
qed simp

lemma codes_val_zero [simp]: "codes_val (48 # cs) = codes_val cs"
  by (simp add: codes_val_def)

lemma codes_val_zeros [simp]: "codes_val (replicate n 48) = 0"
  by (induction n) simp_all

lemma codes_val_one: "codes_val [c] = c - 48"
  using codes_val_snoc(1) [of "[]" c] by simp

text \<open>A carry to the digit at the end of \<open>pre @ [c]\<close>, behind which there are only zeros up to position \<^verbatim>\<open>p\<close>.\<close>

lemma carry_loop_val:
  "list_all digit_code pre \<Longrightarrow> 48 \<le> c \<Longrightarrow> c \<le> 58 \<Longrightarrow>
   \<exists>buf' k. carry_loop False (length pre) (length pre + Suc z) decpt (pre @ c # replicate z 48 @ x # rest) =
       (buf', length pre + Suc z + k, decpt + int k) \<and> k \<le> 1 \<and>
     codes_val (take (length pre + Suc z + k) buf') = codes_val (pre @ c # replicate z 48) \<and>
     list_all digit_code (take (length pre + Suc z + k) buf') \<and> length (take (length pre + Suc z + k) buf') = length pre + Suc z + k"
proof (induction pre arbitrary: c z rule: rev_induct)
  case Nil
  show ?case
  proof (cases "c = 58")
    case True
    have "codes_val (49 # replicate z 48 @ [48]) = 10 ^ Suc z"
      using codes_val_append [of "[49]" "replicate (Suc z) 48"] codes_val_one [of 49]
      by (simp add: replicate_append_same)
    moreover have "codes_val (58 # replicate z 48) = 10 ^ Suc z"
      using codes_val_append [of "[58]" "replicate z 48"] codes_val_one [of 58] by simp
    ultimately show ?thesis using True
      by (intro exI [of _ "49 # replicate z 48 @ 48 # rest"] exI [of _ "1 :: nat"])
        (simp add: list_all_iff digit_code_def list_update_append Let_def)
  next
    case False
    with Nil have "c \<le> 57" by simp
    then show ?thesis using Nil
      by (intro exI [of _ "c # replicate z 48 @ x # rest"] exI [of _ "0 :: nat"]) (simp add: list_all_iff digit_code_def)
  qed
next
  case (snoc d pre)
  show ?case
  proof (cases "c = 58")
    case True
    have d: "48 \<le> d" "d \<le> 57" using snoc.prems(1) by (simp_all add: digit_code_def)
    let ?p = "length pre + Suc (Suc z)"
    have step: "carry_loop False (length (pre @ [d])) (length (pre @ [d]) + Suc z) decpt ((pre @ [d]) @ c # replicate z 48 @ x # rest) =
        carry_loop False (length pre) ?p decpt (pre @ (d + 1) # replicate (Suc z) 48 @ x # rest)"
      using True by (simp add: nth_append list_update_append Let_def)
    have "codes_val ((pre @ [d]) @ c # replicate z 48) = codes_val (pre @ (d + 1) # replicate (Suc z) 48)"
      using True d codes_val_append [of "pre @ [d, 58]" "replicate z 48"] codes_val_append [of "pre @ [d + 1]" "replicate (Suc z) 48"]
        codes_val_snoc(1) [of "pre @ [d]" 58]
      by (simp add: algebra_simps)
    with snoc.IH [of "d + 1" "Suc z"] snoc.prems(1) d show ?thesis unfolding step by simp
  next
    case False
    with snoc.prems have "c \<le> 57" by simp
    then show ?thesis using snoc.prems
      by (intro exI [of _ "(pre @ [d]) @ c # replicate z 48 @ x # rest"] exI [of _ "0 :: nat"])
        (auto simp: list_all_iff digit_code_def nth_append)
  qed
qed

text \<open>Adding five to the last digit and dropping it rounds the number to the nearest.\<close>

lemma round_digits:
  assumes "list_all digit_code (ys @ [x])"
  shows "\<exists>buf' k. carry_loop False (length ys) (length ys) decpt ((ys @ [x])[length ys := x + 5]) =
      (buf', length ys + k, decpt + int k) \<and> k \<le> 1 \<and>
    codes_val (take (length ys + k) buf') = (codes_val (ys @ [x]) + 5) div 10 \<and>
    list_all digit_code (take (length ys + k) buf') \<and> length (take (length ys + k) buf') = length ys + k"
proof -
  have x: "48 \<le> x" "x \<le> 57" and ys: "list_all digit_code ys" using assms by (simp_all add: digit_code_def)
  have val: "(codes_val (ys @ [x]) + 5) div 10 = codes_val ys + (if x < 53 then 0 else 1)"
  proof -
    have "codes_val (ys @ [x]) + 5 = codes_val ys * 10 + (x - 43)" "x - 43 < 20" using x by simp_all
    then show ?thesis using x by (auto simp: div_nat_eqI)
  qed
  show ?thesis
  proof (cases "x < 53")
    case True
    then have "carry_loop False (length ys) (length ys) decpt (ys @ [x + 5]) = (ys @ [x + 5], length ys, decpt)"
      by (cases "length ys") (simp_all add: nth_append)
    then show ?thesis using True val ys by (intro exI [of _ "ys @ [x + 5]"] exI [of _ "0 :: nat"]) simp
  next
    case False
    show ?thesis
    proof (cases ys rule: rev_cases)
      case Nil
      then show ?thesis using False val
        by (intro exI [of _ "[49]"] exI [of _ "1 :: nat"]) (simp add: codes_val_one digit_code_def Let_def)
    next
      case (snoc pre d)
      have d: "list_all digit_code pre" "48 \<le> d" "d \<le> 57" using ys by (simp_all add: snoc digit_code_def)
      have step: "carry_loop False (length ys) (length ys) decpt (ys @ [x + 5]) =
          carry_loop False (length pre) (length pre + Suc 0) decpt (pre @ (d + 1) # replicate 0 48 @ 48 # [])"
        using False by (simp add: snoc nth_append list_update_append Let_def)
      have "codes_val (pre @ (d + 1) # replicate 0 48) = codes_val ys + 1" using d by (simp add: snoc)
      with carry_loop_val [OF d(1), of "d + 1" 0 decpt 48 "[]"] d(2,3) False val show ?thesis
        unfolding list_update_length step by (simp add: snoc)
    qed
  qed
qed

section \<open>The conversion as a whole\<close>

lemma near_small_value:
  assumes "near v j 0 a" "n < j" "0 \<le> v"
  shows "v * 10 ^ n \<le> 1 / 2 + 10 ^ (n + 1) / 2 ^ 56"
proof -
  have n: "\<bar>v * 10 ^ j - a\<bar> \<le> (10 ^ j - 1) / 9 * (10 / 2 ^ 53)" "a \<le> 1"
    using assms(1) by (simp_all add: near_def)
  have "v * 10 ^ j \<le> a + (10 ^ j - 1) / 9 * (10 / 2 ^ 53)" "a \<le> 1"
    using n by linarith+
  moreover have "(10 ^ j - 1) / 9 * (10 / 2 ^ 53) \<le> 10 ^ j * (10 / 2 ^ 56 :: rat)" by (simp add: field_simps)
  ultimately have "v * 10 ^ j \<le> 1 + 10 ^ j * (10 / 2 ^ 56)" by linarith
  moreover have j: "(10 :: rat) ^ j = 10 ^ n * 10 ^ (j - n)" using assms(2) by (simp add: power_add [symmetric])
  ultimately have "v * 10 ^ n \<le> 1 / 10 ^ (j - n) + 10 ^ n * (10 / 2 ^ 56)" by (simp add: divide_simps algebra_simps)
  moreover have "(10 :: rat) ^ 1 \<le> 10 ^ (j - n)" using assms(2) by (intro power_increasing) simp_all
  then have "1 / 10 ^ (j - n) \<le> (1 / 2 :: rat)" by (simp add: divide_simps)
  ultimately have "v * 10 ^ n \<le> 1 / 2 + 10 ^ n * (10 / 2 ^ 56)" by linarith
  then show ?thesis by simp
qed

lemma near_rounded:
  assumes "near v (Suc n) D a"
  shows "\<bar>of_nat ((D + 5) div 10) - v * 10 ^ n\<bar> \<le> 1 / 2 + 10 ^ (n + 1) / 2 ^ 56"
proof -
  let ?R = "(D + 5) div 10" and ?E = "(10 ^ Suc n - 1) / 9 * (10 / 2 ^ 53) :: rat"
  have a: "0 \<le> a" "a \<le> 1" "\<bar>v * 10 ^ Suc n - (of_nat D + a)\<bar> \<le> ?E" using assms by (simp_all add: near_def)
  have "10 * ?R \<le> D + 5" "D \<le> 10 * ?R + 4" by presburger+
  then have "of_nat (10 * ?R) \<le> (of_nat (D + 5) :: rat)" "(of_nat D :: rat) \<le> of_nat (10 * ?R + 4)"
    by (simp_all only: of_nat_le_iff)
  then have R: "10 * of_nat ?R \<le> (of_nat D + 5 :: rat)" "(of_nat D :: rat) \<le> 10 * of_nat ?R + 4" by simp_all
  have "?E \<le> 10 * (10 ^ (n + 1) / 2 ^ 56)" by (simp add: field_simps)
  then have "\<bar>10 * of_nat ?R - v * 10 ^ Suc n\<bar> \<le> 5 + 10 * (10 ^ (n + 1) / 2 ^ 56)" using a R by linarith
  then have "\<bar>10 * (of_nat ?R - v * 10 ^ n)\<bar> \<le> 10 * (1 / 2 + 10 ^ (n + 1) / 2 ^ 56)" by (simp add: algebra_simps)
  then show ?thesis unfolding abs_mult by simp
qed

lemma map_codes:
  "list_all digit_code cs \<Longrightarrow> read_digits 10 (map char_of cs) = codes_val cs \<and> (\<forall>c \<in> set (map char_of cs). is_digit c)"
proof (induction cs rule: rev_induct)
  case (snoc c cs)
  then have "of_char (char_of c :: char) = c" by (simp add: digit_code_def of_char_of)
  then have "is_digit (char_of c)" "digit_val (char_of c) = c - 48"
    using snoc.prems by (simp_all add: is_digit_def digit_val_def digit_code_def)
  with snoc show ?case by (simp add: read_digits_snoc)
qed (simp add: read_digits_def)

text \<open>What the conversion promises, and the part of it behind the whole digits and the leading zeros.\<close>

definition accurate :: "rat \<Rightarrow> int \<Rightarrow> (string \<times> int \<times> bool) option \<Rightarrow> bool" where
  "accurate v n r \<longleftrightarrow> (\<exists>ds decpt. r = Some (ds, decpt, False) \<and> length ds = nat (n + decpt) \<and> length ds < 80 \<and> (\<forall>c \<in> set ds. is_digit c) \<and>
    \<bar>of_nat (read_digits 10 ds) - v * 10 ^ nat n\<bar> \<le> 1 / 2 + 10 ^ (nat n + 1) / 2 ^ 56)"

definition cvt_end :: "int \<Rightarrow> double \<Rightarrow> int \<Rightarrow> nat list \<Rightarrow> (string \<times> int \<times> bool) option" where
  "cvt_end n a r2 buf = (let p1 = nat (n + r2); full = frac_loop p1 a buf;
      (buf, p, decpt) = carry_loop False p1 p1 r2 (full[p1 := full ! p1 + 5])
    in if 80 \<le> p then None else Some (map char_of (take p buf), decpt, False))"

lemma cvt_eq:
  assumes "0 \<le> v" "0 \<le> n" "n < 79" "modf v = (f, fi)"
    and "(if fi \<noteq> 0 then do { ds \<leftarrow> whole_loop fi []; Some (ds, f, int (length ds)) }
        else if 0 < f then do { (arg, r2) \<leftarrow> small_loop f 0; Some ([], arg, r2) } else Some ([], f, 0)) = Some (buf, a, r2)"
    and "n + r2 < 80"
  shows "fcvtbuf double_flops v n = (if n + r2 < 0 then Some ([], r2, False) else cvt_end n a r2 buf)"
  using assms(1-4,6) unfolding double_flops_def flops.simps cvt_def Let_def
  by (simp add: assms(5) CVTBUFSIZE_def cvt_end_def Let_def split: prod.split)

lemma cvt_end_accurate:
  assumes "near v j (codes_val buf) a" "list_all digit_code buf" "int j = int (length buf) - r2"
    and "0 \<le> n + r2" "int (length buf) \<le> n + r2 + 1" "n + r2 < 79" "0 \<le> n"
  shows "accurate v n (cvt_end n a r2 buf)"
proof -
  define p1 where "p1 = nat (n + r2)"
  define full where "full = frac_loop p1 a buf"
  have p1: "p1 < 80" "length buf \<le> Suc p1" using assms(5,6) unfolding p1_def by linarith+
  then obtain a' where full: "near v (j + (Suc p1 - length buf)) (codes_val full) a'" "list_all digit_code full" "length full = Suc p1"
    using frac_loop_near [OF assms(1,2)] by (auto simp: full_def)
  have "j + (Suc p1 - length buf) = Suc (nat n)" using assms(3-5,7) unfolding p1_def by linarith
  with full(1) have nf: "near v (Suc (nat n)) (codes_val full) a'" by simp
  obtain ys x where yx: "full = ys @ [x]" "length ys = p1"
    using full(3) by (metis append_butlast_last_id length_butlast diff_Suc_1 list.size(3) nat.distinct(1))
  obtain buf' k where c: "carry_loop False p1 p1 r2 (full[p1 := full ! p1 + 5]) = (buf', p1 + k, r2 + int k)" "k \<le> 1"
    "codes_val (take (p1 + k) buf') = (codes_val full + 5) div 10" "list_all digit_code (take (p1 + k) buf')"
    "length (take (p1 + k) buf') = p1 + k"
    using round_digits [of ys x r2] full(2) yx by auto
  have "p1 + k < 80" "p1 + k = nat (n + (r2 + int k))" using c(2) assms(4,6) by (simp_all add: p1_def)
  then have "cvt_end n a r2 buf = Some (map char_of (take (p1 + k) buf'), r2 + int k, False)"
    using c(1) by (simp add: cvt_end_def Let_def p1_def [symmetric] full_def [symmetric])
  with \<open>p1 + k < 80\<close> \<open>p1 + k = nat (n + (r2 + int k))\<close> c map_codes [OF c(4)] near_rounded [OF nf] show ?thesis by (simp add: accurate_def)
qed

text \<open>Numbers with digits in front of the point, and numbers without.\<close>

lemma whole_accurate:
  assumes "modf v = (f, of_nat i)" "v = of_nat i + f" "0 < i" "i < 2 ^ 48" "0 \<le> f" "f \<le> 1 - 1 / 2 ^ 53" "0 \<le> n" "n \<le> 60"
  shows "accurate v n (fcvtbuf double_flops v n)"
proof -
  let ?ds = "dec_codes i"
  have l: "length ?ds \<le> 15" using assms(4) by (intro dec_codes_length) simp
  have w: "whole_loop (of_nat i) [] = Some ?ds" using whole_loop_digits [of i "[]"] assms(4) l by simp
  have "near v 0 (codes_val ?ds) f" using assms(2,5,6) dec_codes_val [of i] by (simp add: near_def)
  then have "accurate v n (cvt_end n f (int (length ?ds)) ?ds)"
    using dec_codes_val [of i] l assms(7,8) by (intro cvt_end_accurate [of v 0]) (simp_all add: list_all_iff)
  moreover have "fcvtbuf double_flops v n = cvt_end n f (int (length ?ds)) ?ds"
    using cvt_eq [of v n f "of_nat i" ?ds f "int (length ?ds)"] assms w l by simp
  ultimately show ?thesis by simp
qed

lemma small_accurate:
  assumes "modf v = (v, 0)" "0 \<le> v" "v \<le> 1 - 1 / 2 ^ 53" "0 \<le> n" "n \<le> 60"
  shows "accurate v n (fcvtbuf double_flops v n)"
proof -
  have z: "near v 0 0 v" using assms(2,3) by (simp add: near_def)
  obtain k a where s: "(if 0 < v then do { (arg, r2) \<leftarrow> small_loop v 0; Some ([] :: nat list, arg, r2) } else Some ([], v, 0)) = Some ([], a, - int k)"
    "near v k 0 a"
  proof (cases "0 < v")
    case True
    obtain N where "1 \<le> 9 ^ N * v" using small_bound [OF True] by blast
    from small_loop_near [OF this z, of 0] obtain k a where "small_loop v 0 = Some (a, - int k)" "near v k 0 a" by auto
    then show ?thesis using that [of a k] True by simp
  next
    case False
    then show ?thesis using that [of v 0] z by simp
  qed
  have eq: "fcvtbuf double_flops v n = (if n - int k < 0 then Some ([], - int k, False) else cvt_end n a (- int k) [])"
    using cvt_eq [of v n v 0 "[]" a "- int k"] assms s(1) by simp
  show ?thesis
  proof (cases "n - int k < 0")
    case True
    then have "v * 10 ^ nat n \<le> 1 / 2 + 10 ^ (nat n + 1) / 2 ^ 56"
      using near_small_value [OF s(2), of "nat n"] assms(2,4) by simp
    with True eq assms(2) show ?thesis by (simp add: accurate_def read_digits_def)
  next
    case False
    then show ?thesis unfolding eq using s(2) assms(4,5) by (simp, intro cvt_end_accurate [of v k]) simp_all
  qed
qed

lemma conversion_accurate:
  assumes "dbl v" "0 \<le> v" "v < 2 ^ 48" "0 \<le> n" "n \<le> 60"
  shows "accurate v n (fcvtbuf double_flops v n)"
proof -
  define i where "i = nat \<lfloor>v\<rfloor>"
  let ?f = "v - of_nat i"
  have i: "\<lfloor>v\<rfloor> = int i" "i < 2 ^ 48" using assms(2,3) by (simp_all add: i_def floor_less_iff nat_less_iff)
  have f: "0 \<le> ?f" "?f \<le> 1 - 1 / 2 ^ 53"
    using frac_rnd [OF assms(2)] assms(1) i(1) of_int_floor_le [of v] by (simp_all add: dbl_def)
  have m: "modf v = (?f, of_nat i)" using modf_nonneg [OF assms(2)] i(1) by simp
  show ?thesis
  proof (cases "i = 0")
    case True
    then show ?thesis using small_accurate [of v n] m f assms(4,5) by simp
  next
    case False
    then show ?thesis using whole_accurate [OF m] i(2) f assms(4,5) by simp
  qed
qed

text \<open>
  C34. The digits printed for a number with \<^verbatim>\<open>%f\<close>: for every double below \<open>2 ^ 48\<close> the conversion returns decimal digits,
  as many as the requested decimals and the position of the point say, whose value is the number to within half a
  unit of the last decimal, up to the rounding errors of the repeated multiplications, which stay below
  \<open>10 ^ (n + 1) / 2 ^ 56\<close> units.
\<close>

theorem fcvtbuf_accurate:
  assumes "dbl v" "0 \<le> v" "v < 2 ^ 48" "0 \<le> n" "n \<le> 60"
  shows "\<exists>ds decpt. fcvtbuf double_flops v n = Some (ds, decpt, False) \<and> length ds = nat (n + decpt) \<and> length ds < 80 \<and>
    (\<forall>c \<in> set ds. is_digit c) \<and>
    \<bar>of_nat (read_digits 10 ds) - v * 10 ^ nat n\<bar> \<le> 1 / 2 + 10 ^ (nat n + 1) / 2 ^ 56"
  using conversion_accurate [OF assms] unfolding accurate_def .

lemma dbl_int: "n < 2 ^ 53 \<Longrightarrow> dbl (of_nat n)"
  using rnd_int [of "int n"] by (simp add: dbl_def)

theorem fcvtbuf_accurate_witness:
  "\<exists>ds decpt. fcvtbuf double_flops 71 6 = Some (ds, decpt, False) \<and> length ds = nat (6 + decpt) \<and>
     \<bar>of_nat (read_digits 10 ds) - (71000000 :: rat)\<bar> \<le> 1 / 2 + 10 ^ 7 / 2 ^ 56"
  using fcvtbuf_accurate [of 71 6] dbl_int [of 71] by auto

end
