(* ===== verification/CoreMain.thy ===== *)
theory CoreMain
  imports ListInit Cvt
begin

text \<open>
  The benchmark program as a whole: \<^verbatim>\<open>main\<close> of \<^verbatim>\<open>fpga/coremark/src/core_main.c\<close>, the seed and type checks of
  \<^verbatim>\<open>core_util.c\<close> and the timing of \<^verbatim>\<open>core_portme.c\<close>, in the configuration of the port (static
  memory, volatile seeds, one context, floating point). Time is the number of clock cycles of the board; how many of them a run of
  \<^verbatim>\<open>iterate\<close> takes is a parameter. Output goes through \<^const>\<open>ee_printf\<close> to the serial port.
\<close>

section \<open>Configuration\<close>

definition TOTAL_DATA_SIZE :: u32 where "TOTAL_DATA_SIZE = 2 * 1000"
definition ID_LIST :: u32 where "ID_LIST = push_bit 0 1"
definition ID_MATRIX :: u32 where "ID_MATRIX = push_bit 1 1"
definition ID_STATE :: u32 where "ID_STATE = push_bit 2 1"
definition ALL_ALGORITHMS_MASK :: u32 where "ALL_ALGORITHMS_MASK = ID_LIST OR ID_MATRIX OR ID_STATE"
definition NUM_ALGORITHMS :: nat where "NUM_ALGORITHMS = 3"
definition default_num_contexts :: u32 where "default_num_contexts = 1"
definition CLOCKS_PER_SEC :: nat where "CLOCKS_PER_SEC = 60000000"

text \<open>
  What the build and the linker fix: the volatile seeds, the address of \<^verbatim>\<open>static_memblk\<close> and two
  strings of the compiler.
\<close>

record build_cfg =
  seed1_volatile :: s32
  seed2_volatile :: s32
  seed3_volatile :: s32
  seed4_volatile :: s32
  seed5_volatile :: s32
  static_memblk :: ptr
  compiler_version :: string
  compiler_flags :: string

text \<open>The seeds of the three kinds of run, with the iteration count \<^verbatim>\<open>ITERATIONS\<close>.\<close>

definition validation_run :: "s32 \<Rightarrow> build_cfg \<Rightarrow> build_cfg" where
  "validation_run n bc = bc\<lparr>seed1_volatile := 0x3415, seed2_volatile := 0x3415, seed3_volatile := 0x66,
     seed4_volatile := n, seed5_volatile := 0\<rparr>"

definition performance_run :: "s32 \<Rightarrow> build_cfg \<Rightarrow> build_cfg" where
  "performance_run n bc = bc\<lparr>seed1_volatile := 0, seed2_volatile := 0, seed3_volatile := 0x66,
     seed4_volatile := n, seed5_volatile := 0\<rparr>"

definition profile_run :: "s32 \<Rightarrow> build_cfg \<Rightarrow> build_cfg" where
  "profile_run n bc = bc\<lparr>seed1_volatile := 8, seed2_volatile := 8, seed3_volatile := 8,
     seed4_volatile := n, seed5_volatile := 0\<rparr>"

text \<open>The choice between them when none is requested.\<close>

definition default_run :: "s32 \<Rightarrow> build_cfg \<Rightarrow> build_cfg" where
  "default_run n =
     (if TOTAL_DATA_SIZE = 1200 then profile_run n
      else if TOTAL_DATA_SIZE = 2000 then performance_run n
      else validation_run n)"

definition get_seed_32 :: "build_cfg \<Rightarrow> int \<Rightarrow> s32" where
  "get_seed_32 bc i =
     (if i = 1 then seed1_volatile bc
      else if i = 2 then seed2_volatile bc
      else if i = 3 then seed3_volatile bc
      else if i = 4 then seed4_volatile bc
      else if i = 5 then seed5_volatile bc
      else 0)"

definition get_seed :: "build_cfg \<Rightarrow> int \<Rightarrow> s16" where
  "get_seed bc i = ucast (get_seed_32 bc i)"

text \<open>The seeds of an operating system, \<^verbatim>\<open>SEED_FUNC\<close>: the functions \<^verbatim>\<open>portme_sys1\<close> to \<^verbatim>\<open>portme_sys5\<close> are a parameter.\<close>

definition get_seed_func :: "(nat \<Rightarrow> s32) \<Rightarrow> int \<Rightarrow> s32" where
  "get_seed_func portme_sys i =
     (if i = 1 then portme_sys 1
      else if i = 2 then portme_sys 2
      else if i = 3 then portme_sys 3
      else if i = 4 then portme_sys 4
      else if i = 5 then portme_sys 5
      else 0)"

text \<open>The seeds of a command line, \<^verbatim>\<open>SEED_ARG\<close>; a signed overflow is \<^const>\<open>None\<close>.\<close>

definition s32_of :: "int \<Rightarrow> int option" where
  "s32_of v = (if - 2147483648 \<le> v \<and> v < 2147483648 then Some v else None)"

fun hex_digits :: "int \<Rightarrow> string \<Rightarrow> (int \<times> string) option" where
  "hex_digits retval [] = Some (retval, [])"
| "hex_digits retval (c # cs) =
     (if is_digit c \<or> of_char c \<ge> (97 :: nat) \<and> of_char c \<le> (102 :: nat) then do {
        let digit = of_char c - (48 :: int);
        let digit = (if digit > 9 then 10 + of_char c - 97 else digit);
        retval \<leftarrow> s32_of (retval * 16);
        retval \<leftarrow> s32_of (retval + digit);
        hex_digits retval cs
      } else Some (retval, c # cs))"

fun dec_digits :: "int \<Rightarrow> string \<Rightarrow> (int \<times> string) option" where
  "dec_digits retval [] = Some (retval, [])"
| "dec_digits retval (c # cs) =
     (if is_digit c then do {
        let digit = of_char c - (48 :: int);
        retval \<leftarrow> s32_of (retval * 10);
        retval \<leftarrow> s32_of (retval + digit);
        dec_digits retval cs
      } else Some (retval, c # cs))"

definition parseval :: "string \<Rightarrow> int option" where
  "parseval valstring = do {
     let (neg, valstring) = (if take 1 valstring = ''-'' then (- 1, drop 1 valstring) else (1, valstring));
     let (hexmode, valstring) = (if take 2 valstring = ''0x'' then (True, drop 2 valstring) else (False, valstring));
     (retval, valstring) \<leftarrow> (if hexmode then hex_digits 0 valstring else dec_digits 0 valstring);
     retval \<leftarrow> (if take 1 valstring = ''K'' then s32_of (retval * 1024) else Some retval);
     retval \<leftarrow> (if take 1 valstring = ''M'' then s32_of (retval * (1024 * 1024)) else Some retval);
     s32_of (retval * neg)
   }"

definition get_seed_args :: "nat \<Rightarrow> string list \<Rightarrow> int option" where
  "get_seed_args i argv = (if length argv > i then parseval (argv ! i) else Some 0)"

section \<open>Output\<close>

type_synonym msg = "string \<times> double arg list"

definition nl :: string where "nl = [CHR 0x0A]"

fun print_msgs :: "uart_env \<Rightarrow> msg list \<Rightarrow> 'i uart_sys \<Rightarrow> 'i uart_sys option" where
  "print_msgs env [] s = Some s"
| "print_msgs env ((fmt, args) # ms) s = do { (_, s) \<leftarrow> ee_printf double_flops env fmt args s; print_msgs env ms s }"

text \<open>The sizes of the types of the port, and the checks of \<^verbatim>\<open>core_util.c\<close> and \<^verbatim>\<open>portable_init\<close> on them.\<close>

record ctypes =
  size_u8 :: nat
  size_u16 :: nat
  size_s16 :: nat
  size_s32 :: nat
  size_u32 :: nat
  size_ptr_int :: nat
  size_ptr :: nat
  size_list_head :: nat

definition ilp32 :: ctypes where
  "ilp32 = \<lparr>size_u8 = 1, size_u16 = 2, size_s16 = 2, size_s32 = 4, size_u32 = 4, size_ptr_int = 4, size_ptr = 4, size_list_head = 8\<rparr>"

definition type_check :: "bool \<Rightarrow> string \<Rightarrow> u8 \<times> msg list \<Rightarrow> u8 \<times> msg list" where
  "type_check bad text = (\<lambda>(retval, ms). if bad then (retval + 1, ms @ [(text @ nl, [])]) else (retval, ms))"

definition check_data_types :: "ctypes \<Rightarrow> u8 \<times> msg list" where
  "check_data_types t =
     (let r = (0, []);
          r = type_check (size_u8 t \<noteq> 1) ''ERROR: ee_u8 is not an 8b datatype!'' r;
          r = type_check (size_u16 t \<noteq> 2) ''ERROR: ee_u16 is not a 16b datatype!'' r;
          r = type_check (size_s16 t \<noteq> 2) ''ERROR: ee_s16 is not a 16b datatype!'' r;
          r = type_check (size_s32 t \<noteq> 4) ''ERROR: ee_s32 is not a 32b datatype!'' r;
          r = type_check (size_u32 t \<noteq> 4) ''ERROR: ee_u32 is not a 32b datatype!'' r;
          r = type_check (size_ptr_int t \<noteq> size_ptr t) ''ERROR: ee_ptr_int is not a datatype that holds an int pointer!'' r;
          (retval, ms) = r
      in (retval, if 0 < retval then ms @ [(''ERROR: Please modify the datatypes in core_portme.h!'' @ nl, [])] else ms))"

section \<open>The port\<close>

text \<open>
  The running program: the benchmark's data, the serial port with the cycle counter, and the static variables of
  \<^verbatim>\<open>core_portme.c\<close>.
\<close>

record 'i board =
  cm :: cstate
  io :: "'i uart_sys"
  start_time_val :: u32
  stop_time_val :: u32
  portable_id :: u8

text \<open>The low word of \<^verbatim>\<open>mtime\<close>, which counts the cycles since reset.\<close>

definition barebones_clock :: "'i board \<Rightarrow> u32" where
  "barebones_clock b = word_of_nat (cycle (io b))"

definition start_time :: "'i board \<Rightarrow> 'i board" where
  "start_time b = b\<lparr>start_time_val := barebones_clock b\<rparr>"

definition stop_time :: "'i board \<Rightarrow> 'i board" where
  "stop_time b = b\<lparr>stop_time_val := barebones_clock b\<rparr>"

definition get_time :: "'i board \<Rightarrow> u32" where
  "get_time b = stop_time_val b - start_time_val b"

definition time_in_secs :: "u32 \<Rightarrow> double" where
  "time_in_secs ticks = rnd (of_nat (unat ticks) / of_nat CLOCKS_PER_SEC)"

definition portable_init :: "ctypes \<Rightarrow> uart_env \<Rightarrow> 'i board \<Rightarrow> 'i board option" where
  "portable_init t env b = do {
     s \<leftarrow> print_msgs env
       ((if size_ptr_int t \<noteq> size_ptr t
         then [(''ERROR! Please define ee_ptr_int to a type that holds a pointer!'' @ nl, [])] else []) @
        (if size_u32 t \<noteq> 4 then [(''ERROR! Please define ee_u32 to a 32b unsigned type!'' @ nl, [])] else [])) (io b);
     Some (b\<lparr>io := s, portable_id := 1\<rparr>)
   }"

definition portable_fini :: "'i board \<Rightarrow> 'i board" where
  "portable_fini b = b\<lparr>portable_id := 0\<rparr>"

section \<open>Parameters and memory\<close>

definition set_params :: "build_cfg \<Rightarrow> core_results \<Rightarrow> core_results" where
  "set_params bc r =
     (let r = r\<lparr>seed1 := get_seed bc 1, seed2 := get_seed bc 2, seed3 := get_seed bc 3,
                iterations := get_seed_32 bc 4, execs := get_seed_32 bc 5\<rparr>;
          r = (if execs r = 0 then r\<lparr>execs := ALL_ALGORITHMS_MASK\<rparr> else r);
          r = (if seed1 r = 0 \<and> seed2 r = 0 \<and> seed3 r = 0 then r\<lparr>seed1 := 0, seed2 := 0, seed3 := 0x66\<rparr> else r);
          r = (if seed1 r = 1 \<and> seed2 r = 0 \<and> seed3 r = 0 then r\<lparr>seed1 := 0x3415, seed2 := 0x3415, seed3 := 0x66\<rparr> else r)
      in r\<lparr>res_size := TOTAL_DATA_SIZE, err := 0\<rparr>)"

definition selected :: "nat \<Rightarrow> u32 \<Rightarrow> bool" where
  "selected i ex \<longleftrightarrow> push_bit i 1 AND ex \<noteq> 0"

definition num_algorithms :: "u32 \<Rightarrow> u16" where
  "num_algorithms ex = for_up NUM_ALGORITHMS (\<lambda>i n. if selected i ex then n + 1 else n) 0"

text \<open>\<^verbatim>\<open>memblock[1]\<close> to \<^verbatim>\<open>memblock[3]\<close> as a function of the index.\<close>

definition assign_pointers :: "ptr \<Rightarrow> u32 \<Rightarrow> u32 \<Rightarrow> nat \<Rightarrow> ptr" where
  "assign_pointers base0 sz ex =
     fst (for_up NUM_ALGORITHMS
       (\<lambda>i (mb, j :: u16). if selected i ex then (mb(i + 1 := base0 + unat (sz * ucast j)), j + 1) else (mb, j)) (\<lambda>_. 0, 0))"

text \<open>The calls of the initialisers, on static memory that starts out zero.\<close>

definition call_inits :: "(nat \<Rightarrow> ptr) \<Rightarrow> cstate \<Rightarrow> cstate option" where
  "call_inits mb s = do {
     let r = res s;
     let zeros = unat (res_size r);
     s \<leftarrow> (if execs r AND ID_LIST \<noteq> 0 then do {
             (l, s) \<leftarrow> core_list_init (res_size r) (mb 1) (seed1 r) s;
             Some (s\<lparr>res := (res s)\<lparr>res_list := l\<rparr>\<rparr>)
           } else Some s);
     s \<leftarrow> (if execs r AND ID_MATRIX \<noteq> 0 then do {
             (_, p) \<leftarrow> core_init_matrix (res_size r) (word_of_nat (mb 2)) (promote16 (seed1 r) OR push_bit 16 (promote16 (seed2 r)))
               (replicate zeros 0) (replicate zeros 0) (replicate zeros 0);
             Some (s\<lparr>res := (res s)\<lparr>mat := p\<rparr>\<rparr>)
           } else Some s);
     (if execs r AND ID_STATE \<noteq> 0 then do {
        mem \<leftarrow> core_init_state (res_size r) (seed1 r) (replicate zeros 0);
        Some (s\<lparr>res := (res s)\<lparr>memblock3 := mem\<rparr>\<rparr>)
      } else Some s)
   }"

section \<open>Running and timing\<close>

definition run_iterate :: "uart_env \<Rightarrow> (cstate \<Rightarrow> nat) \<Rightarrow> 'i board \<Rightarrow> 'i board option" where
  "run_iterate env cost b = do {
     s \<leftarrow> iterate (cm b);
     Some (b\<lparr>cm := s, io := uart_wait env (cost (cm b)) (io b)\<rparr>)
   }"

definition timed_run :: "uart_env \<Rightarrow> (cstate \<Rightarrow> nat) \<Rightarrow> 'i board \<Rightarrow> 'i board option" where
  "timed_run env cost b = do {
     let b = start_time b;
     b \<leftarrow> run_iterate env cost b;
     Some (stop_time b)
   }"

definition set_iterations :: "u32 \<Rightarrow> 'i board \<Rightarrow> 'i board" where
  "set_iterations n b = b\<lparr>cm := (cm b)\<lparr>res := (res (cm b))\<lparr>iterations := n\<rparr>\<rparr>\<rparr>"

text \<open>\<^verbatim>\<open>while (secs_passed < 1)\<close>, whose condition holds before the first round.\<close>

partial_function (option) calibrate_loop :: "uart_env \<Rightarrow> (cstate \<Rightarrow> nat) \<Rightarrow> 'i board \<Rightarrow> (double \<times> 'i board) option" where
  "calibrate_loop env cost b = do {
     b \<leftarrow> timed_run env cost (set_iterations (iterations (res (cm b)) * 10) b);
     let secs_passed = time_in_secs (get_time b);
     if secs_passed < 1 then calibrate_loop env cost b else Some (secs_passed, b)
   }"

definition calibrate :: "uart_env \<Rightarrow> (cstate \<Rightarrow> nat) \<Rightarrow> 'i board \<Rightarrow> 'i board option" where
  "calibrate env cost b =
     (if iterations (res (cm b)) = 0 then do {
        (secs_passed, b) \<leftarrow> calibrate_loop env cost (set_iterations 1 b);
        let divisor = (word_of_int (trunc secs_passed) :: u32);
        let divisor = (if divisor = 0 then 1 else divisor);
        Some (set_iterations (iterations (res (cm b)) * (1 + 10 div divisor)) b)
      } else Some b)"

section \<open>Validation\<close>

definition list_known_crc :: "u16 list" where "list_known_crc = [0xd4b0, 0x3340, 0x6a79, 0xe714, 0xe3c1]"
definition matrix_known_crc :: "u16 list" where "matrix_known_crc = [0xbe52, 0x1199, 0x5608, 0x1fd7, 0x0747]"
definition state_known_crc :: "u16 list" where "state_known_crc = [0x5e47, 0x39bf, 0xe5a4, 0x8e3a, 0x8d84]"

definition seedcrc :: "core_results \<Rightarrow> u16" where
  "seedcrc r = crc16 (ucast (res_size r)) (crc16 (seed3 r) (crc16 (seed2 r) (crc16 (seed1 r) 0)))"

text \<open>The \<^verbatim>\<open>switch\<close> on \<^verbatim>\<open>seedcrc\<close>: \<^verbatim>\<open>known_id\<close>, with \<^const>\<open>None\<close> for -1, and the line printed.\<close>

definition known_run :: "u16 \<Rightarrow> (nat \<times> string) option" where
  "known_run c =
     (if c = 0x8a02 then Some (0, ''6k performance run parameters for coremark.'')
      else if c = 0x7b05 then Some (1, ''6k validation run parameters for coremark.'')
      else if c = 0x4eaf then Some (2, ''Profile generation run parameters for coremark.'')
      else if c = 0xe9f5 then Some (3, ''2K performance run parameters for coremark.'')
      else if c = 0x18f2 then Some (4, ''2K validation run parameters for coremark.'')
      else None)"

definition check_crc :: "u32 \<Rightarrow> string \<Rightarrow> (core_results \<Rightarrow> u16) \<Rightarrow> u16 \<Rightarrow> core_results \<times> msg list \<Rightarrow> core_results \<times> msg list" where
  "check_crc flg name0 sel known = (\<lambda>(r, ms).
     if execs r AND flg \<noteq> 0 \<and> sel r \<noteq> known
     then (r\<lparr>err := err r + 1\<rparr>,
       ms @ [(''[%u]ERROR! '' @ name0 @ '' crc 0x%04x - should be 0x%04x'' @ nl, [AInt 0, AInt (ucast (sel r)), AInt (ucast known)])])
     else (r, ms))"

definition check_crcs :: "nat \<Rightarrow> core_results \<Rightarrow> core_results \<times> msg list" where
  "check_crcs known_id r =
     check_crc ID_STATE ''state'' crcstate (state_known_crc ! known_id)
       (check_crc ID_MATRIX ''matrix'' crcmatrix (matrix_known_crc ! known_id)
         (check_crc ID_LIST ''list'' crclist (list_known_crc ! known_id) (r\<lparr>err := 0\<rparr>, [])))"

text \<open>The results, \<^verbatim>\<open>total_errors\<close> before the report, and the messages so far.\<close>

definition validate :: "ctypes \<Rightarrow> core_results \<Rightarrow> core_results \<times> s16 \<times> msg list" where
  "validate t r =
     (let (r, total_errors, ms) =
        (case known_run (seedcrc r) of
           None \<Rightarrow> (r, - 1, [])
         | Some (known_id, line) \<Rightarrow>
             (let (r, ms) = check_crcs known_id r in (r, err r, (line @ nl, []) # ms)));
        (bad, ms') = check_data_types t
      in (r, total_errors + ucast bad, ms @ ms'))"

section \<open>The report\<close>

definition iterations_per_sec :: "core_results \<Rightarrow> u32 \<Rightarrow> double" where
  "iterations_per_sec r total_time =
     rnd (of_nat (unat (default_num_contexts * iterations r)) / time_in_secs total_time)"

definition crc_report :: "string \<Rightarrow> u16 \<Rightarrow> msg" where
  "crc_report label v = (''[%d]'' @ label @ '': 0x%04x'' @ nl, [AInt 0, AInt (ucast v)])"

definition too_short :: msg where
  "too_short = (''ERROR! Must execute for at least 10 secs for a valid result!'' @ nl, [])"

definition validated :: msg where
  "validated = (''Correct operation validated. See README.md for run and reporting rules.'' @ nl, [])"

definition errors_detected :: msg where
  "errors_detected = (''Errors detected'' @ nl, [])"

definition cannot_validate :: msg where
  "cannot_validate = (''Cannot validate operation for these seed values, please compare with results on a known platform.'' @ nl, [])"

definition report_times :: "core_results \<Rightarrow> u32 \<Rightarrow> msg list" where
  "report_times r total_time =
     [(''CoreMark Size    : %lu'' @ nl, [AInt (res_size r)]),
      (''Total ticks      : %lu'' @ nl, [AInt total_time]),
      (''Total time (secs): %f'' @ nl, [AFloat (time_in_secs total_time)])] @
     (if 0 < time_in_secs total_time
      then [(''Iterations/Sec   : %f'' @ nl, [AFloat (iterations_per_sec r total_time)])] else []) @
     (if time_in_secs total_time < 10 then [too_short] else [])"

definition report_config :: "build_cfg \<Rightarrow> core_results \<Rightarrow> msg list" where
  "report_config bc r =
     [(''Iterations       : %lu'' @ nl, [AInt (default_num_contexts * iterations r)]),
      (''Compiler version : %s'' @ nl, [AStr (Some (compiler_version bc))]),
      (''Compiler flags   : %s'' @ nl, [AStr (Some (compiler_flags bc))]),
      (''Memory location  : %s'' @ nl, [AStr (Some ''DDR'')])]"

definition report_crcs :: "core_results \<Rightarrow> msg list" where
  "report_crcs r =
     [(''seedcrc          : 0x%04x'' @ nl, [AInt (ucast (seedcrc r))])] @
     (if execs r AND ID_LIST \<noteq> 0 then [crc_report ''crclist       '' (crclist r)] else []) @
     (if execs r AND ID_MATRIX \<noteq> 0 then [crc_report ''crcmatrix     '' (crcmatrix r)] else []) @
     (if execs r AND ID_STATE \<noteq> 0 then [crc_report ''crcstate      '' (crcstate r)] else []) @
     [crc_report ''crcfinal      '' (crc r)]"

definition report_score :: "build_cfg \<Rightarrow> core_results \<Rightarrow> u32 \<Rightarrow> msg list" where
  "report_score bc r total_time =
     (if map_option fst (known_run (seedcrc r)) = Some 3
      then [(''CoreMark 1.0 : %f / %s %s'',
              [AFloat (iterations_per_sec r total_time), AStr (Some (compiler_version bc)), AStr (Some (compiler_flags bc))]),
            ('' / %s'', [AStr (Some ''DDR'')]), (nl, [])]
      else [])"

definition report :: "build_cfg \<Rightarrow> core_results \<Rightarrow> u32 \<Rightarrow> s16 \<Rightarrow> msg list" where
  "report bc r total_time total_errors =
     (let total_errors = (if time_in_secs total_time < 10 then total_errors + 1 else total_errors)
      in report_times r total_time @ report_config bc r @ report_crcs r @
         (if total_errors = 0 then validated # report_score bc r total_time else []) @
         (if 0 < sint total_errors then [errors_detected] else []) @
         (if sint total_errors < 0 then [cannot_validate] else []))"

text \<open>Everything \<^verbatim>\<open>main\<close> prints about the results of the benchmark and the time it took.\<close>

definition main_messages :: "ctypes \<Rightarrow> build_cfg \<Rightarrow> core_results \<Rightarrow> u32 \<Rightarrow> core_results \<times> msg list" where
  "main_messages t bc r total_time =
     (let (r, total_errors, ms) = validate t r in (r, ms @ report bc r total_time total_errors))"

section \<open>The program\<close>

definition setup_run :: "build_cfg \<Rightarrow> cstate \<Rightarrow> cstate option" where
  "setup_run bc s = do {
     let r = set_params bc (res s);
     let num = num_algorithms (execs r);
     if num = 0 then None
     else do {
       let r = r\<lparr>res_size := res_size r div ucast num\<rparr>;
       call_inits (assign_pointers (static_memblk bc) (res_size r) (execs r)) (s\<lparr>res := r\<rparr>)
     }
   }"

definition main :: "ctypes \<Rightarrow> uart_env \<Rightarrow> (cstate \<Rightarrow> nat) \<Rightarrow> build_cfg \<Rightarrow> 'i board \<Rightarrow> 'i board option" where
  "main t env cost bc b = do {
     b \<leftarrow> portable_init t env b;
     if 128 < size_list_head t
     then do {
       s \<leftarrow> print_msgs env [(''list_head structure too big for comparable data!'' @ nl, [])] (io b);
       Some (b\<lparr>io := s\<rparr>)
     }
     else do {
       s \<leftarrow> setup_run bc (cm b);
       b \<leftarrow> calibrate env cost (b\<lparr>cm := s\<rparr>);
       b \<leftarrow> timed_run env cost b;
       let total_time = get_time b;
       let (r, ms) = main_messages t bc (res (cm b)) total_time;
       s \<leftarrow> print_msgs env ms (io b);
       Some (portable_fini (b\<lparr>cm := (cm b)\<lparr>res := r\<rparr>, io := s\<rparr>))
     }
   }"

section \<open>Seconds\<close>

lemma ticks_bound: "(of_nat (unat (t :: u32)) :: rat) / 60000000 \<le> 72" "0 \<le> (of_nat (unat t) :: rat) / 60000000"
proof -
  have "(of_nat (unat t) :: rat) \<le> of_nat 4294967296" using unat32_less [of t] by (intro of_nat_mono) simp
  then show "(of_nat (unat t) :: rat) / 60000000 \<le> 72" by (simp del: of_nat_unat)
qed (rule divide_nonneg_nonneg [OF of_nat_0_le_iff], simp)

text \<open>The rounding of the quotient never changes a comparison with a whole number of seconds.\<close>

lemma secs_ge_iff: "of_nat n \<le> time_in_secs t \<longleftrightarrow> n * 60000000 \<le> unat t"
proof
  let ?x = "(of_nat (unat t) :: rat) / 60000000"
  assume "n * 60000000 \<le> unat t"
  then have "(of_nat (n * 60000000) :: rat) \<le> of_nat (unat t)" by (rule of_nat_mono)
  then have "of_int (int n) \<le> ?x" by simp
  then show "of_nat n \<le> time_in_secs t"
    using rnd_ge_int [of "int n" ?x] ticks_bound [of t] by (simp add: time_in_secs_def CLOCKS_PER_SEC_def)
next
  let ?x = "(of_nat (unat t) :: rat) / 60000000"
  assume n: "of_nat n \<le> time_in_secs t"
  show "n * 60000000 \<le> unat t"
  proof (rule ccontr)
    assume "\<not> n * 60000000 \<le> unat t"
    then have "(of_nat (unat t + 1) :: rat) \<le> of_nat (n * 60000000)" by (intro of_nat_mono) simp
    then have "?x + 1 / 60000000 \<le> of_nat n" by simp
    moreover have "rnd ?x - ?x \<le> 1 / 100000000" using rnd_close(1) [of ?x "1 / 100000000"] ticks_bound [of t] by simp
    ultimately show False using n by (simp add: time_in_secs_def CLOCKS_PER_SEC_def)
  qed
qed

lemma secs_less_iff: "time_in_secs t < of_nat n \<longleftrightarrow> unat t < n * 60000000"
  using secs_ge_iff [of n t] by (simp add: not_le [symmetric])

lemmas secs_short = secs_less_iff [of _ 10, simplified] secs_less_iff [of _ 1, simplified]

lemma secs_trunc: "trunc (time_in_secs t) = int (unat t div 60000000)"
proof -
  let ?n = "unat t div 60000000"
  have "of_nat ?n \<le> time_in_secs t" "time_in_secs t < of_nat (?n + 1)"
    unfolding secs_ge_iff secs_less_iff by (simp_all add: dividend_less_div_times)
  then have "\<lfloor>time_in_secs t\<rfloor> = int ?n" "0 \<le> time_in_secs t"
    by (intro floor_unique, simp_all)
  then show ?thesis by (simp add: trunc_def)
qed

section \<open>Which run counts as validated\<close>

text \<open>All selected kernels gave the checksums of the known run \<open>k\<close>.\<close>

definition crcs_match :: "nat \<Rightarrow> core_results \<Rightarrow> bool" where
  "crcs_match k r \<longleftrightarrow> (execs r AND ID_LIST \<noteq> 0 \<longrightarrow> crclist r = list_known_crc ! k) \<and>
     (execs r AND ID_MATRIX \<noteq> 0 \<longrightarrow> crcmatrix r = matrix_known_crc ! k) \<and>
     (execs r AND ID_STATE \<noteq> 0 \<longrightarrow> crcstate r = state_known_crc ! k)"

lemma ilp32_types [simp]: "check_data_types ilp32 = (0, [])"
  by (simp add: check_data_types_def ilp32_def type_check_def)

lemma check_crcs_err:
  "err (fst (check_crcs k r)) = 0 \<longleftrightarrow> crcs_match k r" "err (fst (check_crcs k r)) \<in> {0, 1, 2, 3}"
  by (auto simp: check_crcs_def check_crc_def crcs_match_def)

lemma check_crcs_frame:
  "\<exists>e. fst (check_crcs k r) = r\<lparr>err := e\<rparr>" "validated \<notin> set (snd (check_crcs k r))"
  by (auto simp: check_crcs_def check_crc_def validated_def)

lemma validated_not_in_report:
  "validated \<notin> set (report_times r t @ report_config bc r @ report_crcs r)"
  "validated \<noteq> errors_detected" "validated \<noteq> cannot_validate"
  by (simp_all add: report_times_def report_config_def report_crcs_def crc_report_def validated_def too_short_def
      errors_detected_def cannot_validate_def)

lemma known_line: "known_run c = Some (k, line) \<Longrightarrow> (line @ nl, []) \<noteq> validated"
  by (auto simp: known_run_def validated_def split: if_splits)

lemma report_validated:
  "validated \<in> set (report bc r t e) \<longleftrightarrow> (if time_in_secs t < 10 then e + 1 = 0 else e = 0)"
  using validated_not_in_report(1) [of r t bc] validated_not_in_report(2,3) by (auto simp: report_def Let_def)

text \<open>
  C9. Exactly when the program claims \<^verbatim>\<open>Correct operation validated\<close>: after a known run in which every selected kernel produced the known
  checksum and which took at least ten seconds, that is 600000000 ticks -- and also after a run with unknown seeds
  that took less than ten seconds, because the count of -1 for unknown seeds and the error for the short time cancel.
\<close>

theorem validated_iff:
  "validated \<in> set (snd (main_messages ilp32 bc r t)) \<longleftrightarrow>
    (case known_run (seedcrc r) of
       Some (k, line) \<Rightarrow> crcs_match k r \<and> 600000000 \<le> unat t
     | None \<Rightarrow> unat t < 600000000)"
proof (cases "known_run (seedcrc r)")
  case None
  then show ?thesis by (simp add: main_messages_def validate_def report_validated secs_short not_less)
next
  case (Some kl)
  obtain k line where kl: "kl = (k, line)" by fastforce
  obtain r' ms where c: "check_crcs k r = (r', ms)" by fastforce
  have e: "err r' = 0 \<longleftrightarrow> crcs_match k r" "err r' + 1 \<noteq> 0"
    using check_crcs_err [of k r] c by auto
  have "validated \<notin> set ((line @ nl, []) # ms)"
    using check_crcs_frame(2) [of k r] c known_line [of "seedcrc r" k line] Some kl by auto
  with Some kl c e show ?thesis
    by (simp add: main_messages_def validate_def report_validated secs_short not_less Let_def)
qed

section \<open>The memory of the benchmark\<close>

lemma selected_bit: "selected i ex \<longleftrightarrow> bit ex i" if "i < 32"
proof -
  have "push_bit i (1 :: u32) AND ex \<noteq> 0 \<longleftrightarrow> bit ex i"
    using that by (simp add: and_exp_eq_0_iff_not_bit push_bit_of_1 and.commute)
  then show ?thesis by (simp add: selected_def)
qed

text \<open>How many selected algorithms come before the number \<open>i\<close>.\<close>

definition rank_of :: "u32 \<Rightarrow> nat \<Rightarrow> nat" where
  "rank_of ex i = length (filter (\<lambda>k. selected k ex) [0..<i])"

lemma rank_of_Suc: "rank_of ex (Suc i) = rank_of ex i + (if selected i ex then 1 else 0)"
  by (simp add: rank_of_def)

lemma rank_of_mono: "i \<le> k \<Longrightarrow> rank_of ex i \<le> rank_of ex k"
  by (induction k) (auto simp: le_Suc_eq rank_of_Suc)

lemma num_algorithms_rank: "num_algorithms ex = word_of_nat (rank_of ex 3)"
  by (simp add: num_algorithms_def NUM_ALGORITHMS_def numeral_3_eq_3 rank_of_Suc) (simp add: rank_of_def)

lemma rank_of_le: "rank_of ex i \<le> i"
  using length_filter_le [of "\<lambda>k. selected k ex" "[0..<i]"] by (simp add: rank_of_def)

lemma assign_pointers_rank:
  assumes "selected i ex" "i < 3" "unat sz * 3 < 4294967296"
  shows "assign_pointers base0 sz ex (i + 1) = base0 + unat sz * rank_of ex i"
proof -
  have step: "for_up n (\<lambda>i (mb, j :: u16). if selected i ex then (mb(i + 1 := base0 + unat (sz * ucast j)), j + 1) else (mb, j)) (\<lambda>_. 0, 0) =
      (\<lambda>i. if 0 < i \<and> i \<le> n \<and> selected (i - 1) ex then base0 + unat (sz * ucast (word_of_nat (rank_of ex (i - 1)) :: u16)) else 0,
       word_of_nat (rank_of ex n))" for n
  proof (induction n)
    case 0
    then show ?case by (auto simp: rank_of_def)
  next
    case (Suc n)
    then show ?case by (auto simp: rank_of_Suc fun_eq_iff le_Suc_eq)
  qed
  have r: "rank_of ex i < 3" using rank_of_le [of ex i] assms(2) by simp
  then have u: "unat (ucast (word_of_nat (rank_of ex i) :: u16) :: u32) = rank_of ex i"
    by (simp add: unsigned_ucast_eq unsigned_of_nat take_bit_nat_eq_self)
  have "unat sz * rank_of ex i < 4294967296" 
    using mult_le_mono2 [OF less_imp_le [OF r], of "unat sz"] assms(3) by linarith
  then have "unat (sz * ucast (word_of_nat (rank_of ex i) :: u16)) = unat sz * rank_of ex i"
    by (simp add: unat_word_ariths u)
  with assms(1,2) show ?thesis by (simp add: assign_pointers_def step NUM_ALGORITHMS_def)
qed

text \<open>
  C36. The memory of the algorithms: whatever algorithms are selected, each gets a block of the same size inside the 2000 bytes
  of \<^verbatim>\<open>static_memblk\<close>, and the blocks of two algorithms do not overlap.
\<close>

theorem memory_blocks_disjoint:
  fixes base0 :: ptr
  assumes "selected i ex" "i < 3" "selected k ex" "k < 3" "i \<noteq> k"
  defines "sz \<equiv> TOTAL_DATA_SIZE div ucast (num_algorithms ex)"
  defines "mb \<equiv> assign_pointers base0 sz ex"
  shows "base0 \<le> mb (i + 1) \<and> mb (i + 1) + unat sz \<le> base0 + 2000 \<and>
    (mb (i + 1) + unat sz \<le> mb (k + 1) \<or> mb (k + 1) + unat sz \<le> mb (i + 1))"
proof -
  have lt: "rank_of ex a < rank_of ex b" if "selected a ex" "a < b" for a b
    using rank_of_mono [of "Suc a" b ex] that by (simp add: rank_of_Suc)
  have n: "0 < rank_of ex 3" "rank_of ex 3 \<le> 3" using lt [OF assms(1,2)] rank_of_le [of ex 3] by simp_all
  then have "unat (ucast (num_algorithms ex) :: u32) = rank_of ex 3"
    by (simp add: num_algorithms_rank unsigned_ucast_eq unsigned_of_nat take_bit_nat_eq_self)
  then have sz: "unat sz = 2000 div rank_of ex 3" by (simp add: sz_def unat_div TOTAL_DATA_SIZE_def)
  have small: "unat sz * 3 < 4294967296" unfolding sz using div_le_dividend [of 2000 "rank_of ex 3"] by linarith
  have mb: "mb (a + 1) = base0 + unat sz * rank_of ex a" if "selected a ex" "a < 3" for a
    unfolding mb_def using that small by (rule assign_pointers_rank)
  have fit: "unat sz * rank_of ex a + unat sz \<le> unat sz * rank_of ex b" if "selected a ex" "a < b" for a b
    using mult_le_mono2 [of "Suc (rank_of ex a)" "rank_of ex b" "unat sz"] lt [OF that] by simp
  have "unat sz * rank_of ex 3 \<le> 2000" by (simp add: sz)
  moreover have "i < k \<or> k < i" using assms(5) by arith
  ultimately show ?thesis
    using mb [OF assms(1,2)] mb [OF assms(3,4)] fit [OF assms(1,2)] fit [OF assms(1), of k] fit [OF assms(3), of i] by auto
qed

theorem memory_blocks_disjoint_witness:
  "0x1000 \<le> assign_pointers 0x1000 (TOTAL_DATA_SIZE div ucast (num_algorithms 7)) 7 2 \<and>
     (let mb = assign_pointers 0x1000 (TOTAL_DATA_SIZE div ucast (num_algorithms 7)) 7; sz = unat (TOTAL_DATA_SIZE div ucast (num_algorithms 7))
      in mb 2 + sz \<le> mb 3 \<or> mb 3 + sz \<le> mb 2)"
proof -
  have "selected 1 7" "selected 2 7" by (simp_all add: selected_def)
  then show ?thesis using memory_blocks_disjoint [of 1 7 2 "0x1000"] by (simp add: Let_def numeral_2_eq_2 numeral_3_eq_3)
qed

section \<open>Everything printed fits\<close>

text \<open>Output of a conversion: short, and without a zero byte.\<close>

definition short_text :: "nat \<Rightarrow> string \<Rightarrow> bool" where
  "short_text n t \<longleftrightarrow> length t \<le> n \<and> char_of (0 :: nat) \<notin> set t"

lemma short_text_append: "short_text m s \<Longrightarrow> short_text n t \<Longrightarrow> m + n \<le> k \<Longrightarrow> short_text k (s @ t)"
  by (auto simp: short_text_def)

lemma digit_not_zero: "is_digit c \<Longrightarrow> c \<noteq> char_of (0 :: nat)"
  by (auto simp: is_digit_def)

lemma table_not_zero:
  "list_all (\<lambda>n. digits ! n \<noteq> char_of (0 :: nat) \<and> upper_digits ! n \<noteq> char_of (0 :: nat)) [0..<36]"
  by code_simp

lemma digit_loop_not_zero:
  assumes "unat b \<le> 36" "dig = digits \<or> dig = upper_digits"
  shows "char_of (0 :: nat) \<notin> set (digit_loop dig b num)"
  using assms
proof (induction dig b num rule: digit_loop.induct)
  case (1 dig b num)
  show ?case
  proof (cases "num = 0 \<or> unat b < 2")
    case False
    then have "unat num mod unat b < unat b" by (intro mod_less_divisor) simp
    then have "unat (num mod b) < 36" using 1(2) by (simp add: unat_mod)
    then have "dig ! unat (num mod b) \<noteq> char_of (0 :: nat)" using table_not_zero 1(3) by (auto simp: list_all_iff)
    with 1 False show ?thesis by (simp add: digit_loop.simps [of dig b num])
  qed (simp add: digit_loop.simps)
qed

lemma digits_of_short:
  assumes "2 \<le> radix" "radix \<le> 36"
  shows "short_text 32 (digits_of type radix num)"
proof -
  let ?b = "word_of_int radix :: u32" and ?dig = "if flag type UPPERCASE then upper_digits else digits"
  have b: "unat ?b = nat radix" using assms by (simp add: unat_radix)
  have "2 ^ 32 \<le> nat radix ^ 32" using assms by (intro power_mono) simp_all
  then have "unat num < unat ?b ^ 32" using unat32_less [of num] b by simp
  then have "length (digit_loop ?dig ?b num) \<le> 32" using assms b by (intro digit_loop_length) simp_all
  moreover have "char_of (0 :: nat) \<notin> set (digit_loop ?dig ?b num)" using assms b by (intro digit_loop_not_zero) simp_all
  moreover have "short_text 32 ''0''" by (simp add: short_text_def) code_simp
  ultimately show ?thesis by (simp add: digits_of_def short_text_def)
qed

text \<open>The integer conversions of the report: decimal without width, and hexadecimal with four places.\<close>

lemma number_short:
  assumes "2 \<le> radix" "radix \<le> 36" "w \<le> 4" "type \<in> {0, SIGN, ZEROPAD}"
  shows "\<exists>out. number num radix w (- 1) type = Some out \<and> short_text 40 out"
proof -
  have fl: "\<not> flag type LEFT" "\<not> flag type HEX_PREP" "\<not> flag type PLUS" "\<not> flag type SPACE"
    using assms(4) unfolding flag_iff by (auto simp: ZEROPAD_def SIGN_def bit_simps)
  let ?ds = "digits_of type radix (magnitude type num)"
  have ds: "short_text 32 ?ds" by (rule digits_of_short [OF assms(1,2)])
  have z: "CHR ''0'' \<noteq> char_of (0 :: nat)" "CHR '' '' \<noteq> char_of (0 :: nat)" "CHR ''-'' \<noteq> char_of (0 :: nat)" by code_simp+
  have sg: "short_text 1 (sign_of type num)" using fl z by (simp add: sign_of_def shown_def short_text_def)
  let ?room = "nat (w - int (length (sign_of type num) + length ?ds))"
  have room: "?room \<le> 4" using assms(3) by simp
  have hp: "hex_prep type radix = []" using fl by (simp add: hex_prep_def)
  have "number num radix w (- 1) type =
      Some (if flag type ZEROPAD then sign_of type num @ replicate ?room (CHR ''0'') @ ?ds
            else replicate ?room (CHR '' '') @ sign_of type num @ ?ds)"
    using number_eq [OF assms(1,2), of num w "- 1" type] fl hp by (simp add: Let_def)
  then show ?thesis
    using sg ds room z by (simp add: short_text_def)
qed

lemma directive_int:
  "\<exists>out. (\<forall>rest args. directive fl (''lu'' @ rest) (AInt n # args) = Some (out, rest, args)) \<and> short_text 40 out"
  "\<exists>out. (\<forall>rest args. directive fl (''u'' @ rest) (AInt n # args) = Some (out, rest, args)) \<and> short_text 40 out"
  "\<exists>out. (\<forall>rest args. directive fl (''d'' @ rest) (AInt n # args) = Some (out, rest, args)) \<and> short_text 40 out"
  "\<exists>out. (\<forall>rest args. directive fl (''04x'' @ rest) (AInt n # args) = Some (out, rest, args)) \<and> short_text 40 out"
proof -
  have d: "\<not> is_digit (CHR ''l'')" "\<not> is_digit (CHR ''u'')" "\<not> is_digit (CHR ''d'')" "is_digit (CHR ''4'')" "\<not> is_digit (CHR ''x'')"
    by code_simp+
  note defs = directive_def parse_width_def parse_precision_def parse_qualifier_def conversion_def int_field_def skip_atoi_def d
  obtain o1 where "number n 10 (- 1) (- 1) 0 = Some o1" "short_text 40 o1" using number_short [of 10 "- 1" 0 n] by auto
  then show "\<exists>out. (\<forall>rest args. directive fl (''lu'' @ rest) (AInt n # args) = Some (out, rest, args)) \<and> short_text 40 out"
    "\<exists>out. (\<forall>rest args. directive fl (''u'' @ rest) (AInt n # args) = Some (out, rest, args)) \<and> short_text 40 out"
    by (auto simp: defs)
  obtain o2 where "number n 10 (- 1) (- 1) SIGN = Some o2" "short_text 40 o2" using number_short [of 10 "- 1" SIGN n] by auto
  then show "\<exists>out. (\<forall>rest args. directive fl (''d'' @ rest) (AInt n # args) = Some (out, rest, args)) \<and> short_text 40 out"
    by (auto simp: defs)
  obtain o3 where "number n 16 4 (- 1) ZEROPAD = Some o3" "short_text 40 o3" using number_short [of 16 4 ZEROPAD n] by auto
  then show "\<exists>out. (\<forall>rest args. directive fl (''04x'' @ rest) (AInt n # args) = Some (out, rest, args)) \<and> short_text 40 out"
    by (auto simp: defs)
qed

lemma directive_str:
  assumes "short_text k s"
  shows "\<exists>out. (\<forall>rest args. directive fl (''s'' @ rest) (AStr (Some s) # args) = Some (out, rest, args)) \<and> short_text k out"
proof -
  have d: "\<not> is_digit (CHR ''s'')" by code_simp
  have "\<not> flag 0 LEFT" unfolding flag_iff by (simp add: LEFT_def bit_simps)
  then have "string_field (Some s) (- 1) (- 1) 0 = take (strnlen s (word_of_int (- 1))) s"
    by (simp add: string_field_def place_def fill_loop_eq Let_def)
  moreover have "short_text k (take (strnlen s (word_of_int (- 1))) s)"
    using assms set_take_subset [of "strnlen s (word_of_int (- 1))" s] by (auto simp: short_text_def)
  ultimately show ?thesis
    by (simp add: directive_def parse_width_def parse_precision_def parse_qualifier_def conversion_def d)
qed

text \<open>A nonnegative double below \<open>2 ^ 48\<close> with \<^verbatim>\<open>%f\<close>.\<close>

lemma fixed_short:
  assumes "dbl v" "0 \<le> v" "v < 2 ^ 48"
  shows "\<exists>tmp. parse_float double_flops v (CHR ''f'') 6 = Some tmp \<and> short_text 100 tmp"
proof -
  obtain ds decpt where c: "fcvtbuf double_flops v 6 = Some (ds, decpt, False)" "length ds = nat (6 + decpt)" "length ds < 80"
    "\<forall>c \<in> set ds. is_digit c"
    using conversion_accurate [OF assms, of 6] unfolding accurate_def by auto
  have z: "CHR ''0'' \<noteq> char_of (0 :: nat)" "CHR ''.'' \<noteq> char_of (0 :: nat)" by code_simp+
  have ds: "char_of (0 :: nat) \<notin> set ds" using c(4) digit_not_zero by blast
  show ?thesis
  proof (cases "ds = []")
    case True
    then show ?thesis using c(1) z by (simp add: parse_float_def fix_format_def short_text_def)
  next
    case False
    then have "0 < 6 + decpt" using c(2) by (metis length_0_conv nat_eq_iff2 not_less zero_less_nat_eq gr_zeroI)
    then have "nat (- decpt) \<le> 6" by simp
    then show ?thesis
      unfolding fix_format_point [OF c(1) False] using c(3) ds z in_set_takeD [of "char_of (0 :: nat)" "nat decpt" ds] in_set_dropD [of "char_of (0 :: nat)" "nat decpt" ds]
      by (auto simp: short_text_def)
  qed
qed

lemma directive_float:
  assumes "dbl v" "0 \<le> v" "v < 2 ^ 48"
  shows "\<exists>out. (\<forall>rest args. directive double_flops (''f'' @ rest) (AFloat v # args) = Some (out, rest, args)) \<and> short_text 100 out"
proof -
  have d: "\<not> is_digit (CHR ''f'')" by code_simp
  have fl: "\<not> flag SIGN LEFT" "\<not> flag SIGN ZEROPAD" "\<not> flag SIGN PLUS" "\<not> flag SIGN SPACE" "flag SIGN SIGN" "\<not> flag SIGN HEX_PREP"
    "\<not> flag SIGN (ZEROPAD OR LEFT)"
    by code_simp+
  obtain tmp where tmp: "parse_float double_flops v (CHR ''f'') 6 = Some tmp" "short_text 100 tmp"
    using fixed_short [OF assms] by blast
  have "flt double_flops v (- 1) (- 1) (CHR ''f'') SIGN = Some (take (strnlen tmp 256) tmp)"
    using fl tmp(1) assms(2) by (simp add: flt_def Let_def pad_loop_eq double_flops_def)
  moreover have "short_text 100 (take (strnlen tmp 256) tmp)"
    using tmp(2) set_take_subset [of "strnlen tmp 256" tmp] by (auto simp: short_text_def)
  ultimately show ?thesis
    by (simp add: directive_def parse_width_def parse_precision_def parse_qualifier_def conversion_def d)
qed

text \<open>A call of \<^verbatim>\<open>ee_printf\<close> whose text has at most \<open>n\<close> characters.\<close>

definition prints :: "nat \<Rightarrow> msg \<Rightarrow> bool" where
  "prints n = (\<lambda>(fmt, args). \<exists>t. vsprintf double_flops fmt args = Some t \<and> short_text n t)"

definition literal_text :: "nat \<Rightarrow> string \<Rightarrow> bool" where
  "literal_text n s \<longleftrightarrow> length s \<le> n \<and> list_all (\<lambda>c. c \<noteq> char_of (0 :: nat) \<and> c \<noteq> CHR ''%'') s"

lemma literal_textD: "literal_text n s \<Longrightarrow> short_text n s" "literal_text n s \<Longrightarrow> CHR ''%'' \<notin> set s"
  by (auto simp: literal_text_def short_text_def list_all_iff)

lemma prints_literal: "literal_text n s \<Longrightarrow> prints n (s, args)"
  using literal_textD [of n s] by (simp add: prints_def vsprintf_text)

lemma prints_conversion:
  assumes "fmt = a @ ''%'' @ d @ rest" "literal_text i a"
    and "\<exists>out. (\<forall>rest args. directive double_flops (d @ rest) (x # args) = Some (out, rest, args)) \<and> short_text j out"
    and "prints k (rest, args)" "i + j + k \<le> n"
  shows "prints n (fmt, x # args)"
proof -
  obtain out where out: "\<And>rest args. directive double_flops (d @ rest) (x # args) = Some (out, rest, args)" "short_text j out"
    using assms(3) by blast
  obtain t where t: "vsprintf double_flops rest args = Some t" "short_text k t" using assms(4) by (auto simp: prints_def)
  have "vsprintf double_flops fmt (x # args) = Some (a @ out @ t)"
    unfolding assms(1) using literal_textD(2) [OF assms(2)] out(1) t(1) by (simp add: vsprintf_literal)
  moreover have "short_text n (a @ out @ t)"
    using literal_textD(1) [OF assms(2)] out(2) t(2) assms(5) by (auto simp: short_text_def)
  ultimately show ?thesis by (auto simp: prints_def)
qed

lemma literals [simp]:
  "literal_text 1 nl" "literal_text 30 ''CoreMark Size    : ''" "literal_text 30 ''Total ticks      : ''"
  "literal_text 30 ''Total time (secs): ''" "literal_text 30 ''Iterations/Sec   : ''" "literal_text 30 ''Iterations       : ''"
  "literal_text 30 ''Compiler version : ''" "literal_text 30 ''Compiler flags   : ''" "literal_text 30 ''Memory location  : ''"
  "literal_text 30 ''seedcrc          : 0x''" "literal_text 30 ''['' " "literal_text 30 '']crclist       : 0x''"
  "literal_text 30 '']crcmatrix     : 0x''" "literal_text 30 '']crcstate      : 0x''" "literal_text 30 '']crcfinal      : 0x''"
  "literal_text 30 '']ERROR! list crc 0x''" "literal_text 30 '']ERROR! matrix crc 0x''" "literal_text 30 '']ERROR! state crc 0x''"
  "literal_text 30 '' - should be 0x''" "literal_text 30 ''CoreMark 1.0 : ''" "literal_text 30 '' / ''" "literal_text 30 '' ''" "literal_text 30 ''''"
  by code_simp+

lemma end_line: "prints 1 (nl, [])"
  by (rule prints_literal [OF literals(1)])

lemma one_int:
  assumes "literal_text 30 a"
  shows "prints 1000 (a @ ''%lu'' @ nl, [AInt n])" "prints 100 (a @ ''%04x'' @ nl, [AInt n])"
  by (rule prints_conversion [OF _ assms directive_int(1) end_line], simp_all,
      rule prints_conversion [OF _ assms directive_int(4) end_line], simp_all)

lemma one_string:
  assumes "literal_text 30 a" "short_text 400 s"
  shows "prints 1000 (a @ ''%s'' @ nl, [AStr (Some s)])"
  by (rule prints_conversion [OF _ assms(1) directive_str [OF assms(2)] end_line]) simp_all

lemma one_float:
  assumes "literal_text 30 a" "dbl v" "0 \<le> v" "v < 2 ^ 48"
  shows "prints 1000 (a @ ''%f'' @ nl, [AFloat v])"
  by (rule prints_conversion [OF _ assms(1) directive_float [OF assms(2-4)] end_line]) simp_all

lemma prints_mono: "prints m x \<Longrightarrow> m \<le> n \<Longrightarrow> prints n x"
  by (auto simp: prints_def short_text_def)

lemma index_and_crc:
  assumes "literal_text 30 a"
  shows "prints 1000 (''[%d'' @ a @ ''%04x'' @ nl, [AInt i, AInt c])"
  by (rule prints_conversion [OF _ literals(11) directive_int(3) one_int(2) [OF assms]]) simp_all

lemma crc_error:
  assumes "literal_text 30 a"
  shows "prints 1000 (''[%u'' @ a @ ''%04x - should be 0x%04x'' @ nl, [AInt i, AInt c, AInt k])"
proof -
  have "prints 200 (a @ ''%04x - should be 0x%04x'' @ nl, [AInt c, AInt k])"
    by (rule prints_conversion [OF _ assms directive_int(4) one_int(2) [OF literals(19)]]) simp_all
  from prints_conversion [OF _ literals(11) directive_int(2) this] show ?thesis by simp
qed

lemma check_crcs_print: "list_all (prints 1000) (snd (check_crcs k r))"
  using crc_error [of "'']ERROR! list crc 0x''" 0] crc_error [of "'']ERROR! matrix crc 0x''" 0] crc_error [of "'']ERROR! state crc 0x''" 0]
  by (simp add: check_crcs_def check_crc_def)

lemma report_crcs_print: "list_all (prints 1000) (report_crcs r)"
  using prints_mono [OF one_int(2) [of "''seedcrc          : 0x''"], of 1000] index_and_crc [of "'']crclist       : 0x''" 0] index_and_crc [of "'']crcmatrix     : 0x''" 0]
    index_and_crc [of "'']crcstate      : 0x''" 0] index_and_crc [of "'']crcfinal      : 0x''" 0]
  by (simp add: report_crcs_def crc_report_def)

lemma report_config_print:
  assumes "short_text 400 (compiler_version bc)" "short_text 400 (compiler_flags bc)"
  shows "list_all (prints 1000) (report_config bc r)"
proof -
  have "short_text 400 ''DDR''" by (simp add: short_text_def) code_simp
  then show ?thesis using one_int(1) [of "''Iterations       : ''"] one_string [of "''Compiler version : ''", OF _ assms(1)]
      one_string [of "''Compiler flags   : ''", OF _ assms(2)] one_string [of "''Memory location  : ''" "''DDR''"]
    by (simp add: report_config_def)
qed

lemma secs_double: "dbl (time_in_secs t)" "0 \<le> time_in_secs t" "time_in_secs t < 2 ^ 48"
proof -
  show "dbl (time_in_secs t)" by (simp add: time_in_secs_def dbl_rnd)
  show "0 \<le> time_in_secs t" using secs_ge_iff [of 0 t] by simp
  have "time_in_secs t < of_nat 72" unfolding secs_less_iff using unat32_less [of t] by simp
  then show "time_in_secs t < 2 ^ 48" by simp
qed

lemma rate_double:
  assumes "t \<noteq> 0" "unat (iterations r) \<le> 4194304"
  shows "dbl (iterations_per_sec r t)" "0 \<le> iterations_per_sec r t" "iterations_per_sec r t < 2 ^ 48"
proof -
  let ?T = "time_in_secs t" and ?n = "of_nat (unat (iterations r)) :: rat"
  let ?x = "(of_nat (unat t) :: rat) / 60000000"
  have "(of_nat 1 :: rat) \<le> of_nat (unat t)" using assms(1) by (intro of_nat_mono) (simp add: unat_gt_0 Suc_le_eq)
  then have "1 / 60000000 \<le> ?x" by (simp del: of_nat_unat)
  moreover have "?x - rnd ?x \<le> 1 / 10000000000000" using rnd_close(2) [of ?x "1 / 10000000000000"] ticks_bound [of t] by simp
  ultimately have T: "1 / 60001000 \<le> ?T" by (simp add: time_in_secs_def CLOCKS_PER_SEC_def)
  then have pos: "0 < ?T" by (rule less_le_trans [rotated]) simp
  have "?n \<le> of_nat 4194304" using assms(2) by (rule of_nat_mono)
  then have n: "?n \<le> 4194304" "0 \<le> ?n" by (simp, intro of_nat_0_le_iff)
  have "?n / ?T \<le> 4194304 / (1 / 60001000)" using n T by (intro frac_le) simp_all
  then have q: "?n / ?T \<le> 251662434304000" "0 \<le> ?n / ?T" using n pos by simp_all
  have v: "iterations_per_sec r t = rnd (?n / ?T)" by (simp add: iterations_per_sec_def default_num_contexts_def)
  show "dbl (iterations_per_sec r t)" "0 \<le> iterations_per_sec r t" unfolding v using rnd_nonneg [OF q(2)] by (simp_all only: dbl_rnd)
  show "iterations_per_sec r t < 2 ^ 48" unfolding v using rnd_close(1) [OF q(2), of 1] q(1) by simp
qed

lemma long_literals:
  "literal_text 1000 (fst too_short)" "literal_text 1000 (fst validated)" "literal_text 1000 (fst errors_detected)"
  "literal_text 1000 (fst cannot_validate)"
  by code_simp+

lemma known_line_print: "known_run c = Some (k, line) \<Longrightarrow> prints 1000 (line @ nl, args)"
proof -
  have "list_all (\<lambda>c. case known_run c of None \<Rightarrow> True | Some (k, line) \<Rightarrow> literal_text 1000 (line @ nl)) [0x8a02, 0x7b05, 0x4eaf, 0xe9f5, 0x18f2]"
    by code_simp
  moreover assume k: "known_run c = Some (k, line)"
  then have "c \<in> set [0x8a02, 0x7b05, 0x4eaf, 0xe9f5, 0x18f2]" by (auto simp: known_run_def split: if_splits)
  ultimately have "literal_text 1000 (line @ nl)" using k by (auto simp: list_all_iff)
  then show ?thesis by (rule prints_literal)
qed

lemma report_times_print:
  assumes "unat (iterations r) \<le> 4194304"
  shows "list_all (prints 1000) (report_times r t)"
proof -
  have "prints 1000 too_short" using prints_literal [OF long_literals(1), of "[]"] by (simp add: too_short_def)
  moreover have "prints 1000 (''Iterations/Sec   : %f'' @ nl, [AFloat (iterations_per_sec r t)])" if "0 < time_in_secs t"
  proof -
    have "t \<noteq> 0" using that by (auto simp: time_in_secs_def)
    from one_float [of "''Iterations/Sec   : ''", OF _ rate_double [OF this assms]] show ?thesis by simp
  qed
  ultimately show ?thesis using one_int(1) [of "''CoreMark Size    : ''"] one_int(1) [of "''Total ticks      : ''"]
      one_float [of "''Total time (secs): ''", OF _ secs_double] by (simp add: report_times_def)
qed

lemma report_score_print:
  assumes "short_text 400 (compiler_version bc)" "short_text 400 (compiler_flags bc)" "t \<noteq> 0" "unat (iterations r) \<le> 4194304"
  shows "list_all (prints 1000) (report_score bc r t)"
proof -
  have d: "short_text 400 ''DDR''" by (simp add: short_text_def) code_simp
  have e: "prints 0 ([], [])" by (rule prints_literal) code_simp
  have 1: "prints 430 ('' %s'', [AStr (Some (compiler_flags bc))])"
    using prints_conversion [OF _ literals(22) directive_str [OF assms(2)] e, of "'' %s''" 430] by simp
  have 2: "prints 860 ('' / %s %s'', [AStr (Some (compiler_version bc)), AStr (Some (compiler_flags bc))])"
    using prints_conversion [OF _ literals(21) directive_str [OF assms(1)] 1, of "'' / %s %s''" 860] by simp
  have 3: "prints 1000 (''CoreMark 1.0 : %f / %s %s'', [AFloat (iterations_per_sec r t), AStr (Some (compiler_version bc)), AStr (Some (compiler_flags bc))])"
    using prints_conversion [OF _ literals(20) directive_float [OF rate_double [OF assms(3,4)]] 2, of "''CoreMark 1.0 : %f / %s %s''" 1000] by simp
  have 4: "prints 1000 ('' / %s'', [AStr (Some ''DDR'')])"
    using prints_conversion [OF _ literals(21) directive_str [OF d] e, of "'' / %s''" 1000] by simp
  show ?thesis using 3 4 prints_mono [OF end_line, of 1000] by (simp add: report_score_def)
qed

lemma validate_frame:
  assumes "validate ilp32 r = (r', e, ms)"
  shows "iterations r' = iterations r \<and> seedcrc r' = seedcrc r \<and> list_all (prints 1000) ms \<and>
    (known_run (seedcrc r) \<noteq> None \<longrightarrow> e \<in> {0, 1, 2, 3})"
proof (cases "known_run (seedcrc r)")
  case None
  then show ?thesis using assms by (auto simp: validate_def)
next
  case (Some kl)
  obtain k line where kl: "kl = (k, line)" by fastforce
  have e: "r' = fst (check_crcs k r)" "e = err r'" "ms = (line @ nl, []) # snd (check_crcs k r)"
    using assms Some by (auto simp: validate_def kl split_beta)
  obtain x where "r' = r\<lparr>err := x\<rparr>" using check_crcs_frame(1) [of k r] e(1) by blast
  then show ?thesis
    using e check_crcs_print [of k r] check_crcs_err(2) [of k r] known_line_print [of "seedcrc r" k line "[]"] Some kl
    by (simp add: seedcrc_def)
qed

lemma main_messages_print:
  assumes "short_text 400 (compiler_version bc)" "short_text 400 (compiler_flags bc)" "unat (iterations r) \<le> 4194304"
  shows "list_all (prints 1000) (snd (main_messages ilp32 bc r t))"
proof -
  obtain r' e ms where v: "validate ilp32 r = (r', e, ms)" by (metis surj_pair)
  have frame: "iterations r' = iterations r" "seedcrc r' = seedcrc r" "list_all (prints 1000) ms"
    "known_run (seedcrc r) \<noteq> None \<Longrightarrow> e \<in> {0, 1, 2, 3}"
    using validate_frame [OF v] by auto
  have score: "list_all (prints 1000) (report_score bc r' t)" if "(if time_in_secs t < 10 then e + 1 else e) = 0"
  proof (cases "known_run (seedcrc r) = None")
    case True
    then show ?thesis by (simp add: report_score_def frame(2))
  next
    case False
    then have "\<not> time_in_secs t < 10" using frame(4) that by auto
    then have "t \<noteq> 0" by (auto simp: time_in_secs_def)
    then show ?thesis using report_score_print [OF assms(1,2)] assms(3) frame(1) by simp
  qed
  have ends: "prints 1000 validated" "prints 1000 errors_detected" "prints 1000 cannot_validate"
    using prints_literal [OF long_literals(2), of "[]"] prints_literal [OF long_literals(3), of "[]"]
      prints_literal [OF long_literals(4), of "[]"] by (simp_all add: validated_def errors_detected_def cannot_validate_def)
  show ?thesis
    using v frame(3) score ends report_times_print [of r' t] report_config_print [OF assms(1,2), of r'] report_crcs_print [of r'] assms(3) frame(1)
    by (simp add: main_messages_def report_def Let_def)
qed

text \<open>Printing appends the formatted texts to what the transmitter has accepted.\<close>

fun format_msgs :: "msg list \<Rightarrow> string option" where
  "format_msgs [] = Some []"
| "format_msgs (m # ms) = do { t \<leftarrow> vsprintf double_flops (fst m) (snd m); u \<leftarrow> format_msgs ms; Some (t @ u) }"

lemma print_msgs_sends:
  "list_all (prints 1000) ms \<Longrightarrow> sys_ok env s \<Longrightarrow>
   \<exists>s' t. print_msgs env ms s = Some s' \<and> format_msgs ms = Some t \<and> sys_ok env s' \<and>
     outbox (dev s') = outbox (dev s) @ map of_char t \<and> client_of s' = client_of s"
proof (induction ms arbitrary: s)
  case (Cons m ms)
  obtain fmt args where m: "m = (fmt, args)" by fastforce
  obtain t where t: "vsprintf double_flops fmt args = Some t" "length t < 1024" "char_of (0 :: nat) \<notin> set t"
    using Cons.prems(1) by (auto simp: m prints_def short_text_def)
  obtain s1 where s1: "send_loop env t 0 s = Some (length t, s1)" "sys_ok env s1" "outbox (dev s1) = outbox (dev s) @ map of_char t"
    "client_of s1 = client_of s"
    using send_loop_outbox [OF t(3) Cons.prems(2), of 0] by auto
  have "ee_printf double_flops env fmt args s = Some (length t, s1)"
    using t(1,2) s1(1) by (simp add: ee_printf_def ee_vsprintf_def)
  with Cons.IH [OF _ s1(2)] Cons.prems(1) t(1) s1 show ?case by (auto simp: m)
qed simp

section \<open>The program from start to end\<close>

text \<open>
  A build that runs all three algorithms: the memory lies in the address space, the two first seeds agree in their low
  byte, which is no comma, and the items of the list get different numbers.
\<close>

definition build_ok :: "build_cfg \<Rightarrow> core_results \<Rightarrow> bool" where
  "build_ok bc r \<longleftrightarrow> seed5_volatile bc = 0 \<and> 0 < static_memblk bc \<and> static_memblk bc + 2010 < 4294967296 \<and>
     short_text 400 (compiler_version bc) \<and> short_text 400 (compiler_flags bc) \<and>
     (let p = set_params bc r
      in (ucast (seed1 p) :: u8) = ucast (seed2 p) \<and> (ucast (seed1 p) :: u8) \<noteq> ch_comma \<and> distinct (init_indices 31 (seed1 p) 31))"

lemma set_params_all:
  assumes "seed5_volatile bc = 0"
  shows "execs (set_params bc r) = 7" "res_size (set_params bc r) = 2000" "iterations (set_params bc r) = seed4_volatile bc"
  using assms by (simp_all add: set_params_def Let_def get_seed_32_def ALL_ALGORITHMS_MASK_def ID_LIST_def ID_MATRIX_def ID_STATE_def TOTAL_DATA_SIZE_def)

lemma all_blocks:
  "num_algorithms 7 = 3" "assign_pointers m 666 7 (Suc 0) = m" "assign_pointers m 666 7 2 = m + 666" "assign_pointers m 666 7 3 = m + 1332"
proof -
  have sel: "selected 0 7" "selected 1 7" "selected 2 7" "rank_of 7 0 = 0" "rank_of 7 1 = 1" "rank_of 7 2 = 2" by code_simp+
  show "num_algorithms 7 = 3" by code_simp
  show "assign_pointers m 666 7 (Suc 0) = m" "assign_pointers m 666 7 2 = m + 666" "assign_pointers m 666 7 3 = m + 1332"
    using assign_pointers_rank [OF sel(1), of 666 m] assign_pointers_rank [OF sel(2), of 666 m] assign_pointers_rank [OF sel(3), of 666 m] sel(4-6)
    by (simp_all flip: numeral_2_eq_2)
qed

lemma terminated_block: "2 \<le> k \<Longrightarrow> length (w @ replicate k 0) = n \<Longrightarrow> (w @ replicate k 0) ! (n - 1) = 0 \<and> (w @ replicate k 0) ! (n - 2) = 0"
  by (auto simp: nth_append)

lemma setup_ready:
  assumes "build_ok bc (res s)"
  obtains s' xs where "setup_run bc s = Some s'" "list_ready xs s'" "iterations (res s') = seed4_volatile bc"
    "mset xs = mset (map (\<lambda>k. static_memblk bc + 8 * k) [0..<30])"
proof -
  let ?p = "set_params bc (res s)" and ?m = "static_memblk bc"
  let ?r = "?p\<lparr>res_size := 666\<rparr>"
  note b = assms [unfolded build_ok_def Let_def]
  note p = set_params_all [of bc "res s"]
  obtain l s1 xs where li: "core_list_init 666 ?m (seed1 ?p) (s\<lparr>res := ?r\<rparr>) = Some (l, s1)" "res s1 = ?r" "list_part xs l s1"
    "mset xs = mset (map (\<lambda>k. ?m + 8 * k) [0..<30])"
    using list_init_ready [of ?m 666 "seed1 ?p" "s\<lparr>res := ?r\<rparr>"] b by auto
  have "?m + 666 < 4294967296" using b by simp
  then have a: "unat (word_of_nat (?m + 666) :: u32) = ?m + 666" by (intro of_nat_inverse) simp_all
  obtain N mp where mi: "core_init_matrix 666 (word_of_nat (?m + 666)) (promote16 (seed1 ?p) OR push_bit 16 (promote16 (seed2 ?p)))
      (replicate 666 0) (replicate 666 0) (replicate 666 0) = Some (N, mp)"
    using init_matrix_layout [of 666 "word_of_nat (?m + 666)" "replicate 666 0" "replicate 666 0"
        "promote16 (seed1 ?p) OR push_bit 16 (promote16 (seed2 ?p))" "replicate 666 0", unfolded a] b by auto
  obtain ws k where st: "core_init_state 666 (seed1 ?p) (replicate 666 0) = Some (tokens_text ws @ replicate k 0)"
    "2 \<le> k" "length (tokens_text ws @ replicate k 0) = 666"
    using init_state_block [of 666 "replicate 666 0" "seed1 ?p"] by auto
  let ?s = "s1\<lparr>res := ?r\<lparr>res_list := l, mat := mp, memblock3 := tokens_text ws @ replicate k 0\<rparr>\<rparr>"
  have "setup_run bc s = Some ?s"
    using b p li(1,2) mi st(1) by (simp add: setup_run_def call_inits_def Let_def all_blocks ID_LIST_def ID_MATRIX_def ID_STATE_def)
  moreover have "(ucast (seed1 ?p) :: u8) = ucast (seed2 ?p)" "(ucast (seed1 ?p) :: u8) \<noteq> ch_comma" using b by blast+
  then have "list_ready xs ?s"
    using li(3) terminated_block [OF st(2,3)] st(3)
    unfolding list_ready_parts by (simp add: list_part_def res_ok_def block_ok_def)
  moreover have "iterations (res ?s) = seed4_volatile bc" using p(3) b by simp
  ultimately show ?thesis using that li(4) by blast
qed

lemma elapsed_time:
  assumes "run_iterate env cost (start_time b) = Some b'"
  shows "get_time (stop_time b') = word_of_nat (cost (cm b))"
proof -
  have c: "cycle (io b') = cycle (io b) + cost (cm b)" "start_time_val b' = word_of_nat (cycle (io b))"
    using assms by (auto simp: run_iterate_def start_time_def barebones_clock_def bind_eq_Some_conv)
  then show ?thesis by (simp add: get_time_def stop_time_def barebones_clock_def)
qed

text \<open>One timed run from a list in its initial state.\<close>

lemma timed_run_ready:
  assumes "list_ready xs (cm b)" "sys_ok env (io b)"
  obtains b' where "timed_run env cost b = Some b'" "iterate (cm b) = Some (cm b')" "list_ready xs (cm b')"
    "get_time b' = word_of_nat (cost (cm b))" "sys_ok env (io b')" "outbox (dev (io b')) = outbox (dev (io b))"
    "portable_id b' = portable_id b" "client_of (io b') = client_of (io b)" "same_list xs (cm b) (cm b')"
proof -
  obtain s where s: "iterate (cm b) = Some s" "list_ready xs s" "same_list xs (cm b) s"
    using iterate_same [OF assms(1)] by blast
  let ?b = "(start_time b)\<lparr>cm := s, io := uart_wait env (cost (cm b)) (io b)\<rparr>"
  have r: "run_iterate env cost (start_time b) = Some ?b" using s(1) by (simp add: run_iterate_def start_time_def)
  then have "timed_run env cost b = Some (stop_time ?b)" by (simp add: timed_run_def)
  moreover note elapsed_time [OF r] wait_busy [OF assms(2), of "cost (cm b)"]
  ultimately show ?thesis using that [of "stop_time ?b"] s by (simp add: stop_time_def start_time_def)
qed

lemma main_run:
  assumes "build_ok bc (res (cm b))" "seed4_volatile bc \<noteq> 0" "unat (seed4_volatile bc) \<le> 4194304" "sys_ok env (io b)"
  shows "\<exists>s s' b' out. setup_run bc (cm b) = Some s \<and> iterate s = Some s' \<and>
    format_msgs (snd (main_messages ilp32 bc (res s') (word_of_nat (cost s)))) = Some out \<and>
    main ilp32 env cost bc b = Some b' \<and>
    sys_ok env (io b') \<and> outbox (dev (io b')) = outbox (dev (io b)) @ map of_char out"
proof -
  obtain s xs where s: "setup_run bc (cm b) = Some s" "list_ready xs s" "iterations (res s) = seed4_volatile bc"
    using setup_ready [OF assms(1)] by blast
  let ?b0 = "b\<lparr>portable_id := 1\<rparr>"
  have init: "portable_init ilp32 env b = Some ?b0" by (simp add: portable_init_def ilp32_def)
  have cal: "calibrate env cost (?b0\<lparr>cm := s\<rparr>) = Some (?b0\<lparr>cm := s\<rparr>)" using s(3) assms(2) by (simp add: calibrate_def)
  obtain b1 where b1: "timed_run env cost (?b0\<lparr>cm := s\<rparr>) = Some b1" "iterate s = Some (cm b1)" "get_time b1 = word_of_nat (cost s)"
    "sys_ok env (io b1)" "outbox (dev (io b1)) = outbox (dev (io b))" "same_list xs s (cm b1)"
    using timed_run_ready [of xs "?b0\<lparr>cm := s\<rparr>" env cost] s(2) assms(4) by auto
  obtain r ms where ms: "main_messages ilp32 bc (res (cm b1)) (word_of_nat (cost s)) = (r, ms)" by fastforce
  have "iterations (res (cm b1)) = seed4_volatile bc" using b1(6) s(3) by (simp add: same_list_def res_cfg_def)
  then have "list_all (prints 1000) ms"
    using main_messages_print [of bc "res (cm b1)" "word_of_nat (cost s)"] ms assms(1,3) by (simp add: build_ok_def)
  then obtain u out where u: "print_msgs env ms (io b1) = Some u" "format_msgs ms = Some out" "sys_ok env u"
    "outbox (dev u) = outbox (dev (io b1)) @ map of_char out"
    using print_msgs_sends [OF _ b1(4)] by blast
  let ?b = "portable_fini (b1\<lparr>cm := (cm b1)\<lparr>res := r\<rparr>, io := u\<rparr>)"
  have "main ilp32 env cost bc b = Some ?b"
    using init s(1) cal b1(1,3) ms u(1) by (simp add: main_def Let_def ilp32_def)
  moreover have "sys_ok env (io ?b)" "outbox (dev (io ?b)) = outbox (dev (io b)) @ map of_char out"
    using u(3,4) b1(5) by (simp_all add: portable_fini_def)
  ultimately show ?thesis using s(1) b1(2) u(2) ms by (metis snd_conv)
qed

text \<open>
  C8. The whole program: for a build that runs all algorithms, with a number of iterations between one and \<open>2 ^ 22\<close>, \<^verbatim>\<open>main\<close>
  initialises the data, runs the benchmark to its end and returns, and the serial port has then sent exactly the text of
  the report on the results of that run and the cycles it took, modulo \<open>2 ^ 32\<close>, behind whatever was sent before.
\<close>

theorem main_reports:
  assumes "build_ok bc (res (cm b))" "seed4_volatile bc \<noteq> 0" "unat (seed4_volatile bc) \<le> 4194304" "sys_ok env (io b)"
  shows "\<exists>s s' b' out. setup_run bc (cm b) = Some s \<and> iterate s = Some s' \<and>
    format_msgs (snd (main_messages ilp32 bc (res s') (word_of_nat (cost s)))) = Some out \<and>
    main ilp32 env cost bc b = Some b' \<and>
    (\<forall>n. sent (dev (uart_wait env (Suc n) (io b'))) = outbox (dev (io b)) @ map of_char out)"
proof -
  obtain s s' b' out where r: "setup_run bc (cm b) = Some s" "iterate s = Some s'"
      "format_msgs (snd (main_messages ilp32 bc (res s') (word_of_nat (cost s)))) = Some out"
      "main ilp32 env cost bc b = Some b'" "sys_ok env (io b')" "outbox (dev (io b')) = outbox (dev (io b)) @ map of_char out"
    using main_run [OF assms, of cost] by blast
  have "sent (dev (uart_wait env (Suc n) (io b'))) = outbox (dev (io b)) @ map of_char out" for n
    using outbox_sent [OF wait_start] wait_busy [OF r(5), of "Suc n"] r(6) by metis
  with r show ?thesis by blast
qed

definition demo_build :: build_cfg where
  "demo_build = performance_run 200 \<lparr>seed1_volatile = 0, seed2_volatile = 0, seed3_volatile = 0, seed4_volatile = 0, seed5_volatile = 0,
     static_memblk = 0x10000, compiler_version = ''GCC13.2.0'', compiler_flags = ''-O2''\<rparr>"

definition demo_board :: "unit board" where
  "demo_board = \<lparr>cm = demo_ready, io = demo_uart, start_time_val = 0, stop_time_val = 0, portable_id = 0\<rparr>"

lemma demo_build_ok: "build_ok demo_build r"
proof -
  have p: "seed1 (set_params demo_build r) = 0" "seed2 (set_params demo_build r) = 0"
    by (simp_all add: set_params_def demo_build_def performance_run_def Let_def get_seed_def get_seed_32_def)
  have "distinct (init_indices 31 0 31)" using standard_indices by simp
  moreover have "short_text 400 ''GCC13.2.0''" "short_text 400 ''-O2''" by (simp_all add: short_text_def) code_simp+
  moreover have "ch_comma \<noteq> 0" by code_simp
  ultimately show ?thesis by (simp add: build_ok_def p) (simp add: demo_build_def performance_run_def)
qed

theorem main_reports_witness:
  "\<exists>s s' b' out. setup_run demo_build demo_ready = Some s \<and> iterate s = Some s' \<and>
    format_msgs (snd (main_messages ilp32 demo_build (res s') 900000000)) = Some out \<and>
    main ilp32 demo_uart_env (\<lambda>s. 900000000) demo_build demo_board = Some b' \<and>
    (\<forall>n. sent (dev (uart_wait demo_uart_env (Suc n) (io b'))) = map of_char out)"
proof -
  have "build_ok demo_build (res (cm demo_board))" "seed4_volatile demo_build \<noteq> 0" "unat (seed4_volatile demo_build) \<le> 4194304"
    "sys_ok demo_uart_env (io demo_board)"
    using demo_build_ok demo_uart_ok by (simp_all add: demo_board_def) (simp_all add: demo_build_def performance_run_def)
  from main_reports [OF this, of "\<lambda>s. 900000000"] show ?thesis
    by (simp add: demo_board_def demo_uart_def idle_uart_def outbox_def del: uart_wait.simps)
qed

section \<open>Calibration\<close>

lemma set_iterations_ready: "list_ready xs (cm b) \<Longrightarrow> list_ready xs (cm (set_iterations n b))"
  by (simp add: set_iterations_def list_ready_def res_ok_def)

lemma set_iterations_simps [simp]:
  "iterations (res (cm (set_iterations n b))) = n" "io (set_iterations n b) = io b"
  by (simp_all add: set_iterations_def)

lemma calibrate_loop_run:
  assumes "\<And>s. cost s = c * unat (iterations (res s))" "0 < c"
  shows "list_ready xs (cm b) \<Longrightarrow> sys_ok env (io b) \<Longrightarrow> it = unat (iterations (res (cm b))) \<Longrightarrow> 0 < it \<Longrightarrow> c * it * 10 < 4294967296 \<Longrightarrow>
    \<exists>b'. calibrate_loop env cost b = Some (time_in_secs (word_of_nat (c * unat (iterations (res (cm b'))))), b') \<and>
      list_ready xs (cm b') \<and> sys_ok env (io b') \<and> 60000000 \<le> c * unat (iterations (res (cm b'))) \<and>
      c * unat (iterations (res (cm b'))) < 4294967296 \<and>
      (iterations (res (cm b')) = iterations (res (cm b)) * 10 \<or> c * unat (iterations (res (cm b'))) < 600000000)"
proof (induction "60000000 - c * it" arbitrary: b it rule: less_induct)
  case less
  let ?b = "set_iterations (iterations (res (cm b)) * 10) b"
  have "it * 10 \<le> c * it * 10" using assms(2) by simp
  then have "it * 10 < 4294967296" using less.prems(5) by (rule le_less_trans)
  then have n: "unat (iterations (res (cm b)) * 10) = it * 10" using less.prems(3) by (simp add: unat_word_ariths)
  have cost: "cost (cm ?b) = c * (it * 10)" using n by (simp add: assms(1))
  have "list_ready xs (cm ?b)" "sys_ok env (io ?b)" using set_iterations_ready [OF less.prems(1)] less.prems(2) by simp_all
  then obtain b1 where b1: "timed_run env cost ?b = Some b1" "list_ready xs (cm b1)" "get_time b1 = word_of_nat (c * (it * 10))"
    "sys_ok env (io b1)" "same_list xs (cm ?b) (cm b1)"
    using timed_run_ready [of xs ?b env cost, unfolded cost] by metis
  have it1: "iterations (res (cm b1)) = iterations (res (cm b)) * 10"
    using b1(5) by (simp add: same_list_def res_cfg_def set_iterations_def)
  have ticks: "unat (word_of_nat (c * (it * 10)) :: u32) = c * (it * 10)" using less.prems(5) by (intro of_nat_inverse) (simp_all add: mult.assoc)
  show ?case
  proof (cases "c * (it * 10) < 60000000")
    case True
    then have loop: "calibrate_loop env cost b = calibrate_loop env cost b1"
      using b1(1,3) ticks by (subst calibrate_loop.simps) (simp add: secs_short)
    have "c * it < c * (it * 10)" using assms(2) less.prems(4) by simp
    then have dec: "60000000 - c * (it * 10) < 60000000 - c * it" using True by linarith
    have small: "c * (it * 10) * 10 < 4294967296" using True by simp
    have "0 < it * 10" using less.prems(4) by simp
    from less.hyps [OF dec b1(2,4) _ this small] it1 n obtain b' where
      b': "calibrate_loop env cost b1 = Some (time_in_secs (word_of_nat (c * unat (iterations (res (cm b'))))), b')"
        "list_ready xs (cm b')" "sys_ok env (io b')" "60000000 \<le> c * unat (iterations (res (cm b')))"
        "c * unat (iterations (res (cm b'))) < 4294967296"
        "iterations (res (cm b')) = iterations (res (cm b1)) * 10 \<or> c * unat (iterations (res (cm b'))) < 600000000"
      by auto
    have "it * 10 \<le> c * (it * 10)" using assms(2) by simp
    then have "it * 10 * 10 < 4294967296" using True by linarith
    then have "unat (iterations (res (cm b1)) * 10) = it * 10 * 10"
      unfolding it1 unat_word_ariths(2) [of "iterations (res (cm b)) * 10"] n by simp
    then have "c * unat (iterations (res (cm b1)) * 10) < 600000000" using True by simp
    then show ?thesis using loop b' by metis
  next
    case False
    then have "calibrate_loop env cost b = Some (time_in_secs (word_of_nat (c * (it * 10))), b1)"
      using b1(1,3) ticks by (subst calibrate_loop.simps) (simp add: secs_short)
    then show ?thesis using False b1(2,4) it1 n less.prems(5) by (intro exI [of _ b1]) (simp add: mult.assoc)
  qed
qed

text \<open>The factor by which the measured run is repeated, in units of ticks.\<close>

lemma calibrated_ticks:
  fixes x :: nat
  assumes "60000000 \<le> x" "x < 4294967296"
  shows "660000000 \<le> x * (1 + 10 div (x div 60000000))" "x * (1 + 10 div (x div 60000000)) < 4294967296"
    "x < 660000000 \<Longrightarrow> x * (1 + 10 div (x div 60000000)) < 1320000000"
proof -
  define d where "d = x div 60000000"
  have d: "d * 60000000 \<le> x" "x < (d + 1) * 60000000" "1 \<le> d"
    using assms(1) by (simp_all add: d_def dividend_less_div_times div_greater_zero_iff)
  have "d = 1 \<or> d = 2 \<or> d = 3 \<or> d = 4 \<or> d = 5 \<or> d = 6 \<or> d = 7 \<or> d = 8 \<or> d = 9 \<or> d = 10 \<or> 11 \<le> d"
    using d(3) by presburger
  then have "660000000 \<le> x * (1 + 10 div d) \<and> x * (1 + 10 div d) < 4294967296 \<and> (x < 660000000 \<longrightarrow> x * (1 + 10 div d) < 1320000000)"
    by (elim disjE) (use d assms in simp_all)
  then show "660000000 \<le> x * (1 + 10 div (x div 60000000))" "x * (1 + 10 div (x div 60000000)) < 4294967296"
    "x < 660000000 \<Longrightarrow> x * (1 + 10 div (x div 60000000)) < 1320000000" unfolding d_def by blast+
qed

text \<open>
  C37. The automatic choice of the iteration count: on a board where an iteration takes \<open>c\<close> cycles and ten iterations less than \<open>2 ^ 32\<close>,
  the calibration ends, and the benchmark that follows takes at least eleven seconds, measured
  exactly by the 32-bit counter, so that it counts as a valid run; it takes at most 22 seconds when ten iterations take
  less than eleven.
\<close>

theorem calibrated_run_valid:
  assumes "list_ready xs (cm b)" "sys_ok env (io b)" "iterations (res (cm b)) = 0"
    and "\<And>s. cost s = c * unat (iterations (res s))" "0 < c" "c * 10 < 4294967296"
  shows "\<exists>b1 b2. calibrate env cost b = Some b1 \<and> timed_run env cost b1 = Some b2 \<and>
    unat (get_time b2) = c * unat (iterations (res (cm b1))) \<and> 660000000 \<le> unat (get_time b2) \<and>
    (c * 10 < 660000000 \<longrightarrow> unat (get_time b2) < 1320000000)"
proof -
  let ?b0 = "set_iterations 1 b"
  obtain b' where b': "calibrate_loop env cost ?b0 = Some (time_in_secs (word_of_nat (c * unat (iterations (res (cm b'))))), b')"
      "list_ready xs (cm b')" "sys_ok env (io b')" "60000000 \<le> c * unat (iterations (res (cm b')))"
      "c * unat (iterations (res (cm b'))) < 4294967296"
      "iterations (res (cm b')) = 10 \<or> c * unat (iterations (res (cm b'))) < 600000000"
    using calibrate_loop_run [OF assms(4,5) set_iterations_ready [OF assms(1)], of env 1 1] assms(2,6) by auto
  define n where "n = unat (iterations (res (cm b')))"
  define d where "d = c * n div 60000000"
  have t: "unat (word_of_nat (c * n) :: u32) = c * n" using b'(5) by (intro of_nat_inverse) (simp_all add: n_def)
  have d: "1 \<le> d" "d < 72" using b'(4,5) by (simp_all add: d_def n_def div_greater_zero_iff)
  have "trunc (time_in_secs (word_of_nat (c * n))) = int d" using secs_trunc [of "word_of_nat (c * n)"] t by (simp add: d_def)
  moreover have ud: "unat (word_of_int (int d) :: u32) = d" using d(2) by (simp add: of_nat_inverse)
  ultimately have cal: "calibrate env cost b = Some (set_iterations (iterations (res (cm b')) * (1 + 10 div word_of_nat d)) b')"
    using assms(3) b'(1) d(1) unat_gt_0 [of "word_of_int (int d) :: u32"] by (auto simp: calibrate_def n_def [symmetric] Let_def)
  let ?f = "1 + 10 div (d :: nat)"
  have x: "660000000 \<le> c * n * ?f" "c * n * ?f < 4294967296" "c * n < 660000000 \<Longrightarrow> c * n * ?f < 1320000000"
    using calibrated_ticks [of "c * n"] b'(4,5) by (simp_all add: d_def n_def)
  have "n * ?f \<le> c * (n * ?f)" using assms(5) by (cases c) simp_all
  also have "\<dots> < 4294967296" using x(2) by (simp only: mult.assoc)
  finally have "n * ?f < 4294967296" .
  moreover have "unat (1 + 10 div word_of_nat d :: u32) = ?f"
  proof -
    have "10 div d < 4294967295" using div_le_dividend [of 10 d] by linarith
    then show ?thesis using ud by (simp add: unat_word_ariths unat_div)
  qed
  ultimately have it: "unat (iterations (res (cm b')) * (1 + 10 div word_of_nat d)) = n * ?f"
    by (simp add: unat_word_ariths n_def)
  let ?b1 = "set_iterations (iterations (res (cm b')) * (1 + 10 div word_of_nat d)) b'"
  obtain b2 where b2: "timed_run env cost ?b1 = Some b2" "get_time b2 = word_of_nat (cost (cm ?b1))"
    using timed_run_ready [OF set_iterations_ready [OF b'(2)], of env _ cost] b'(3) by auto
  have eq: "c * unat (iterations (res (cm ?b1))) = c * n * ?f" using it by (simp only: set_iterations_simps mult.assoc)
  have "unat (get_time b2) = c * n * ?f" unfolding b2(2) assms(4) eq using x(2) by (intro of_nat_inverse) simp_all
  moreover have "c * n < 660000000" if "c * 10 < 660000000" using b'(6) that by (auto simp: n_def)
  ultimately show ?thesis using cal b2(1) x eq by metis
qed

theorem calibrated_run_valid_witness:
  "\<exists>b1 b2. calibrate demo_uart_env (\<lambda>s. 300000 * unat (iterations (res s))) (set_iterations 0 demo_board) = Some b1 \<and>
     timed_run demo_uart_env (\<lambda>s. 300000 * unat (iterations (res s))) b1 = Some b2 \<and> 660000000 \<le> unat (get_time b2)"
proof -
  have "list_ready [8, 16, 24] (cm (set_iterations 0 demo_board))"
    by (rule set_iterations_ready) (simp add: demo_board_def list_ready_demo)
  moreover have "sys_ok demo_uart_env (io (set_iterations 0 demo_board))" using demo_uart_ok by (simp add: demo_board_def)
  ultimately show ?thesis
    using calibrated_run_valid [of "[8, 16, 24]" "set_iterations 0 demo_board" demo_uart_env
        "\<lambda>s. 300000 * unat (iterations (res s))" 300000] by auto
qed

section \<open>Seeds\<close>

text \<open>The checksums of the \<^verbatim>\<open>switch\<close> belong to the seeds and sizes its comments name.\<close>

lemma seedcrc_values:
  "crc16 2000 (crc16 0x66 (crc16 0 (crc16 0 0))) = 0x8a02"
  "crc16 2000 (crc16 0x66 (crc16 0x3415 (crc16 0x3415 0))) = 0x7b05"
  "crc16 400 (crc16 8 (crc16 8 (crc16 8 0))) = 0x4eaf"
  "crc16 666 (crc16 0x66 (crc16 0 (crc16 0 0))) = 0xe9f5"
  "crc16 666 (crc16 0x66 (crc16 0x3415 (crc16 0x3415 0))) = 0x18f2"
  by code_simp+

theorem known_runs:
  "list_all (\<lambda>(s1, s2, s3, sz, k). map_option fst (known_run (crc16 sz (crc16 s3 (crc16 s2 (crc16 s1 0))))) = Some k)
     [(0, 0, 0x66, 2000, 0), (0x3415, 0x3415, 0x66, 2000, 1), (8, 8, 8, 400, 2), (0, 0, 0x66, 666, 3), (0x3415, 0x3415, 0x66, 666, 4)]"
  by (simp add: seedcrc_values known_run_def)

text \<open>The default build is the 2K performance run, the one whose score is reported.\<close>

theorem default_build_run:
  "let r = set_params (default_run n bc) r0; r = r\<lparr>res_size := res_size r div ucast (num_algorithms (execs r))\<rparr>
   in known_run (seedcrc r) = Some (3, ''2K performance run parameters for coremark.'')"
proof -
  have "num_algorithms ALL_ALGORITHMS_MASK = 3" by code_simp
  then have "ucast (num_algorithms ALL_ALGORITHMS_MASK) = (3 :: u32)" by simp
  then show ?thesis
    by (simp add: Let_def set_params_def default_run_def performance_run_def TOTAL_DATA_SIZE_def get_seed_def get_seed_32_def
        seedcrc_def seedcrc_values known_run_def)
qed

lemma dec_fold_ge: "v \<le> foldl (\<lambda>v c. v * 10 + digit_val c) v ds"
proof (induction ds arbitrary: v)
  case (Cons c ds)
  from Cons [of "v * 10 + digit_val c"] show ?case by simp
qed simp

lemma dec_digits_read:
  "\<forall>c \<in> set ds. is_digit c \<Longrightarrow> foldl (\<lambda>v c. v * 10 + digit_val c) v ds < 2147483648 \<Longrightarrow>
   dec_digits (int v) ds = Some (int (foldl (\<lambda>v c. v * 10 + digit_val c) v ds), [])"
proof (induction ds arbitrary: v)
  case (Cons c ds)
  let ?w = "v * 10 + digit_val c"
  have c: "is_digit c" using Cons.prems(1) by simp
  have w: "?w < 2147483648" using dec_fold_ge [of ?w ds] Cons.prems(2) by simp
  have d: "(of_char c :: int) - 48 = int (digit_val c)" using c by (simp add: digit_val_def is_digit_def of_nat_diff of_nat_of_char)
  have "s32_of (int v * 10) = Some (int v * 10)" "s32_of (int v * 10 + int (digit_val c)) = Some (int ?w)"
    using w by (simp_all add: s32_of_def)
  then show ?case using Cons.IH [of ?w] Cons.prems c d by simp
qed simp

text \<open>
  Numbers given to the program as arguments: \<^verbatim>\<open>parseval\<close> reads back the decimal text \<^verbatim>\<open>ee_printf\<close> produces for every signed 32-bit number but
  the least one, without an overflow on the way.
\<close>

theorem parseval_number:
  assumes "num \<noteq> 0x80000000"
  shows "\<exists>out. number num 10 (- 1) (- 1) SIGN = Some out \<and> parseval out = Some (sint num)"
proof -
  have fl: "\<not> flag SIGN LEFT" "\<not> flag SIGN ZEROPAD" "\<not> flag SIGN PLUS" "\<not> flag SIGN SPACE" "flag SIGN SIGN" "\<not> flag SIGN HEX_PREP" by code_simp+
  define m where "m = magnitude SIGN num"
  define ds where "ds = digits_of SIGN 10 m"
  have neg: "num <s 0 \<longleftrightarrow> sint num < 0" by (simp add: word_sless_alt)
  have num: "num = word_of_int (sint num)" by simp
  have "sint num \<noteq> - 2147483648"
  proof
    assume "sint num = - 2147483648"
    with num show False using assms by simp
  qed
  moreover have "- 2147483648 \<le> sint num" "sint num < 2147483648" using sint_range_size [of num] by (simp_all add: word_size)
  ultimately have r: "- 2147483648 < sint num" "sint num < 2147483648" by simp_all
  have "m = word_of_int \<bar>sint num\<bar>"
    unfolding m_def magnitude_def neg using num fl(5) by (simp add: abs_if)
  then have m: "int (unat m) = \<bar>sint num\<bar>" using r by (simp add: unat_eq_nat_uint uint_word_of_int abs_if)
  then have "unat m < 2147483648" using r by linarith
  note m = m this
  have dig: "\<forall>c \<in> set ds. is_digit c" using decimal_digits by (auto simp: ds_def)
  have val: "read_digits 10 ds = unat m" "ds \<noteq> []" using digits_of_value [of 10 SIGN m] by (simp_all add: ds_def)
  have read: "dec_digits 0 ds = Some (int (unat m), [])"
    using dec_digits_read [OF dig, of 0] val(1) m(2) by (simp add: read_digits_def)
  have out: "number num 10 (- 1) (- 1) SIGN = Some ((if sint num < 0 then ''-'' else []) @ ds)"
    using number_eq [of 10 num "- 1" "- 1" SIGN] fl by (simp add: Let_def hex_prep_def sign_of_def shown_def neg m_def [symmetric] ds_def [symmetric])
  have x: "\<not> is_digit (CHR ''x'')" "\<not> is_digit (CHR ''-'')" by code_simp+
  have "take 2 ds \<noteq> ''0x''" using dig x(1) by (cases ds rule: list.exhaust; cases "tl ds") auto
  moreover have "take 1 ds \<noteq> ''-''" using dig x(2) val(2) by (cases ds) auto
  ultimately have "parseval ((if sint num < 0 then ''-'' else []) @ ds) = Some (sint num)"
    using read m r by (auto simp: parseval_def Let_def s32_of_def)
  with out show ?thesis by simp
qed

theorem parseval_number_witness:
  "\<exists>out. number (- 200) 10 (- 1) (- 1) SIGN = Some out \<and> parseval out = Some (- 200)"
  using parseval_number [of "- 200"] by simp

end
