(* ===== verification/Terminal.thy ===== *)
theory Terminal
  imports UartRx CoreMain
begin

text \<open>
  The benchmark seen from a terminal: \<^verbatim>\<open>main\<close> changes the serial port only by its clock and through the output functions, so
  a receiver on the wire reads the report.
\<close>

section \<open>What a run does to the port\<close>

lemma ran_send_loop: "send_loop env cs n s = Some (n', t) \<Longrightarrow> ran env s t"
proof (induction cs arbitrary: n s)
  case (Cons c cs)
  show ?case
  proof (cases "c = char_of (0 :: nat)")
    case False
    with Cons.prems obtain s1 where "uart_send_char env c s = Some s1" "send_loop env cs (n + 1) s1 = Some (n', t)"
      by (auto simp: bind_eq_Some_conv)
    then show ?thesis using Cons.IH clocked_trans ran_poll_out send_char_poll by metis
  qed (use Cons.prems in \<open>simp add: clocked.start\<close>)
qed (simp add: clocked.start)

lemma ran_ee_printf: "ee_printf fl env fmt args s = Some (n, t) \<Longrightarrow> ran env s t"
  by (auto simp: ee_printf_def bind_eq_Some_conv Let_def split: if_splits intro: ran_send_loop)

lemma ran_print_msgs: "print_msgs env ms s = Some t \<Longrightarrow> ran env s t"
proof (induction ms arbitrary: s)
  case (Cons m ms)
  then obtain n s1 where "ee_printf double_flops env (fst m) (snd m) s = Some (n, s1)" "print_msgs env ms s1 = Some t"
    by (cases m) (auto simp: bind_eq_Some_conv)
  then show ?case using Cons.IH clocked_trans ran_ee_printf by blast
qed (simp add: clocked.start)

lemma ran_timed_run: "timed_run env cost b = Some b' \<Longrightarrow> ran env (io b) (io b')"
  by (auto simp: timed_run_def run_iterate_def bind_eq_Some_conv start_time_def stop_time_def Let_def ran_wait)

lemma ran_calibrate_loop:
  assumes "calibrate_loop env cost b = Some (x, b' :: 'i board)"
  shows "ran env (io b) (io b')"
proof -
  have "\<forall>x b'. r = (x, b') \<longrightarrow> ran env (io b) (io b')" if "calibrate_loop env cost b = Some r" for env cost b and r :: "double \<times> 'i board"
  proof (rule calibrate_loop.raw_induct [where P = "\<lambda>env cost b r. \<forall>x b'. r = (x, b') \<longrightarrow> ran env (io b) (io b')", OF _ that])
    fix f :: "uart_env \<Rightarrow> (cstate \<Rightarrow> nat) \<Rightarrow> 'i board \<Rightarrow> (double \<times> 'i board) option" and env cost b r
    assume IH: "\<And>env cost b r. f env cost b = Some r \<Longrightarrow> \<forall>x b'. r = (x, b') \<longrightarrow> ran env (io b) (io b')"
      and f: "timed_run env cost (set_iterations (iterations (res (cm b)) * 10) b) \<bind>
        (\<lambda>b. let secs_passed = time_in_secs (get_time b)
             in if secs_passed < 1 then f env cost b else Some (secs_passed, b)) = Some r"
    then obtain b1 where b1: "ran env (io b) (io b1)" "f env cost b1 = Some r \<or> r = (time_in_secs (get_time b1), b1)"
      by (auto simp: bind_eq_Some_conv Let_def split: if_splits dest!: ran_timed_run)
    then show "\<forall>x b'. r = (x, b') \<longrightarrow> ran env (io b) (io b')" using IH [of env cost b1 r] clocked_trans by blast
  qed
  with assms show ?thesis by blast
qed

lemma ran_calibrate: "calibrate env cost b = Some b' \<Longrightarrow> ran env (io b) (io b')"
  using ran_calibrate_loop [of env cost "set_iterations 1 b"]
  by (auto simp: calibrate_def bind_eq_Some_conv Let_def clocked.start split: if_splits)

lemma ran_main:
  assumes "main t env cost bc b = Some b'"
  shows "ran env (io b) (io b')"
proof -
  obtain b1 where b1: "portable_init t env b = Some b1" using assms by (auto simp: main_def bind_eq_Some_conv)
  then have r1: "ran env (io b) (io b1)"
    by (auto simp: portable_init_def bind_eq_Some_conv intro: ran_print_msgs)
  show ?thesis
  proof (cases "128 < size_list_head t")
    case True
    with assms b1 have "ran env (io b1) (io b')" by (auto simp: main_def bind_eq_Some_conv dest!: ran_ee_printf)
    then show ?thesis using r1 by (rule clocked_trans)
  next
    case False
    with assms b1 obtain s b2 b3 ms u where r: "calibrate env cost (b1\<lparr>cm := s\<rparr>) = Some b2" "timed_run env cost b2 = Some b3"
        "print_msgs env ms (io b3) = Some u" "io b' = u"
      by (auto simp: main_def bind_eq_Some_conv portable_fini_def Let_def split_beta)
    have "ran env (io b1) (io b2)" using ran_calibrate [OF r(1)] by simp
    moreover have "ran env (io b3) (io b')" using ran_print_msgs [OF r(3)] r(4) by simp
    ultimately show ?thesis using clocked_trans r1 ran_timed_run [OF r(2)] by blast
  qed
qed

section \<open>The report at the terminal\<close>

text \<open>
  C3. The whole program and its reader: for the builds and iteration counts of the report theorem, started with an idle line, \<^verbatim>\<open>main\<close>
  returns, and a terminal on the wire of the serial port whose bit period agrees has then received exactly the
  text of the report on the results of the run, character for character.
\<close>

theorem report_received:
  assumes "build_ok bc (res (cm b))" "seed4_volatile bc \<noteq> 0" "unat (seed4_volatile bc) \<le> 4194304" "sys_ok env (io b)"
    and "line_idle (dev (io b))" "rx_quiet r" "\<not> rx_valid r" "rates_agree (clocks_per_bit env) n"
  shows "\<exists>s s' b' out. setup_run bc (cm b) = Some s \<and> iterate s = Some s' \<and>
    format_msgs (snd (main_messages ilp32 bc (res s') (word_of_nat (cost s)))) = Some out \<and>
    main ilp32 env cost bc b = Some b' \<and>
    (\<forall>k \<ge> 10 * clocks_per_bit env + 2.
       listen n (drop (length (wire (dev (io b)))) (wire (dev (uart_wait env k (io b'))))) r = map of_char out)"
proof -
  obtain s s' b' out where m: "setup_run bc (cm b) = Some s" "iterate s = Some s'"
      "format_msgs (snd (main_messages ilp32 bc (res s') (word_of_nat (cost s)))) = Some out"
      "main ilp32 env cost bc b = Some b'" "sys_ok env (io b')" "outbox (dev (io b')) = outbox (dev (io b)) @ map of_char out"
    using main_run [OF assms(1-4), of cost] by blast
  with ran_received [OF ran_main [OF m(4)] assms(8,5-7) m(5,6)] show ?thesis by blast
qed

theorem report_received_witness:
  "\<exists>s s' b' out. setup_run demo_build demo_ready = Some s \<and> iterate s = Some s' \<and>
    format_msgs (snd (main_messages ilp32 demo_build (res s') 900000000)) = Some out \<and>
    main ilp32 demo_uart_env (\<lambda>s. 900000000) demo_build demo_board = Some b' \<and>
    listen 510 (wire (dev (uart_wait demo_uart_env 6000 (io b')))) quiet_rx = map of_char out"
proof -
  have m: "clocks_per_bit demo_uart_env = 520" "io demo_board = demo_uart" "cm demo_board = demo_ready"
    by (simp_all add: demo_uart_env_def demo_board_def)
  have "build_ok demo_build (res (cm demo_board))" "seed4_volatile demo_build \<noteq> 0" "unat (seed4_volatile demo_build) \<le> 4194304"
    "sys_ok demo_uart_env (io demo_board)"
    using demo_build_ok demo_uart_ok by (simp_all add: m(2,3)) (simp_all add: demo_build_def performance_run_def)
  moreover have "rates_agree (clocks_per_bit demo_uart_env) 510" by (simp add: m rates_agree_def sample_time_def)
  ultimately obtain s s' b' out where "setup_run demo_build demo_ready = Some s" "iterate s = Some s'"
      "format_msgs (snd (main_messages ilp32 demo_build (res s') 900000000)) = Some out"
      "main ilp32 demo_uart_env (\<lambda>s. 900000000) demo_build demo_board = Some b'"
      "\<forall>k \<ge> 5202. listen 510 (wire (dev (uart_wait demo_uart_env k (io b')))) quiet_rx = map of_char out"
    using report_received [of demo_build demo_board demo_uart_env quiet_rx 510 "\<lambda>s. 900000000"] quiet_rx_ok demo_line_idle
    by (auto simp: m)
  moreover from this(5) have "listen 510 (wire (dev (uart_wait demo_uart_env 6000 (io b')))) quiet_rx = map of_char out" by simp
  ultimately show ?thesis by blast
qed

section \<open>Debug output of the matrix kernel\<close>

text \<open>
  \<^verbatim>\<open>printmat\<close> and \<^verbatim>\<open>printmatC\<close>, which a build with \<^verbatim>\<open>CORE_DEBUG\<close> has, as the calls of \<^verbatim>\<open>ee_printf\<close> they make;
  \<open>elem\<close> gives the promoted element at an index, and \<^const>\<open>None\<close> is an access outside the array.
\<close>

definition matrix_row :: "(nat \<Rightarrow> u32) \<Rightarrow> nat \<Rightarrow> nat \<Rightarrow> msg list" where
  "matrix_row elem N i =
     concat (map (\<lambda>j. (if j \<noteq> 0 then [('','', [])] else []) @ [(''%d'', [AInt (elem (i * N + j))])]) [0..<N]) @ [(nl, [])]"

definition matrix_msgs :: "(nat \<Rightarrow> u32) \<Rightarrow> nat \<Rightarrow> string \<Rightarrow> msg list" where
  "matrix_msgs elem N name =
     (''Matrix %s [%dx%d]:'' @ nl, [AStr (Some name), AInt (word_of_nat N), AInt (word_of_nat N)]) #
     concat (map (matrix_row elem N) [0..<N])"

definition printmat :: "uart_env \<Rightarrow> s16 list \<Rightarrow> nat \<Rightarrow> string \<Rightarrow> 'i uart_sys \<Rightarrow> 'i uart_sys option" where
  "printmat env A N name s =
     (if length A < N * N then None else print_msgs env (matrix_msgs (\<lambda>k. promote16 (A ! k)) N name) s)"

definition printmatC :: "uart_env \<Rightarrow> s32 list \<Rightarrow> nat \<Rightarrow> string \<Rightarrow> 'i uart_sys \<Rightarrow> 'i uart_sys option" where
  "printmatC env C N name s =
     (if length C < N * N then None else print_msgs env (matrix_msgs (\<lambda>k. C ! k) N name) s)"

lemma matrix_msgs_print:
  assumes "short_text 400 name"
  shows "list_all (prints 1000) (matrix_msgs elem N name)"
proof -
  have lit: "literal_text 30 ''Matrix ''" "literal_text 30 '' [''" "literal_text 30 ''x''" "literal_text 10 ('']:'' @ nl)" "literal_text 30 '',''"
    by code_simp+
  have e: "prints 1000 (''%d'', [AInt n])" for n
    by (rule prints_conversion [of _ "[]" "''d''" "[]" 30 _ 40 30, OF _ literals(23) directive_int(3) prints_literal [OF literals(23)]]) simp_all
  have row: "list_all (prints 1000) (matrix_row elem N i)" for i
    using e prints_mono [OF prints_literal [OF lit(5), of "[]"], of 1000] prints_mono [OF end_line, of 1000]
    by (auto simp: matrix_row_def list_all_iff)
  have p1: "prints 100 (''x%d]:'' @ nl, [AInt n])" for n
    by (rule prints_conversion [OF _ lit(3) directive_int(3) prints_literal [OF lit(4)]]) simp_all
  have p2: "prints 200 ('' [%dx%d]:'' @ nl, [AInt m, AInt n])" for m n
    by (rule prints_conversion [OF _ lit(2) directive_int(3) p1]) simp_all
  have "prints 1000 (''Matrix %s [%dx%d]:'' @ nl, [AStr (Some name), AInt m, AInt n])" for m n
    by (rule prints_conversion [OF _ lit(1) directive_str [OF assms] p2]) simp_all
  with row show ?thesis by (auto simp: matrix_msgs_def list_all_iff)
qed

text \<open>A debug print returns and sends the text of its calls, for every matrix inside its array.\<close>

theorem printmat_sends:
  assumes "N * N \<le> length A" "short_text 400 name" "sys_ok env s"
  shows "\<exists>s' t. printmat env A N name s = Some s' \<and> format_msgs (matrix_msgs (\<lambda>k. promote16 (A ! k)) N name) = Some t \<and>
    outbox (dev s') = outbox (dev s) @ map of_char t"
  using print_msgs_sends [OF matrix_msgs_print [OF assms(2)] assms(3)] assms(1) by (simp add: printmat_def) blast

end
