(* ===== verification/Dcache.thy ===== *)
theory Dcache
  imports Prelude
begin

text \<open>
  The direct-mapped write-back data cache of \<^verbatim>\<open>src/dcache_bram.v\<close> together with
  the memory behind it, at the level of whole CPU accesses: a hit is served from
  the arrays, a miss runs the states \<open>S_CAP\<close>, \<open>S_WB\<close> (when the victim is valid
  and dirty), \<open>S_FILL\<close> and \<open>S_RECHECK\<close> and then hits. The number of sets \<open>ns\<close> is
  the module's parameter \<open>NUM_SETS\<close>; the line size is its \<open>LINE_BYTES\<close>, 16.
  Timing, address speculation and the store-to-load bypass, which make a hit
  take no extra cycle, are left to \<^verbatim>\<open>DcacheRtl\<close>, which shows that the clocked cache implements these accesses. Addresses are natural numbers
  (the value of the 32-bit address).

  The interface other components use is what the CPU sees (\<open>cpu_view\<close>), what
  a bus master behind the cache sees (\<open>dram\<close>), and which addresses are resident.
\<close>

section \<open>State and address decoding\<close>

record dcsys =
  dc_valid :: "nat \<Rightarrow> bool"
  dc_tag :: "nat \<Rightarrow> nat"
  dc_dirty :: "nat \<Rightarrow> bool"
  dc_data :: "nat \<Rightarrow> nat \<Rightarrow> u8"
  dram :: "nat \<Rightarrow> u8"

definition m_idx :: "nat \<Rightarrow> nat \<Rightarrow> nat" where
  "m_idx ns a = a div 16 mod ns"

definition m_tag :: "nat \<Rightarrow> nat \<Rightarrow> nat" where
  "m_tag ns a = a div 16 div ns"

definition dc_hit :: "nat \<Rightarrow> dcsys \<Rightarrow> nat \<Rightarrow> bool" where
  "dc_hit ns s a \<longleftrightarrow> dc_valid s (m_idx ns a) \<and> dc_tag s (m_idx ns a) = m_tag ns a"

text \<open>The address \<open>{tag, idx, 4'b0}\<close> of the line a set holds.\<close>

definition line_addr :: "nat \<Rightarrow> nat \<Rightarrow> nat \<Rightarrow> nat" where
  "line_addr ns tag idx = (tag * ns + idx) * 16"

section \<open>The miss path and the two kinds of access\<close>

definition write_line :: "nat \<Rightarrow> (nat \<Rightarrow> u8) \<Rightarrow> (nat \<Rightarrow> u8) \<Rightarrow> (nat \<Rightarrow> u8)" where
  "write_line base line m = (\<lambda>a. if base \<le> a \<and> a < base + 16 then line (a - base) else m a)"

definition dc_writeback :: "nat \<Rightarrow> nat \<Rightarrow> dcsys \<Rightarrow> dcsys" where
  "dc_writeback ns idx s =
     (if dc_valid s idx \<and> dc_dirty s idx
      then s\<lparr>dram := write_line (line_addr ns (dc_tag s idx) idx) (dc_data s idx) (dram s)\<rparr>
      else s)"

definition dc_fill :: "nat \<Rightarrow> nat \<Rightarrow> nat \<Rightarrow> dcsys \<Rightarrow> dcsys" where
  "dc_fill ns tag idx s =
     s\<lparr>dc_data := (dc_data s)(idx := (\<lambda>k. dram s (line_addr ns tag idx + k))),
       dc_valid := (dc_valid s)(idx := True),
       dc_tag := (dc_tag s)(idx := tag),
       dc_dirty := (dc_dirty s)(idx := False)\<rparr>"

definition dc_refill :: "nat \<Rightarrow> nat \<Rightarrow> dcsys \<Rightarrow> dcsys" where
  "dc_refill ns a s =
     (if dc_hit ns s a then s
      else dc_fill ns (m_tag ns a) (m_idx ns a) (dc_writeback ns (m_idx ns a) s))"

text \<open>A byte load (\<^verbatim>\<open>lbu\<close>) and a byte store (\<^verbatim>\<open>sb\<close>) of the CPU.\<close>

definition dc_load8 :: "nat \<Rightarrow> nat \<Rightarrow> dcsys \<Rightarrow> u8 \<times> dcsys" where
  "dc_load8 ns a s =
     (let s = dc_refill ns a s in (dc_data s (m_idx ns a) (a mod 16), s))"

definition dc_store8 :: "nat \<Rightarrow> nat \<Rightarrow> u8 \<Rightarrow> dcsys \<Rightarrow> dcsys" where
  "dc_store8 ns a v s =
     (let s = dc_refill ns a s; i = m_idx ns a
      in s\<lparr>dc_data := (dc_data s)(i := (dc_data s i)(a mod 16 := v)),
           dc_dirty := (dc_dirty s)(i := True)\<rparr>)"

section \<open>What the CPU sees\<close>

definition cpu_view :: "nat \<Rightarrow> dcsys \<Rightarrow> nat \<Rightarrow> u8" where
  "cpu_view ns s a = (if dc_hit ns s a then dc_data s (m_idx ns a) (a mod 16) else dram s a)"

text \<open>The line of \<open>a\<close> is in the cache and has been written since it was fetched.\<close>

definition dc_dirty_at :: "nat \<Rightarrow> dcsys \<Rightarrow> nat \<Rightarrow> bool" where
  "dc_dirty_at ns s a \<longleftrightarrow> dc_hit ns s a \<and> dc_dirty s (m_idx ns a)"

text \<open>
  A clean resident byte agrees with memory. This holds of every address as long
  as only the CPU writes memory; a bus master that writes behind the cache
  breaks it for the lines it writes that are resident.
\<close>

definition in_sync :: "nat \<Rightarrow> dcsys \<Rightarrow> nat \<Rightarrow> bool" where
  "in_sync ns s a \<longleftrightarrow> (dc_hit ns s a \<and> \<not> dc_dirty_at ns s a \<longrightarrow> cpu_view ns s a = dram s a)"

section \<open>Address arithmetic\<close>

lemma line_addr_decode [cache_simps]: "line_addr ns (m_tag ns a) (m_idx ns a) = a div 16 * 16"
  by (simp add: line_addr_def m_tag_def m_idx_def)

lemma same_line_iff:
  "m_idx ns a = m_idx ns b \<and> m_tag ns a = m_tag ns b \<longleftrightarrow> a div 16 = b div 16"
proof -
  have "a div 16 = a div 16 div ns * ns + a div 16 mod ns" for a :: nat
    by simp
  then show ?thesis by (metis m_idx_def m_tag_def)
qed

lemma line_addr_mem_iff:
  assumes "idx < ns"
  shows "line_addr ns tag idx \<le> a \<and> a < line_addr ns tag idx + 16 \<longleftrightarrow>
         m_idx ns a = idx \<and> m_tag ns a = tag" (is "?l \<longleftrightarrow> ?r")
proof
  assume ?l
  then have "a div 16 = tag * ns + idx" by (auto simp: line_addr_def)
  with assms show ?r by (simp add: m_idx_def m_tag_def)
next
  assume ?r
  then have "line_addr ns tag idx = a div 16 * 16" by (metis line_addr_decode)
  then show ?l by simp
qed

lemma m_idx_less [simp]: "0 < ns \<Longrightarrow> m_idx ns a < ns"
  by (simp add: m_idx_def)

lemma line_offset [cache_simps]: "a div 16 * 16 + a mod 16 = (a :: nat)" "a - a div 16 * 16 = a mod (16 :: nat)"
  by presburger+

section \<open>A refill\<close>

text \<open>
  What bringing the line of \<open>b\<close> in does to any other address \<open>a\<close>: residency,
  dirtiness, memory and the CPU's view, each as an equation over the state before.
\<close>

lemma hit_fill: "0 < ns \<Longrightarrow> dc_hit ns (dc_fill ns (m_tag ns b) (m_idx ns b) s) a \<longleftrightarrow>
    (if m_idx ns a = m_idx ns b then m_tag ns a = m_tag ns b else dc_hit ns s a)"
  by (auto simp: dc_hit_def dc_fill_def)

lemma hit_writeback [simp]: "dc_hit ns (dc_writeback ns idx s) a = dc_hit ns s a"
  by (simp add: dc_writeback_def dc_hit_def)

lemma data_writeback [simp]: "dc_data (dc_writeback ns idx s) = dc_data s"
  by (simp add: dc_writeback_def)

lemma dirty_writeback [simp]: "dc_dirty (dc_writeback ns idx s) = dc_dirty s"
  by (simp add: dc_writeback_def)

lemma dram_fill [simp]: "dram (dc_fill ns tag idx s) = dram s"
  by (simp add: dc_fill_def)

lemma dram_writeback:
  "idx < ns \<Longrightarrow> dram (dc_writeback ns idx s) a =
     (if m_idx ns a = idx \<and> dc_dirty_at ns s a then cpu_view ns s a else dram s a)"
proof (cases "dc_valid s idx \<and> dc_dirty s idx")
  case False
  then show ?thesis by (auto simp: dc_writeback_def dc_dirty_at_def dc_hit_def)
next
  case True
  assume "idx < ns"
  then have mem: "line_addr ns (dc_tag s idx) idx \<le> a \<and> a < line_addr ns (dc_tag s idx) idx + 16 \<longleftrightarrow>
      m_idx ns a = idx \<and> dc_dirty_at ns s a"
    unfolding line_addr_mem_iff [OF \<open>idx < ns\<close>] using True by (auto simp: dc_dirty_at_def dc_hit_def)
  have off: "a - line_addr ns (dc_tag s idx) idx = a mod 16"
    if "m_idx ns a = idx" "dc_dirty_at ns s a"
    using that by (auto simp: dc_dirty_at_def dc_hit_def cache_simps)
  show ?thesis
    using True off by (auto simp: dc_writeback_def write_line_def mem cpu_view_def dc_dirty_at_def)
qed

lemma hit_refill: "0 < ns \<Longrightarrow> dc_hit ns (dc_refill ns b s) a \<longleftrightarrow>
    (if m_idx ns a = m_idx ns b then m_tag ns a = m_tag ns b else dc_hit ns s a)"
  by (auto simp: dc_refill_def hit_fill) (auto simp: dc_hit_def)

lemma dram_refill: "0 < ns \<Longrightarrow> dram (dc_refill ns b s) a =
    (if m_idx ns a = m_idx ns b \<and> \<not> dc_hit ns s b \<and> dc_dirty_at ns s a
     then cpu_view ns s a else dram s a)"
  by (simp add: dc_refill_def dram_writeback)

lemma dirty_at_refill: "0 < ns \<Longrightarrow> dc_dirty_at ns (dc_refill ns b s) a \<longleftrightarrow>
    dc_dirty_at ns s a \<and> (m_idx ns a = m_idx ns b \<longrightarrow> dc_hit ns s b)"
  by (auto simp: dc_dirty_at_def dc_refill_def hit_fill) (auto simp: dc_fill_def dc_hit_def)

lemma data_refill: "0 < ns \<Longrightarrow> dc_hit ns (dc_refill ns b s) a \<Longrightarrow>
    dc_data (dc_refill ns b s) (m_idx ns a) (a mod 16) = cpu_view ns s a"
proof -
  assume ns: "0 < ns" and hit: "dc_hit ns (dc_refill ns b s) a"
  show ?thesis
  proof (cases "dc_hit ns s b \<or> m_idx ns a \<noteq> m_idx ns b")
    case True
    with ns hit have "dc_hit ns s a"
      by (cases "dc_hit ns s b") (simp_all add: dc_refill_def hit_fill)
    with True show ?thesis
      by (auto simp: cpu_view_def dc_refill_def dc_fill_def)
  next
    case False
    with ns hit have line: "m_idx ns a = m_idx ns b" "m_tag ns a = m_tag ns b" "\<not> dc_hit ns s a"
      by (auto simp: hit_refill) (auto simp: dc_hit_def)
    then have "line_addr ns (m_tag ns b) (m_idx ns b) + a mod 16 = a"
      by (metis line_addr_decode line_offset(1))
    with line False ns show ?thesis
      by (simp add: dc_refill_def dc_fill_def dram_writeback cpu_view_def dc_dirty_at_def)
  qed
qed

lemma view_refill:
  assumes "0 < ns" and "in_sync ns s a"
  shows "cpu_view ns (dc_refill ns b s) a = cpu_view ns s a"
proof (cases "dc_hit ns (dc_refill ns b s) a")
  case True
  with assms(1) show ?thesis by (simp add: cpu_view_def [of ns "dc_refill ns b s"] data_refill)
next
  case False
  show ?thesis
  proof (cases "dc_hit ns s a")
    case True
    with False have "\<not> dc_hit ns s b" by (auto simp: dc_refill_def)
    with True False assms show ?thesis
      by (auto simp: cpu_view_def [of ns "dc_refill ns b s"] dram_refill hit_refill in_sync_def
          split: if_splits)
  next
    case miss: False
    with False assms(1) show ?thesis
      by (simp add: cpu_view_def dram_refill dc_dirty_at_def)
  qed
qed

lemma in_sync_refill:
  assumes "0 < ns" and "in_sync ns s a"
  shows "in_sync ns (dc_refill ns b s) a"
  using assms view_refill [OF assms, of b]
  by (auto simp: in_sync_def hit_refill dirty_at_refill dram_refill split: if_splits)
    (auto simp: cpu_view_def dc_dirty_at_def dc_hit_def)

section \<open>Loads and stores\<close>

lemma snd_load8: "snd (dc_load8 ns a s) = dc_refill ns a s"
  by (simp add: dc_load8_def Let_def)

lemma fst_load8: "0 < ns \<Longrightarrow> fst (dc_load8 ns a s) = cpu_view ns s a"
  by (simp add: dc_load8_def Let_def data_refill hit_refill)

lemma hit_store8: "dc_hit ns (dc_store8 ns b v s) a = dc_hit ns (dc_refill ns b s) a"
  by (simp add: dc_store8_def Let_def dc_hit_def)

lemma dram_store8: "dram (dc_store8 ns b v s) = dram (dc_refill ns b s)"
  by (simp add: dc_store8_def Let_def)

lemma dirty_at_store8: "0 < ns \<Longrightarrow> dc_dirty_at ns (dc_store8 ns b v s) a \<longleftrightarrow>
    a div 16 = b div 16 \<or> dc_dirty_at ns (dc_refill ns b s) a"
  by (auto simp: dc_dirty_at_def hit_store8 hit_refill simp flip: same_line_iff [of ns])
    (auto simp: dc_store8_def Let_def)

lemma mod_div_eq: "a mod k = b mod k \<Longrightarrow> a div k = b div k \<Longrightarrow> a = b" for a b k :: nat
  by (metis div_mult_mod_eq)

lemma view_store8:
  assumes "0 < ns" and "in_sync ns s a"
  shows "cpu_view ns (dc_store8 ns b v s) a = (if a = b then v else cpu_view ns s a)"
proof (cases "a = b")
  case True
  with assms(1) show ?thesis
    by (simp add: cpu_view_def hit_store8 hit_refill) (simp add: dc_store8_def Let_def)
next
  case False
  then have "m_idx ns a \<noteq> m_idx ns b \<or> a mod 16 \<noteq> b mod 16 \<or> \<not> dc_hit ns (dc_refill ns b s) a"
    using assms(1) mod_div_eq [of a 16 b] same_line_iff [of ns a b]
    by (auto simp: hit_refill)
  then have "cpu_view ns (dc_store8 ns b v s) a = cpu_view ns (dc_refill ns b s) a"
    by (auto simp: cpu_view_def hit_store8 dram_store8) (auto simp: dc_store8_def Let_def)
  with False assms show ?thesis by (simp add: view_refill)
qed

lemma in_sync_store8:
  assumes "0 < ns" and "in_sync ns s a"
  shows "in_sync ns (dc_store8 ns b v s) a"
proof -
  have "in_sync ns (dc_refill ns b s) a" by (rule in_sync_refill [OF assms])
  with view_store8 [OF assms, of b v] view_refill [OF assms, of b] assms(1) show ?thesis
    by (auto simp: in_sync_def hit_store8 dram_store8 dirty_at_store8)
qed

section \<open>The contract of a write-back cache\<close>

text \<open>
  What software may rely on: a sequence of CPU accesses to other lines never
  brings a line in, evicts it as soon as one access falls into its set, changes
  what the CPU reads only where it stores, and writes memory only where a dirty
  line is evicted.
\<close>

datatype access = Load nat | Store nat u8

fun acc_addr :: "access \<Rightarrow> nat" where
  "acc_addr (Load a) = a"
| "acc_addr (Store a v) = a"

fun dc_access :: "nat \<Rightarrow> access \<Rightarrow> dcsys \<Rightarrow> dcsys" where
  "dc_access ns (Load a) s = snd (dc_load8 ns a s)"
| "dc_access ns (Store a v) s = dc_store8 ns a v s"

definition off_line :: "nat \<Rightarrow> access list \<Rightarrow> bool" where
  "off_line a xs \<longleftrightarrow> (\<forall>x \<in> set xs. a div 16 \<noteq> acc_addr x div 16)"

lemma off_line_simps [simp]:
  "off_line a []"
  "off_line a (x # xs) \<longleftrightarrow> a div 16 \<noteq> acc_addr x div 16 \<and> off_line a xs"
  by (auto simp: off_line_def)

locale wb_cache =
  fixes view :: "'s \<Rightarrow> nat \<Rightarrow> u8"
    and mem :: "'s \<Rightarrow> nat \<Rightarrow> u8"
    and hit :: "'s \<Rightarrow> nat \<Rightarrow> bool"
    and dirty :: "'s \<Rightarrow> nat \<Rightarrow> bool"
    and synced :: "'s \<Rightarrow> nat \<Rightarrow> bool"
    and set_of :: "nat \<Rightarrow> nat"
    and acc :: "access \<Rightarrow> 's \<Rightarrow> 's"
  assumes view_miss: "\<not> hit s a \<Longrightarrow> view s a = mem s a"
    and dirty_hit: "dirty s a \<Longrightarrow> hit s a"
    and synced_miss: "\<not> hit s a \<Longrightarrow> synced s a"
    and set_of_line: "a div 16 = b div 16 \<Longrightarrow> set_of a = set_of b"
    and hit_acc: "a div 16 \<noteq> acc_addr x div 16 \<Longrightarrow>
      hit (acc x s) a \<longleftrightarrow> hit s a \<and> set_of a \<noteq> set_of (acc_addr x)"
    and dirty_acc: "a div 16 \<noteq> acc_addr x div 16 \<Longrightarrow> dirty (acc x s) a \<Longrightarrow> dirty s a"
    and mem_acc: "\<not> dirty s a \<Longrightarrow> mem (acc x s) a = mem s a"
    and view_acc: "synced s a \<Longrightarrow> a \<noteq> acc_addr x \<Longrightarrow> view (acc x s) a = view s a"
    and synced_acc: "synced s a \<Longrightarrow> synced (acc x s) a"
begin

lemma run_miss: "off_line a xs \<Longrightarrow> \<not> hit s a \<Longrightarrow> \<not> hit (fold acc xs s) a"
  by (induction xs arbitrary: s) (simp_all add: hit_acc)

lemma run_evicts:
  "off_line a xs \<Longrightarrow> x \<in> set xs \<Longrightarrow> set_of (acc_addr x) = set_of a \<Longrightarrow> \<not> hit (fold acc xs s) a"
proof (induction xs arbitrary: s)
  case (Cons y xs)
  show ?case
  proof (cases "x = y")
    case True
    with Cons.prems have "\<not> hit (acc y s) a" by (simp add: hit_acc)
    with Cons.prems show ?thesis using run_miss by simp
  next
    case False
    with Cons show ?thesis by simp
  qed
qed simp

lemma run_view:
  "synced s a \<Longrightarrow> (\<And>x. x \<in> set xs \<Longrightarrow> a \<noteq> acc_addr x) \<Longrightarrow>
   view (fold acc xs s) a = view s a \<and> synced (fold acc xs s) a"
  by (induction xs arbitrary: s) (simp_all add: view_acc synced_acc)

lemma run_clean:
  "off_line a xs \<Longrightarrow> \<not> dirty s a \<Longrightarrow> \<not> dirty (fold acc xs s) a \<and> mem (fold acc xs s) a = mem s a"
proof (induction xs arbitrary: s)
  case (Cons x xs)
  then have "\<not> dirty (acc x s) a" using dirty_acc by auto
  with Cons show ?case by (simp add: mem_acc)
qed simp

text \<open>
  Displacing a line: after accesses that miss its line but fall into its set,
  the byte is in memory, not in the cache, and the CPU will fetch it from there.
  If the byte was in sync its value is what the CPU saw before (a flush); if the
  line was not dirty, its value is what memory held (an invalidation).
\<close>

lemma run_flush:
  assumes "off_line a xs" "x \<in> set xs" "set_of (acc_addr x) = set_of a" "synced s a"
  shows "mem (fold acc xs s) a = view s a" "view (fold acc xs s) a = view s a"
proof -
  have "a \<noteq> acc_addr y" if "y \<in> set xs" for y
    using assms(1) that by (auto simp: off_line_def)
  then show "view (fold acc xs s) a = view s a"
    using run_view [OF assms(4)] by blast
  then show "mem (fold acc xs s) a = view s a"
    using run_evicts [OF assms(1-3)] view_miss by metis
qed

lemma run_invalidate:
  assumes "off_line a xs" "x \<in> set xs" "set_of (acc_addr x) = set_of a" "\<not> dirty s a"
  shows "view (fold acc xs s) a = mem s a" "mem (fold acc xs s) a = mem s a"
  using run_evicts [OF assms(1-3)] view_miss run_clean [OF assms(1,4)] by metis+

end

text \<open>
  The cache of \<^verbatim>\<open>dcache_bram.v\<close> keeps the contract in every geometry with at least
  one set; the two builds of the repository are the FPGA one with 1024 sets and
  the ASIC one with 512.
\<close>

locale dcache_geometry =
  fixes ns :: nat
  assumes sets_pos: "0 < ns"

lemma dc_access_refill: "dc_hit ns (dc_access ns x s) a = dc_hit ns (dc_refill ns (acc_addr x) s) a"
  "dram (dc_access ns x s) = dram (dc_refill ns (acc_addr x) s)"
  by (cases x; simp add: snd_load8 hit_store8 dram_store8)+

lemma dirty_at_access:
  "0 < ns \<Longrightarrow> a div 16 \<noteq> acc_addr x div 16 \<Longrightarrow> dc_dirty_at ns (dc_access ns x s) a \<Longrightarrow> dc_dirty_at ns s a"
  by (cases x) (auto simp: snd_load8 dirty_at_store8 dirty_at_refill)

lemma view_access:
  "0 < ns \<Longrightarrow> in_sync ns s a \<Longrightarrow> a \<noteq> acc_addr x \<Longrightarrow> cpu_view ns (dc_access ns x s) a = cpu_view ns s a"
  by (cases x) (auto simp: snd_load8 view_refill view_store8)

lemma in_sync_access: "0 < ns \<Longrightarrow> in_sync ns s a \<Longrightarrow> in_sync ns (dc_access ns x s) a"
  by (cases x) (auto simp: snd_load8 in_sync_refill in_sync_store8)

sublocale dcache_geometry \<subseteq> wb_cache "cpu_view ns" dram "dc_hit ns" "dc_dirty_at ns" "in_sync ns"
  "m_idx ns" "dc_access ns"
proof (unfold_locales, goal_cases)
  case (5 a x s)
  with sets_pos same_line_iff [of ns a "acc_addr x"] show ?case
    by (auto simp: dc_access_refill hit_refill)
next
  case (6 a x s)
  with sets_pos show ?case by (rule dirty_at_access)
next
  case (7 s a x)
  with sets_pos show ?case by (simp add: dc_access_refill dram_refill)
next
  case (8 s a x)
  with sets_pos show ?case by (simp add: view_access)
next
  case (9 s a x)
  with sets_pos show ?case by (simp add: in_sync_access)
qed (auto simp: cpu_view_def dc_dirty_at_def in_sync_def m_idx_def)

interpretation fpga: dcache_geometry 1024
  by unfold_locales simp

interpretation asic: dcache_geometry 512
  by unfold_locales simp

end
