(* ===== verification/CacheDriver.thy ===== *)
theory CacheDriver
  imports Dcache
begin

text \<open>
  The cache maintenance driver \<^verbatim>\<open>zephyr/drivers/cache/cache_rv32_5stage.c\<close>: flush and
  invalidate by set displacement. The walk loads one byte of the driver's own
  aligned buffer per cache line of the range, and accumulates what it loads in a
  \<^verbatim>\<open>volatile\<close> variable on the stack, whose loads and stores are part of the model
  because they go through the same cache. The address arithmetic is that of
  \<^verbatim>\<open>uintptr_t\<close>, 32 bits, and wraps. A walk whose end lies in the last line of the
  address space would not end, so the loop returns an option.
\<close>

section \<open>The code\<close>

definition DC_LINE :: u32 where "DC_LINE = 16"
definition DC_BYTES :: u32 where "DC_BYTES = 16384"
definition DC_SETS :: u32 where "DC_SETS = DC_BYTES div DC_LINE"

text \<open>
  Where the linker and the compiler put things: the number of sets the hardware
  was built with, the displacement buffer and the variable \<^verbatim>\<open>sink\<close>.
\<close>

record cache_cfg =
  hw_sets :: nat
  displace_buf :: u32
  sink_addr :: nat

definition displace_step :: "cache_cfg \<Rightarrow> u32 \<Rightarrow> dcsys \<Rightarrow> dcsys" where
  "displace_step cfg sidx s =
     (let (v, s) = dc_load8 (hw_sets cfg) (unat (displace_buf cfg + sidx * DC_LINE)) s;
          (sink, s) = dc_load8 (hw_sets cfg) (sink_addr cfg) s
      in dc_store8 (hw_sets cfg) (sink_addr cfg) (sink XOR v) s)"

partial_function (option) displace_loop :: "cache_cfg \<Rightarrow> u32 \<Rightarrow> u32 \<Rightarrow> dcsys \<Rightarrow> dcsys option" where
  "displace_loop cfg a e s =
     (if a < e
      then let sidx = (a div DC_LINE) AND (DC_SETS - 1)
           in displace_loop cfg (a + DC_LINE) e (displace_step cfg sidx s)
      else Some s)"

definition displace_range :: "cache_cfg \<Rightarrow> u32 \<Rightarrow> u32 \<Rightarrow> dcsys \<Rightarrow> dcsys option" where
  "displace_range cfg addr sz s =
     (let s = dc_store8 (hw_sets cfg) (sink_addr cfg) 0 s;
          a = addr div DC_LINE * DC_LINE;
          e = addr + sz
      in do {
        s \<leftarrow> displace_loop cfg a e s;
        Some (snd (dc_load8 (hw_sets cfg) (sink_addr cfg) s))
      })"

function displace_all_loop :: "cache_cfg \<Rightarrow> u32 \<Rightarrow> dcsys \<Rightarrow> dcsys" where
  "displace_all_loop cfg sidx s =
     (if sidx < DC_SETS then displace_all_loop cfg (sidx + 1) (displace_step cfg sidx s) else s)"
  by pat_completeness auto
termination
  by (relation "measure (\<lambda>(cfg, sidx, s). 1024 - unat sidx)")
    (auto simp: DC_SETS_def DC_BYTES_def DC_LINE_def word_less_nat_alt unat_word_ariths)

definition displace_all :: "cache_cfg \<Rightarrow> dcsys \<Rightarrow> dcsys" where
  "displace_all cfg s =
     (let s = dc_store8 (hw_sets cfg) (sink_addr cfg) 0 s;
          s = displace_all_loop cfg 0 s
      in snd (dc_load8 (hw_sets cfg) (sink_addr cfg) s))"

text \<open>The entry points, each with its return code.\<close>

definition cache_data_enable :: "dcsys \<Rightarrow> dcsys" where
  "cache_data_enable s = s"

definition cache_data_disable :: "dcsys \<Rightarrow> dcsys" where
  "cache_data_disable s = s"

definition cache_data_flush_all :: "cache_cfg \<Rightarrow> dcsys \<Rightarrow> rc \<times> dcsys" where
  "cache_data_flush_all cfg s = (RC_OK, displace_all cfg s)"

definition cache_data_invd_all :: "cache_cfg \<Rightarrow> dcsys \<Rightarrow> rc \<times> dcsys" where
  "cache_data_invd_all cfg s = (RC_OK, displace_all cfg s)"

definition cache_data_flush_and_invd_all :: "cache_cfg \<Rightarrow> dcsys \<Rightarrow> rc \<times> dcsys" where
  "cache_data_flush_and_invd_all cfg s = (RC_OK, displace_all cfg s)"

definition cache_data_flush_range :: "cache_cfg \<Rightarrow> u32 \<Rightarrow> u32 \<Rightarrow> dcsys \<Rightarrow> (rc \<times> dcsys) option" where
  "cache_data_flush_range cfg addr sz s = do { s \<leftarrow> displace_range cfg addr sz s; Some (RC_OK, s) }"

definition cache_data_invd_range :: "cache_cfg \<Rightarrow> u32 \<Rightarrow> u32 \<Rightarrow> dcsys \<Rightarrow> (rc \<times> dcsys) option" where
  "cache_data_invd_range cfg addr sz s = do { s \<leftarrow> displace_range cfg addr sz s; Some (RC_OK, s) }"

definition cache_data_flush_and_invd_range ::
    "cache_cfg \<Rightarrow> u32 \<Rightarrow> u32 \<Rightarrow> dcsys \<Rightarrow> (rc \<times> dcsys) option" where
  "cache_data_flush_and_invd_range cfg addr sz s =
     do { s \<leftarrow> displace_range cfg addr sz s; Some (RC_OK, s) }"

definition cache_data_line_size_get :: u32 where
  "cache_data_line_size_get = DC_LINE"

text \<open>The instruction cache has no maintenance path: every operation reports \<^verbatim>\<open>-ENOTSUP\<close>.\<close>

definition cache_instr_enable :: "dcsys \<Rightarrow> dcsys" where
  "cache_instr_enable s = s"

definition cache_instr_disable :: "dcsys \<Rightarrow> dcsys" where
  "cache_instr_disable s = s"

definition cache_instr_flush_all :: "dcsys \<Rightarrow> rc \<times> dcsys" where
  "cache_instr_flush_all s = (RC_ERR ENOTSUP, s)"

definition cache_instr_invd_all :: "dcsys \<Rightarrow> rc \<times> dcsys" where
  "cache_instr_invd_all s = (RC_ERR ENOTSUP, s)"

definition cache_instr_flush_and_invd_all :: "dcsys \<Rightarrow> rc \<times> dcsys" where
  "cache_instr_flush_and_invd_all s = (RC_ERR ENOTSUP, s)"

definition cache_instr_flush_range :: "u32 \<Rightarrow> u32 \<Rightarrow> dcsys \<Rightarrow> rc \<times> dcsys" where
  "cache_instr_flush_range addr sz s = (RC_ERR ENOTSUP, s)"

definition cache_instr_invd_range :: "u32 \<Rightarrow> u32 \<Rightarrow> dcsys \<Rightarrow> rc \<times> dcsys" where
  "cache_instr_invd_range addr sz s = (RC_ERR ENOTSUP, s)"

definition cache_instr_flush_and_invd_range :: "u32 \<Rightarrow> u32 \<Rightarrow> dcsys \<Rightarrow> rc \<times> dcsys" where
  "cache_instr_flush_and_invd_range addr sz s = (RC_ERR ENOTSUP, s)"

definition cache_instr_line_size_get :: u32 where
  "cache_instr_line_size_get = DC_LINE"

section \<open>The walk as a list of accesses\<close>

declare displace_all_loop.simps [simp del]

lemmas dc_consts = DC_LINE_def DC_BYTES_def DC_SETS_def

definition step_accesses :: "cache_cfg \<Rightarrow> u32 \<Rightarrow> dcsys \<Rightarrow> access list" where
  "step_accesses cfg sidx s =
     (let d = unat (displace_buf cfg + sidx * DC_LINE);
          (v, s) = dc_load8 (hw_sets cfg) d s;
          sink = fst (dc_load8 (hw_sets cfg) (sink_addr cfg) s)
      in [Load d, Load (sink_addr cfg), Store (sink_addr cfg) (sink XOR v)])"

lemma displace_step_accesses:
  "displace_step cfg sidx s = fold (dc_access (hw_sets cfg)) (step_accesses cfg sidx s) s"
  by (simp add: displace_step_def step_accesses_def Let_def split: prod.splits)

text \<open>
  A well-placed driver: the buffer is aligned to the configured cache size, which
  is a multiple of the hardware's own.
\<close>

definition cache_cfg_ok :: "cache_cfg \<Rightarrow> bool" where
  "cache_cfg_ok cfg \<longleftrightarrow> hw_sets cfg dvd 1024 \<and> 16384 dvd unat (displace_buf cfg)"

text \<open>
  The bytes a walk must not touch: the displacement buffer itself, and the line
  that holds \<^verbatim>\<open>sink\<close>.
\<close>

definition outside_driver :: "cache_cfg \<Rightarrow> nat \<Rightarrow> bool" where
  "outside_driver cfg a \<longleftrightarrow>
     \<not> (unat (displace_buf cfg) \<le> a \<and> a < unat (displace_buf cfg) + 16384) \<and>
     a div 16 \<noteq> sink_addr cfg div 16"

text \<open>
  The accesses of a walk over the byte range from \<open>lo\<close> up to \<open>hi\<close>: only the buffer and
  \<^verbatim>\<open>sink\<close> are accessed, and for every byte of the range the buffer's line of the
  same set is.
\<close>

definition buf_addr :: "cache_cfg \<Rightarrow> nat \<Rightarrow> nat" where
  "buf_addr cfg k = unat (displace_buf cfg) + 16 * (k mod 1024)"

definition walk :: "cache_cfg \<Rightarrow> nat \<Rightarrow> nat \<Rightarrow> access list \<Rightarrow> bool" where
  "walk cfg lo hi xs \<longleftrightarrow>
     (\<forall>x \<in> set xs. acc_addr x = sink_addr cfg \<or> (\<exists>k. acc_addr x = buf_addr cfg k)) \<and>
     (\<forall>b. lo \<le> b \<and> b < hi \<longrightarrow> (\<exists>x \<in> set xs. acc_addr x = buf_addr cfg (b div 16)))"

lemma unat_buf_addr:
  assumes "cache_cfg_ok cfg"
  shows "unat (displace_buf cfg + (w AND (DC_SETS - 1)) * DC_LINE) = buf_addr cfg (unat w)"
proof -
  have "w AND 1023 = take_bit 10 w" by (simp add: take_bit_eq_mask mask_eq_exp_minus_1)
  then have w: "unat (w AND 1023) = unat w mod 1024"
    by (simp add: take_bit_eq_mod unat_mod)
  obtain k where k: "unat (displace_buf cfg) = 16384 * k"
    using assms by (auto simp: cache_cfg_ok_def)
  with unat32_less [of "displace_buf cfg"] have "k < 262144" by simp
  moreover have "unat w mod 1024 < 1024" by simp
  ultimately have "unat (displace_buf cfg) + 16 * (unat w mod 1024) < 4294967296"
    using k by linarith
  then show ?thesis
    by (simp add: dc_consts unat_word_ariths w buf_addr_def mult.commute)
qed

lemma same_line_from_base:
  "n \<le> b \<Longrightarrow> b < n + 16 \<Longrightarrow> 16 dvd n \<Longrightarrow> b div 16 = n div 16" for b n :: nat
  by (elim dvdE) simp

lemma walk_Nil: "hi \<le> lo \<Longrightarrow> walk cfg lo hi []"
  by (simp add: walk_def)

lemma walk_append_left:
  assumes "walk cfg lo hi xs"
    and "\<And>y. y \<in> set ys \<Longrightarrow> acc_addr y = sink_addr cfg \<or> (\<exists>k. acc_addr y = buf_addr cfg k)"
    and "\<And>b. lo' \<le> b \<Longrightarrow> b < lo \<Longrightarrow> \<exists>y \<in> set ys. acc_addr y = buf_addr cfg (b div 16)"
  shows "walk cfg lo' hi (ys @ xs)"
  using assms unfolding walk_def by (metis Un_iff not_le set_append)

lemma walk_append_right:
  "walk cfg lo hi xs \<Longrightarrow> acc_addr y = sink_addr cfg \<Longrightarrow> walk cfg lo hi (xs @ [y])"
  by (auto simp: walk_def)

lemma set_step_accesses:
  "acc_addr ` set (step_accesses cfg sidx s) =
     {unat (displace_buf cfg + sidx * DC_LINE), sink_addr cfg}"
  by (simp add: step_accesses_def Let_def case_prod_beta insert_commute)

lemma walk_step:
  assumes ok: "cache_cfg_ok cfg" and a: "16 dvd unat a"
    and xs: "walk cfg (unat a + 16) hi xs"
  shows "walk cfg (unat a) hi (step_accesses cfg ((a div DC_LINE) AND (DC_SETS - 1)) s @ xs)"
    (is "walk _ _ _ (?ys @ _)")
proof (rule walk_append_left [OF xs])
  have ys: "acc_addr ` set ?ys = {buf_addr cfg (unat a div 16), sink_addr cfg}"
    using unat_buf_addr [OF ok, of "a div DC_LINE"]
    by (simp add: set_step_accesses DC_LINE_def unat_div)
  show "acc_addr y = sink_addr cfg \<or> (\<exists>k. acc_addr y = buf_addr cfg k)" if "y \<in> set ?ys" for y
    using that ys by blast
  show "\<exists>y \<in> set ?ys. acc_addr y = buf_addr cfg (b div 16)"
    if "unat a \<le> b" "b < unat a + 16" for b
  proof -
    have "buf_addr cfg (unat a div 16) \<in> acc_addr ` set ?ys" by (simp only: ys insertI1)
    then show ?thesis unfolding same_line_from_base [OF that a] by (elim imageE) auto
  qed
qed

text \<open>
  The loop ends whenever the end of the range is not in the last line of the
  address space, and is then such a walk.
\<close>

lemma displace_loop_walk:
  assumes ok: "cache_cfg_ok cfg" and e: "unat e \<le> 4294967280"
  shows "16 dvd unat a \<Longrightarrow> \<exists>xs. walk cfg (unat a) (unat e) xs \<and>
     displace_loop cfg a e s = Some (fold (dc_access (hw_sets cfg)) xs s)"
proof (induction "unat e - unat a" arbitrary: a s rule: less_induct)
  case less
  show ?case
  proof (cases "a < e")
    case False
    then show ?thesis
      by (subst displace_loop.simps) (auto intro!: exI [of _ "[]"] walk_Nil simp: word_less_nat_alt)
  next
    case True
    let ?ys = "step_accesses cfg ((a div DC_LINE) AND (DC_SETS - 1)) s"
    from True e have a: "unat (a + DC_LINE) = unat a + 16"
      by (simp add: DC_LINE_def word_less_nat_alt unat_word_ariths)
    with True less.prems have "unat e - unat (a + DC_LINE) < unat e - unat a" "16 dvd unat (a + DC_LINE)"
      by (simp_all add: word_less_nat_alt)
    from less.hyps [OF this, of "fold (dc_access (hw_sets cfg)) ?ys s"] obtain xs where
      xs: "walk cfg (unat a + 16) (unat e) xs" and
      run: "displace_loop cfg (a + DC_LINE) e (fold (dc_access (hw_sets cfg)) ?ys s) =
        Some (fold (dc_access (hw_sets cfg)) xs (fold (dc_access (hw_sets cfg)) ?ys s))"
      unfolding a by blast
    have "displace_loop cfg a e s = Some (fold (dc_access (hw_sets cfg)) (?ys @ xs) s)"
      using True run by (subst displace_loop.simps) (simp add: displace_step_accesses Let_def)
    with walk_step [OF ok less.prems xs] show ?thesis by blast
  qed
qed


lemma displace_range_walk:
  assumes ok: "cache_cfg_ok cfg" and r: "unat addr + unat sz \<le> 4294967280"
  shows "\<exists>xs. walk cfg (unat addr) (unat addr + unat sz) xs \<and>
     displace_range cfg addr sz s = Some (fold (dc_access (hw_sets cfg)) xs s)"
proof -
  let ?acc = "dc_access (hw_sets cfg)" and ?a = "addr div DC_LINE * DC_LINE"
  let ?s = "?acc (Store (sink_addr cfg) 0) s"
  have a: "unat ?a = unat addr div 16 * 16"
    using unat32_less [of addr] by (simp add: DC_LINE_def unat_word_ariths unat_div)
  have e: "unat (addr + sz) = unat addr + unat sz"
    using r by (simp add: unat_word_ariths)
  from displace_loop_walk [OF ok, of "addr + sz" ?a ?s] a e r obtain xs where
    xs: "walk cfg (unat ?a) (unat addr + unat sz) xs" and
    run: "displace_loop cfg ?a (addr + sz) ?s = Some (fold ?acc xs ?s)"
    by auto
  let ?zs = "Store (sink_addr cfg) 0 # xs @ [Load (sink_addr cfg)]"
  have "displace_range cfg addr sz s = Some (fold ?acc ?zs s)"
    using run by (simp add: displace_range_def Let_def)
  moreover have "walk cfg (unat addr) (unat addr + unat sz) ?zs"
    using xs a by (auto simp: walk_def intro: order_trans)
  ultimately show ?thesis by blast
qed

text \<open>The whole-cache walk visits the sets as a range walk over one cache's worth of bytes would.\<close>

lemma set_index_of_line:
  assumes "unat sidx < 1024"
  shows "((sidx * DC_LINE) div DC_LINE) AND (DC_SETS - 1) = sidx"
    and "unat (sidx * DC_LINE) = 16 * unat sidx"
proof -
  show *: "unat (sidx * DC_LINE) = 16 * unat sidx"
    using assms by (simp add: dc_consts unat_word_ariths)
  have "w AND 1023 = take_bit 10 w" for w :: u32
    by (simp add: take_bit_eq_mask mask_eq_exp_minus_1)
  then have "unat (((sidx * DC_LINE) div DC_LINE) AND (DC_SETS - 1)) = unat sidx"
    using * assms by (simp add: dc_consts take_bit_eq_mod unat_mod unat_div)
  then show "((sidx * DC_LINE) div DC_LINE) AND (DC_SETS - 1) = sidx"
    by (rule word_unat_eq_iff [THEN iffD2])
qed

lemma displace_all_loop_walk:
  "cache_cfg_ok cfg \<Longrightarrow> unat sidx \<le> 1024 \<Longrightarrow> \<exists>xs. walk cfg (16 * unat sidx) 16384 xs \<and>
     displace_all_loop cfg sidx s = fold (dc_access (hw_sets cfg)) xs s"
proof (induction cfg sidx s rule: displace_all_loop.induct)
  case (1 cfg sidx s)
  show ?case
  proof (cases "sidx < DC_SETS")
    case False
    then show ?thesis
      by (subst displace_all_loop.simps)
        (auto intro!: exI [of _ "[]"] walk_Nil simp: dc_consts word_less_nat_alt)
  next
    case True
    then have n: "unat (sidx + 1) = unat sidx + 1" "unat sidx < 1024"
      by (simp_all add: dc_consts word_less_nat_alt unat_word_ariths)
    then have "unat (sidx + 1) \<le> 1024" "16 * unat (sidx + 1) = 16 * unat sidx + 16" by simp_all
    with 1(1) [OF True 1(2)] obtain xs where xs: "walk cfg (16 * unat sidx + 16) 16384 xs" and
      run: "displace_all_loop cfg (sidx + 1) (displace_step cfg sidx s) =
        fold (dc_access (hw_sets cfg)) xs (displace_step cfg sidx s)"
      by (metis (no_types))
    have "walk cfg (16 * unat sidx) 16384 (step_accesses cfg sidx s @ xs)"
      using walk_step [of cfg "sidx * DC_LINE" 16384 xs s] 1(2) xs
      by (simp add: set_index_of_line [OF n(2)])
    then show ?thesis using True run
      by (subst displace_all_loop.simps) (auto simp: displace_step_accesses)
  qed
qed

lemma displace_all_walk:
  assumes "cache_cfg_ok cfg"
  shows "\<exists>xs. walk cfg 0 16384 xs \<and> displace_all cfg s = fold (dc_access (hw_sets cfg)) xs s"
proof -
  let ?acc = "dc_access (hw_sets cfg)"
  let ?s = "?acc (Store (sink_addr cfg) 0) s"
  from displace_all_loop_walk [OF assms, of 0 ?s] obtain xs where
    "walk cfg 0 16384 xs" "displace_all_loop cfg 0 ?s = fold ?acc xs ?s"
    by auto
  then show ?thesis
    by (intro exI [of _ "Store (sink_addr cfg) 0 # xs @ [Load (sink_addr cfg)]"])
      (auto simp: displace_all_def Let_def walk_def)
qed

section \<open>What a walk does to memory\<close>

lemma buf_line_inside:
  assumes "cache_cfg_ok cfg" and "a div 16 = buf_addr cfg k div 16"
  shows "unat (displace_buf cfg) \<le> a \<and> a < unat (displace_buf cfg) + 16384"
proof -
  obtain n where n: "unat (displace_buf cfg) = 16384 * n"
    using assms(1) by (auto simp: cache_cfg_ok_def)
  then have "buf_addr cfg k = 16 * (1024 * n + k mod 1024)" by (simp add: buf_addr_def)
  with assms(2) have "a div 16 = 1024 * n + k mod 1024" by simp
  moreover have "k mod 1024 < 1024" by simp
  ultimately have "1024 * n \<le> a div 16" "a div 16 < 1024 * n + 1024" by linarith+
  then show ?thesis using n by linarith
qed

lemma walk_off_line:
  assumes "cache_cfg_ok cfg" "walk cfg lo hi xs" "outside_driver cfg a"
  shows "off_line a xs"
  using assms buf_line_inside unfolding off_line_def walk_def outside_driver_def by metis

lemma buf_addr_set:
  assumes "cache_cfg_ok cfg"
  shows "m_idx (hw_sets cfg) (buf_addr cfg (a div 16)) = m_idx (hw_sets cfg) a"
proof -
  obtain n where n: "unat (displace_buf cfg) = 16384 * n"
    using assms by (auto simp: cache_cfg_ok_def)
  then have "buf_addr cfg (a div 16) div 16 = 1024 * n + a div 16 mod 1024"
    by (simp add: buf_addr_def)
  moreover have "hw_sets cfg dvd 1024" using assms by (simp add: cache_cfg_ok_def)
  ultimately show ?thesis
    by (simp add: m_idx_def mod_mod_cancel flip: mod_add_eq)
qed

lemma walk_hits_set:
  assumes "cache_cfg_ok cfg" "walk cfg lo hi xs" "lo \<le> a" "a < hi"
  shows "\<exists>x \<in> set xs. m_idx (hw_sets cfg) (acc_addr x) = m_idx (hw_sets cfg) a"
  using assms buf_addr_set unfolding walk_def by metis

lemma walk_all_hits_set:
  assumes "cache_cfg_ok cfg" "walk cfg 0 16384 xs"
  shows "\<exists>x \<in> set xs. m_idx (hw_sets cfg) (acc_addr x) = m_idx (hw_sets cfg) a"
proof -
  have "buf_addr cfg (a mod 16384 div 16) = buf_addr cfg (a div 16)"
    by (simp add: buf_addr_def mod_mult2_eq [of a 16 1024, simplified])
  then have "m_idx (hw_sets cfg) (a mod 16384) = m_idx (hw_sets cfg) a"
    using buf_addr_set [OF assms(1)] by metis
  then show ?thesis using walk_hits_set [OF assms, of "a mod 16384"] by simp
qed

section \<open>The contract of a range operation\<close>

text \<open>
  What a device driver may rely on. A range operation returns whenever the range
  does not reach into the last line of the address space; afterwards no byte of
  the range is resident, what the CPU saw there is in memory, and no byte outside
  the driver's own storage changes for the CPU, nor in memory if it was not dirty.
  The second group of laws is that of a bus master writing memory behind the
  cache.
\<close>

definition maint_range :: "u32 \<Rightarrow> u32 \<Rightarrow> bool" where
  "maint_range addr sz \<longleftrightarrow> unat addr + unat sz \<le> 4294967280"

definition in_range :: "u32 \<Rightarrow> u32 \<Rightarrow> nat \<Rightarrow> bool" where
  "in_range addr sz a \<longleftrightarrow> unat addr \<le> a \<and> a < unat addr + unat sz"

definition dma_write :: "(nat \<Rightarrow> u8 option) \<Rightarrow> dcsys \<Rightarrow> dcsys" where
  "dma_write f s = s\<lparr>dram := (\<lambda>a. case f a of None \<Rightarrow> dram s a | Some v \<Rightarrow> v)\<rparr>"

locale cache_maint =
  fixes view :: "'s \<Rightarrow> nat \<Rightarrow> u8"
    and mem :: "'s \<Rightarrow> nat \<Rightarrow> u8"
    and hit :: "'s \<Rightarrow> nat \<Rightarrow> bool"
    and dirty :: "'s \<Rightarrow> nat \<Rightarrow> bool"
    and synced :: "'s \<Rightarrow> nat \<Rightarrow> bool"
    and free :: "nat \<Rightarrow> bool"
    and dma :: "(nat \<Rightarrow> u8 option) \<Rightarrow> 's \<Rightarrow> 's"
    and op :: "u32 \<Rightarrow> u32 \<Rightarrow> 's \<Rightarrow> (rc \<times> 's) option"
  assumes miss_view: "\<not> hit s a \<Longrightarrow> view s a = mem s a"
    and dirty_hit: "dirty s a \<Longrightarrow> hit s a"
    and synced_dirty: "dirty s a \<Longrightarrow> synced s a"
    and dma_cache: "hit (dma f s) = hit s" "dirty (dma f s) = dirty s"
    and dma_view: "hit s a \<Longrightarrow> view (dma f s) a = view s a"
    and dma_mem: "mem (dma f s) a = (case f a of None \<Rightarrow> mem s a | Some v \<Rightarrow> v)"
    and op_returns: "maint_range addr sz \<Longrightarrow> \<exists>s'. op addr sz s = Some (RC_OK, s')"
    and op_miss: "maint_range addr sz \<Longrightarrow> op addr sz s = Some (r, s') \<Longrightarrow> free a \<Longrightarrow>
      in_range addr sz a \<or> \<not> hit s a \<Longrightarrow> \<not> hit s' a"
    and op_view: "maint_range addr sz \<Longrightarrow> op addr sz s = Some (r, s') \<Longrightarrow> free a \<Longrightarrow>
      synced s a \<Longrightarrow> view s' a = view s a \<and> synced s' a"
    and op_clean: "maint_range addr sz \<Longrightarrow> op addr sz s = Some (r, s') \<Longrightarrow> free a \<Longrightarrow>
      \<not> dirty s a \<Longrightarrow> \<not> dirty s' a \<and> mem s' a = mem s a"
    and dma_other: "f a = None \<Longrightarrow> view (dma f s) a = view s a \<and> synced (dma f s) a = synced s a"
begin

lemma flush:
  assumes "maint_range addr sz" "op addr sz s = Some (r, s')" "free a" "in_range addr sz a" "synced s a"
  shows "mem s' a = view s a"
  using assms op_miss op_view miss_view by metis

lemma invalidate:
  assumes "maint_range addr sz" "op addr sz s = Some (r, s')" "free a" "in_range addr sz a" "\<not> dirty s a"
  shows "view s' a = mem s a"
  using assms op_miss op_clean miss_view by metis

text \<open>The two-call protocol for a DMA destination: flush, transfer, invalidate, read.\<close>

lemma protocol:
  assumes "maint_range addr sz" "free a" "in_range addr sz a"
    and "op addr sz s = Some (r1, s1)" "op addr sz (dma f s1) = Some (r2, s2)"
    and "f a = Some v"
  shows "view s2 a = v" "mem s2 a = v"
proof -
  have "\<not> hit s1 a" using op_miss assms(1-4) by blast
  then have "\<not> dirty (dma f s1) a" using dma_cache dirty_hit by metis
  moreover have "mem (dma f s1) a = v" using assms(6) by (simp add: dma_mem)
  ultimately show "view s2 a = v" "mem s2 a = v"
    using invalidate [OF assms(1) assms(5) assms(2,3)] op_clean [OF assms(1,5,2)] by metis+
qed

text \<open>Without the first call a line that was dirty is written over the transfer.\<close>

lemma overwritten:
  assumes "maint_range addr sz" "free a" "in_range addr sz a"
    and "dirty s a" "op addr sz (dma f s) = Some (r, s')"
  shows "view s' a = view s a" "mem s' a = view s a"
proof -
  have hit: "hit s a" and "dirty (dma f s) a" using assms(4) dirty_hit dma_cache by metis+
  then have "synced (dma f s) a" using synced_dirty by blast
  with assms flush op_view dma_view [OF hit] show "view s' a = view s a" "mem s' a = view s a"
    by metis+
qed

end

lemma dma_write_cache [simp]:
  "dc_hit ns (dma_write f s) = dc_hit ns s" "dc_dirty_at ns (dma_write f s) = dc_dirty_at ns s"
  "dram (dma_write f s) a = (case f a of None \<Rightarrow> dram s a | Some v \<Rightarrow> v)"
  by (auto simp: dma_write_def dc_hit_def dc_dirty_at_def fun_eq_iff)

lemma cfg_geometry: "cache_cfg_ok cfg \<Longrightarrow> dcache_geometry (hw_sets cfg)"
  by unfold_locales (auto simp: cache_cfg_ok_def intro: Nat.gr0I)

locale placed_driver =
  fixes cfg :: cache_cfg
  assumes placed: "cache_cfg_ok cfg"

sublocale placed_driver \<subseteq> dcache_geometry "hw_sets cfg"
  by (rule cfg_geometry [OF placed])

context placed_driver
begin

lemma range_run:
  assumes "maint_range addr sz"
  obtains xs where "walk cfg (unat addr) (unat addr + unat sz) xs"
    and "displace_range cfg addr sz s = Some (fold (dc_access (hw_sets cfg)) xs s)"
  using displace_range_walk [OF placed] assms unfolding maint_range_def by blast

lemma range_miss:
  assumes "maint_range addr sz" "displace_range cfg addr sz s = Some s'" "outside_driver cfg a"
    and "in_range addr sz a \<or> \<not> dc_hit (hw_sets cfg) s a"
  shows "\<not> dc_hit (hw_sets cfg) s' a"
proof -
  obtain xs where xs: "walk cfg (unat addr) (unat addr + unat sz) xs"
    and s': "s' = fold (dc_access (hw_sets cfg)) xs s"
    using range_run [OF assms(1), of s] assms(2) by (metis option.inject)
  have off: "off_line a xs" by (rule walk_off_line [OF placed xs assms(3)])
  show ?thesis
  proof (cases "in_range addr sz a")
    case True
    then obtain x where "x \<in> set xs" "m_idx (hw_sets cfg) (acc_addr x) = m_idx (hw_sets cfg) a"
      using walk_hits_set [OF placed xs] by (auto simp: in_range_def)
    then show ?thesis unfolding s' by (rule run_evicts [OF off])
  next
    case False
    then show ?thesis unfolding s' using assms(4) by (intro run_miss [OF off]) simp
  qed
qed

lemma range_view:
  assumes "maint_range addr sz" "displace_range cfg addr sz s = Some s'" "outside_driver cfg a"
  shows "in_sync (hw_sets cfg) s a \<Longrightarrow>
      cpu_view (hw_sets cfg) s' a = cpu_view (hw_sets cfg) s a \<and> in_sync (hw_sets cfg) s' a"
    and "\<not> dc_dirty_at (hw_sets cfg) s a \<Longrightarrow> \<not> dc_dirty_at (hw_sets cfg) s' a \<and> dram s' a = dram s a"
proof -
  obtain xs where xs: "walk cfg (unat addr) (unat addr + unat sz) xs"
    and s': "s' = fold (dc_access (hw_sets cfg)) xs s"
    using range_run [OF assms(1), of s] assms(2) by (metis option.inject)
  have off: "off_line a xs" by (rule walk_off_line [OF placed xs assms(3)])
  show "cpu_view (hw_sets cfg) s' a = cpu_view (hw_sets cfg) s a \<and> in_sync (hw_sets cfg) s' a"
    if "in_sync (hw_sets cfg) s a"
    unfolding s' using off by (intro run_view that) (auto simp: off_line_def)
  show "\<not> dc_dirty_at (hw_sets cfg) s' a \<and> dram s' a = dram s a" if "\<not> dc_dirty_at (hw_sets cfg) s a"
    unfolding s' by (rule run_clean [OF off that])
qed

lemma all_flush:
  assumes "outside_driver cfg a"
  shows "\<not> dc_hit (hw_sets cfg) (displace_all cfg s) a"
    and "in_sync (hw_sets cfg) s a \<Longrightarrow> dram (displace_all cfg s) a = cpu_view (hw_sets cfg) s a \<and>
      cpu_view (hw_sets cfg) (displace_all cfg s) a = cpu_view (hw_sets cfg) s a"
proof -
  obtain xs where xs: "walk cfg 0 16384 xs"
    and s': "displace_all cfg s = fold (dc_access (hw_sets cfg)) xs s"
    using displace_all_walk [OF placed] by blast
  have off: "off_line a xs" by (rule walk_off_line [OF placed xs assms])
  obtain x where x: "x \<in> set xs" "m_idx (hw_sets cfg) (acc_addr x) = m_idx (hw_sets cfg) a"
    using walk_all_hits_set [OF placed xs] by blast
  show "\<not> dc_hit (hw_sets cfg) (displace_all cfg s) a"
    unfolding s' by (rule run_evicts [OF off x])
  show "dram (displace_all cfg s) a = cpu_view (hw_sets cfg) s a \<and>
      cpu_view (hw_sets cfg) (displace_all cfg s) a = cpu_view (hw_sets cfg) s a"
    if "in_sync (hw_sets cfg) s a"
    unfolding s' using run_flush [OF off x that] by blast
qed

lemma range_returns: "maint_range addr sz \<Longrightarrow> \<exists>s'. displace_range cfg addr sz s = Some s'"
  by (rule range_run) blast+

end

lemma flush_maint:
  assumes "cache_cfg_ok cfg"
  shows "cache_maint (cpu_view (hw_sets cfg)) dram (dc_hit (hw_sets cfg)) (dc_dirty_at (hw_sets cfg))
    (in_sync (hw_sets cfg)) (outside_driver cfg) dma_write (cache_data_flush_range cfg)"
proof (unfold_locales, goal_cases)
  note d = placed_driver.intro [OF assms]
  {
    case (8 addr sz s)
    then show ?case
      using placed_driver.range_returns [OF d, of addr sz s] by (auto simp: cache_data_flush_range_def)
  next
    case (9 addr sz s r s' a)
    then show ?case
      using placed_driver.range_miss [OF d] by (auto simp: cache_data_flush_range_def bind_eq_Some_conv)
  next
    case (10 addr sz s r s' a)
    then show ?case
      using placed_driver.range_view(1) [OF d] by (auto simp: cache_data_flush_range_def bind_eq_Some_conv)
  next
    case (11 addr sz s r s' a)
    then show ?case
      using placed_driver.range_view(2) [OF d] by (auto simp: cache_data_flush_range_def bind_eq_Some_conv)
  }
qed (auto simp: cpu_view_def dc_dirty_at_def in_sync_def dma_write_def dc_hit_def)

lemma invd_is_flush: "cache_data_invd_range = cache_data_flush_range"
  by (simp add: cache_data_invd_range_def cache_data_flush_range_def fun_eq_iff)

lemmas invd_maint = flush_maint [folded invd_is_flush]

sublocale placed_driver \<subseteq> flush: cache_maint "cpu_view (hw_sets cfg)" dram "dc_hit (hw_sets cfg)"
  "dc_dirty_at (hw_sets cfg)" "in_sync (hw_sets cfg)" "outside_driver cfg" dma_write "cache_data_flush_range cfg"
  by (rule flush_maint [OF placed])

sublocale placed_driver \<subseteq> invd: cache_maint "cpu_view (hw_sets cfg)" dram "dc_hit (hw_sets cfg)"
  "dc_dirty_at (hw_sets cfg)" "in_sync (hw_sets cfg)" "outside_driver cfg" dma_write "cache_data_invd_range cfg"
  by (rule invd_maint [OF placed])

text \<open>
  The board: DRAM starts at \<^verbatim>\<open>0x00100000\<close>; the linker places the buffer at a multiple
  of its size, the stack holds \<^verbatim>\<open>sink\<close>.
\<close>

definition board_cfg :: cache_cfg where
  "board_cfg = \<lparr>hw_sets = 1024, displace_buf = 0x00104000, sink_addr = 0x00200000\<rparr>"

lemma board_cfg_ok: "cache_cfg_ok board_cfg"
  by (simp add: cache_cfg_ok_def board_cfg_def)

interpretation board: placed_driver board_cfg
  by unfold_locales (rule board_cfg_ok)

definition cold_cache :: dcsys where
  "cold_cache = \<lparr>dc_valid = (\<lambda>_. False), dc_tag = (\<lambda>_. 0), dc_dirty = (\<lambda>_. False),
     dc_data = (\<lambda>_ _. 0), dram = (\<lambda>_. 0)\<rparr>"

section \<open>Sets a walk does not touch\<close>

definition same_set :: "nat \<Rightarrow> dcsys \<Rightarrow> dcsys \<Rightarrow> bool" where
  "same_set i s t \<longleftrightarrow> dc_valid t i = dc_valid s i \<and> dc_tag t i = dc_tag s i \<and> dc_dirty t i = dc_dirty s i \<and>
     dc_data t i = dc_data s i"

lemma same_set_refl [simp]: "same_set i s s"
  by (simp add: same_set_def)

lemma same_set_trans: "same_set i s t \<Longrightarrow> same_set i t u \<Longrightarrow> same_set i s u"
  by (simp add: same_set_def)

lemma same_set_refill: "m_idx ns b \<noteq> i \<Longrightarrow> same_set i s (dc_refill ns b s)"
  by (simp add: same_set_def dc_refill_def dc_fill_def dc_writeback_def)

lemma same_set_access: "m_idx ns (acc_addr x) \<noteq> i \<Longrightarrow> same_set i s (dc_access ns x s)"
  using same_set_refill [of ns "acc_addr x" i s]
  by (cases x) (auto simp: snd_load8 dc_store8_def Let_def same_set_def)

lemma same_set_run:
  "\<forall>x \<in> set xs. m_idx ns (acc_addr x) \<noteq> i \<Longrightarrow> same_set i s (fold (dc_access ns) xs s)"
  by (induction xs arbitrary: s) (auto intro: same_set_trans same_set_access)

lemma same_set_view:
  "same_set (m_idx ns a) s t \<Longrightarrow> dc_hit ns s a \<Longrightarrow> dc_hit ns t a \<and> cpu_view ns t a = cpu_view ns s a"
  by (simp add: same_set_def dc_hit_def cpu_view_def)

lemma displace_step_same_set:
  assumes "cache_cfg_ok cfg" "m_idx (hw_sets cfg) (unat a) \<noteq> i" "m_idx (hw_sets cfg) (sink_addr cfg) \<noteq> i"
  shows "same_set i s (displace_step cfg ((a div DC_LINE) AND (DC_SETS - 1)) s)"
proof -
  have "acc_addr ` set (step_accesses cfg ((a div DC_LINE) AND (DC_SETS - 1)) s) =
      {buf_addr cfg (unat a div 16), sink_addr cfg}"
    using unat_buf_addr [OF assms(1), of "a div DC_LINE"] by (simp add: set_step_accesses DC_LINE_def unat_div)
  then have "m_idx (hw_sets cfg) (acc_addr x) \<noteq> i"
    if "x \<in> set (step_accesses cfg ((a div DC_LINE) AND (DC_SETS - 1)) s)" for x
    using that assms(2,3) buf_addr_set [OF assms(1), of "unat a"] by (metis imageI insertE singletonD)
  then show ?thesis unfolding displace_step_accesses by (intro same_set_run) blast
qed

lemma displace_loop_same_set:
  assumes ok: "cache_cfg_ok cfg" and e: "unat e \<le> 4294967280" and sink: "m_idx (hw_sets cfg) (sink_addr cfg) \<noteq> i"
  shows "\<forall>b. unat a \<le> b \<and> b < unat e \<longrightarrow> m_idx (hw_sets cfg) b \<noteq> i \<Longrightarrow>
    displace_loop cfg a e s = Some t \<Longrightarrow> same_set i s t"
proof (induction "unat e - unat a" arbitrary: a s rule: less_induct)
  case less
  show ?case
  proof (cases "a < e")
    case False
    then show ?thesis using less.prems(2) by (subst (asm) displace_loop.simps) simp
  next
    case True
    let ?s = "displace_step cfg ((a div DC_LINE) AND (DC_SETS - 1)) s"
    from True e have a: "unat (a + DC_LINE) = unat a + 16"
      by (simp add: DC_LINE_def word_less_nat_alt unat_word_ariths)
    have "same_set i s ?s"
      using True less.prems(1) by (intro displace_step_same_set [OF ok _ sink]) (simp add: word_less_nat_alt)
    moreover have "displace_loop cfg (a + DC_LINE) e ?s = Some t"
      using True less.prems(2) by (subst (asm) displace_loop.simps) (simp add: Let_def)
    then have "same_set i ?s t"
      using True less.prems(1) a by (intro less.hyps) (auto simp: word_less_nat_alt)
    ultimately show ?thesis by (rule same_set_trans)
  qed
qed

text \<open>The sets a range operation may disturb: those of the lines of the range, and that of \<^verbatim>\<open>sink\<close>.\<close>

definition off_sets :: "cache_cfg \<Rightarrow> nat \<Rightarrow> u32 \<times> u32 \<Rightarrow> bool" where
  "off_sets cfg i r \<longleftrightarrow> m_idx (hw_sets cfg) (sink_addr cfg) \<noteq> i \<and>
     (\<forall>b. unat (fst r) div 16 * 16 \<le> b \<and> b < unat (fst r) + unat (snd r) \<longrightarrow> m_idx (hw_sets cfg) b \<noteq> i)"

lemma flush_range_same_set:
  assumes ok: "cache_cfg_ok cfg" and r: "maint_range (fst r) (snd r)" and off: "off_sets cfg i r"
    and run: "cache_data_flush_range cfg (fst r) (snd r) s = Some (c, t)"
  shows "same_set i s t"
proof -
  let ?k = "sink_addr cfg" and ?ns = "hw_sets cfg" and ?a = "fst r div DC_LINE * DC_LINE" and ?e = "fst r + snd r"
  have a: "unat ?a = unat (fst r) div 16 * 16"
    using unat32_less [of "fst r"] by (simp add: DC_LINE_def unat_word_ariths unat_div)
  have e: "unat ?e = unat (fst r) + unat (snd r)"
    using r by (simp add: maint_range_def unat_word_ariths)
  obtain u where u: "displace_loop cfg ?a ?e (dc_store8 ?ns ?k 0 s) = Some u" "t = snd (dc_load8 ?ns ?k u)"
    using run by (auto simp: cache_data_flush_range_def displace_range_def bind_eq_Some_conv Let_def)
  have k: "m_idx ?ns ?k \<noteq> i" using off by (simp add: off_sets_def)
  have "same_set i s (dc_store8 ?ns ?k 0 s)" "same_set i u t"
    using same_set_access [of ?ns "Store ?k 0" i s] same_set_access [of ?ns "Load ?k" i u] k u(2) by simp_all
  moreover have "same_set i (dc_store8 ?ns ?k 0 s) u"
    using off r by (intro displace_loop_same_set [OF ok _ k _ u(1)]) (simp_all add: off_sets_def maint_range_def a e)
  ultimately show ?thesis by (meson same_set_trans)
qed

section \<open>Properties of the driver\<close>

text \<open>
  C5. Flushing a range: the call returns 0; every byte of the range outside the
  driver's own storage is no longer resident, memory then holds what the CPU saw
  there, and no byte outside that storage changes for the CPU.
\<close>

theorem flush_range_correct:
  assumes "cache_cfg_ok cfg" "maint_range addr sz"
  shows "\<exists>s'. cache_data_flush_range cfg addr sz s = Some (RC_OK, s') \<and>
    (\<forall>a. outside_driver cfg a \<and> in_range addr sz a \<longrightarrow> \<not> dc_hit (hw_sets cfg) s' a) \<and>
    (\<forall>a. outside_driver cfg a \<and> in_range addr sz a \<and> in_sync (hw_sets cfg) s a \<longrightarrow>
       dram s' a = cpu_view (hw_sets cfg) s a) \<and>
    (\<forall>a. outside_driver cfg a \<and> in_sync (hw_sets cfg) s a \<longrightarrow>
       cpu_view (hw_sets cfg) s' a = cpu_view (hw_sets cfg) s a)"
proof -
  note d = flush_maint [OF assms(1)] and r = assms(2)
  obtain s' where s': "cache_data_flush_range cfg addr sz s = Some (RC_OK, s')"
    using cache_maint.op_returns [OF d r] by blast
  show ?thesis
    using s' cache_maint.op_miss [OF d r s'] cache_maint.flush [OF d r s']
      cache_maint.op_view [OF d r s'] by blast
qed

theorem flush_range_correct_witness:
  "\<exists>s'. cache_data_flush_range board_cfg 0x00180000 32 (dc_store8 1024 0x00180004 7 cold_cache) =
     Some (RC_OK, s') \<and> dram s' 0x00180004 = 7"
proof -
  let ?s = "dc_store8 1024 0x00180004 7 cold_cache"
  have *: "outside_driver board_cfg 0x00180004" "in_range 0x00180000 32 0x00180004"
    "maint_range 0x00180000 32" "hw_sets board_cfg = 1024"
    by (simp_all add: outside_driver_def in_range_def maint_range_def board_cfg_def)
  have "in_sync 1024 cold_cache 0x00180004" by (simp add: in_sync_def dc_hit_def cold_cache_def)
  then have "in_sync 1024 ?s 0x00180004" "cpu_view 1024 ?s 0x00180004 = 7"
    by (simp_all add: in_sync_store8 view_store8)
  with flush_range_correct [OF board_cfg_ok *(3), of ?s] * show ?thesis by (metis (full_types))
qed

text \<open>
  C15. The two-call protocol of the driver's header: after flushing a DMA
  destination, transferring and invalidating, the CPU reads exactly what the
  device wrote, whatever the cache held before.
\<close>

theorem dma_protocol_correct:
  assumes "cache_cfg_ok cfg" "maint_range addr sz"
  shows "\<exists>s1 s2. cache_data_flush_range cfg addr sz s = Some (RC_OK, s1) \<and>
    cache_data_invd_range cfg addr sz (dma_write f s1) = Some (RC_OK, s2) \<and>
    (\<forall>a v. outside_driver cfg a \<and> in_range addr sz a \<and> f a = Some v \<longrightarrow>
       fst (dc_load8 (hw_sets cfg) a s2) = v)"
proof -
  note d = flush_maint [OF assms(1)] and r = assms(2)
  obtain s1 where s1: "cache_data_flush_range cfg addr sz s = Some (RC_OK, s1)"
    using cache_maint.op_returns [OF d r] by blast
  obtain s2 where s2: "cache_data_invd_range cfg addr sz (dma_write f s1) = Some (RC_OK, s2)"
    using cache_maint.op_returns [OF d r] by (auto simp: invd_is_flush)
  have "cpu_view (hw_sets cfg) s2 a = v"
    if "outside_driver cfg a" "in_range addr sz a" "f a = Some v" for a v
    using cache_maint.protocol(1) [OF d r that(1,2) s1 s2 [unfolded invd_is_flush]] that(3) by blast
  with s1 s2 show ?thesis
    by (auto simp: fst_load8 dcache_geometry.sets_pos [OF cfg_geometry [OF assms(1)]])
qed

theorem dma_protocol_correct_witness:
  "\<exists>s1 s2. cache_data_flush_range board_cfg 0x00180000 4 (dc_store8 1024 0x00180002 7 cold_cache) =
     Some (RC_OK, s1) \<and>
   cache_data_invd_range board_cfg 0x00180000 4 (dma_write (\<lambda>a. if a = 0x00180002 then Some 9 else None) s1) =
     Some (RC_OK, s2) \<and>
   fst (dc_load8 1024 0x00180002 s2) = 9"
proof -
  have *: "outside_driver board_cfg 0x00180002" "in_range 0x00180000 4 0x00180002"
    "maint_range 0x00180000 4" "hw_sets board_cfg = 1024"
    by (simp_all add: outside_driver_def in_range_def maint_range_def board_cfg_def)
  show ?thesis
    using dma_protocol_correct [OF board_cfg_ok *(3), of "dc_store8 1024 0x00180002 7 cold_cache"
        "\<lambda>a. if a = 0x00180002 then Some 9 else None"] * by fastforce
qed

text \<open>
  Without the first call the protocol fails: if a line of the destination
  was dirty when the transfer took place, invalidating writes the CPU's old data
  over the device's, in memory and for the CPU.
\<close>

theorem invd_overwrites_dirty:
  assumes "cache_cfg_ok cfg" "maint_range addr sz"
  shows "\<exists>s'. cache_data_invd_range cfg addr sz (dma_write f s) = Some (RC_OK, s') \<and>
    (\<forall>a. outside_driver cfg a \<and> in_range addr sz a \<and> dc_dirty_at (hw_sets cfg) s a \<longrightarrow>
       dram s' a = cpu_view (hw_sets cfg) s a \<and> cpu_view (hw_sets cfg) s' a = cpu_view (hw_sets cfg) s a)"
proof -
  note d = invd_maint [OF assms(1)] and r = assms(2)
  obtain s' where s': "cache_data_invd_range cfg addr sz (dma_write f s) = Some (RC_OK, s')"
    using cache_maint.op_returns [OF d r] by blast
  then show ?thesis using cache_maint.overwritten [OF d r _ _ _ s'] by blast
qed

theorem invd_overwrites_dirty_witness:
  "\<exists>s'. cache_data_invd_range board_cfg 0x00180000 4
     (dma_write (\<lambda>_. Some 9) (dc_store8 1024 0x00180002 0 cold_cache)) = Some (RC_OK, s') \<and>
   dram s' 0x00180002 = 0"
proof -
  let ?s = "dc_store8 1024 0x00180002 0 cold_cache"
  have *: "outside_driver board_cfg 0x00180002" "in_range 0x00180000 4 0x00180002"
    "maint_range 0x00180000 4" "hw_sets board_cfg = 1024"
    by (simp_all add: outside_driver_def in_range_def maint_range_def board_cfg_def)
  have "dc_dirty_at 1024 ?s 0x00180002" by (simp add: dirty_at_store8)
  moreover have "cpu_view 1024 ?s 0x00180002 = 0"
    by (simp add: view_store8 in_sync_def dc_hit_def cold_cache_def)
  ultimately show ?thesis
    using invd_overwrites_dirty [OF board_cfg_ok *(3), of "\<lambda>_. Some 9" ?s] * by fastforce
qed

text \<open>
  Flushing everything: whatever the cache held, after \<^verbatim>\<open>cache_data_flush_all\<close> no
  byte outside the driver's own storage is resident and memory holds what the CPU
  saw, also on hardware with fewer sets than the driver was configured for.
\<close>

theorem flush_all_correct:
  assumes "cache_cfg_ok cfg" "cache_data_flush_all cfg s = (r, s')"
  shows "r = RC_OK \<and> (\<forall>a. outside_driver cfg a \<longrightarrow> \<not> dc_hit (hw_sets cfg) s' a) \<and>
    (\<forall>a. outside_driver cfg a \<and> in_sync (hw_sets cfg) s a \<longrightarrow>
       dram s' a = cpu_view (hw_sets cfg) s a \<and> cpu_view (hw_sets cfg) s' a = cpu_view (hw_sets cfg) s a)"
  using assms(2) placed_driver.all_flush [OF placed_driver.intro [OF assms(1)]]
  unfolding cache_data_flush_all_def by blast

theorem flush_all_correct_witness:
  "\<not> dc_hit 512 (snd (cache_data_flush_all (board_cfg\<lparr>hw_sets := 512\<rparr>) cold_cache)) 0x00180000"
proof -
  have *: "cache_cfg_ok (board_cfg\<lparr>hw_sets := 512\<rparr>)"
    "outside_driver (board_cfg\<lparr>hw_sets := 512\<rparr>) 0x00180000"
    by (simp_all add: cache_cfg_ok_def outside_driver_def board_cfg_def)
  show ?thesis using flush_all_correct [OF *(1) surjective_pairing, of cold_cache] *(2) by simp
qed

section \<open>Ranges at the end of the address space\<close>

lemma aligned_below_last: "16 dvd unat a \<Longrightarrow> unat a \<le> 4294967280" for a :: u32
  using unat32_less [of a] by (elim dvdE) simp

lemma aligned_next: "16 dvd unat a \<Longrightarrow> 16 dvd unat (a + DC_LINE)"
  by (simp add: DC_LINE_def unat_word_ariths dvd_mod)

lemma displace_loop_endless:
  assumes e: "4294967280 < unat e"
  shows "16 dvd unat a \<Longrightarrow> displace_loop cfg a e s = None"
proof -
  have "16 dvd unat a \<longrightarrow> \<not> 4294967280 < unat e" if "displace_loop cfg a e s = Some r" for a e s r
    using _ that
  proof (rule displace_loop.raw_induct)
    fix loop cfg a e s r
    assume ih: "\<And>cfg a e s r. loop cfg a e s = Some r \<Longrightarrow> 16 dvd unat a \<longrightarrow> \<not> 4294967280 < unat e"
      and body: "(if a < e then let sidx = (a div DC_LINE) AND (DC_SETS - 1)
          in loop cfg (a + DC_LINE) e (displace_step cfg sidx s) else Some s) = Some r"
    show "16 dvd unat a \<longrightarrow> \<not> 4294967280 < unat e"
    proof (cases "a < e")
      case True
      with body ih have "16 dvd unat (a + DC_LINE) \<longrightarrow> \<not> 4294967280 < unat e" by (simp add: Let_def)
      then show ?thesis using aligned_next by blast
    next
      case False
      then show ?thesis using aligned_below_last [of a] by (auto simp: word_less_nat_alt)
    qed
  qed
  with e show "16 dvd unat a \<Longrightarrow> displace_loop cfg a e s = None" by (cases "displace_loop cfg a e s") auto
qed

text \<open>
  The ranges the driver cannot serve: a range that ends in the last line of
  the address space never finishes, because the loop variable wraps before it
  reaches the end, and a range that wraps around is not walked at all.
\<close>

theorem displace_range_edges:
  "(4294967280 < unat addr + unat sz \<and> unat addr + unat sz < 4294967296 \<longrightarrow>
      displace_range cfg addr sz s = None) \<and>
   (4294967296 \<le> unat addr + unat sz \<and> unat sz \<le> 4294967280 \<longrightarrow>
      displace_range cfg addr sz s =
        Some (snd (dc_load8 (hw_sets cfg) (sink_addr cfg) (dc_store8 (hw_sets cfg) (sink_addr cfg) 0 s))))"
proof -
  have a: "unat (addr div DC_LINE * DC_LINE) = unat addr div 16 * 16"
    using unat32_less [of addr] by (simp add: DC_LINE_def unat_word_ariths unat_div)
  have "displace_range cfg addr sz s = None"
    if "4294967280 < unat addr + unat sz" "unat addr + unat sz < 4294967296"
    using that a displace_loop_endless [of "addr + sz" "addr div DC_LINE * DC_LINE"]
    by (simp add: displace_range_def Let_def unat_word_ariths)
  moreover have "\<not> addr div DC_LINE * DC_LINE < addr + sz"
    if "4294967296 \<le> unat addr + unat sz" "unat sz \<le> 4294967280"
  proof -
    have "unat (addr + sz) = unat addr + unat sz - 4294967296"
      using that unat32_less [of addr] unat32_less [of sz] by (simp add: unat_word_ariths mod_if)
    then show ?thesis using that a by (simp add: word_less_nat_alt)
  qed
  ultimately show ?thesis
    by (simp add: displace_range_def Let_def displace_loop.simps)
qed

theorem displace_range_edges_witness:
  "displace_range board_cfg 0xFFFFFFF0 8 cold_cache = None"
  using displace_range_edges [of "0xFFFFFFF0" 8] by simp

end
