(* ===== verification/Kernel.thy ===== *)
theory Kernel
  imports Prelude
begin

text \<open>
  What the sample programs under \<^verbatim>\<open>zephyr/samples\<close> use of the kernel's console, and loops whose body may
  leave the bounds of an array.
\<close>

section \<open>The console\<close>

text \<open>
  The calls of \<^verbatim>\<open>printk\<close> in order, each with its format string and its arguments: \<^verbatim>\<open>%d\<close>, \<^verbatim>\<open>%u\<close>, \<^verbatim>\<open>%s\<close>, and a return
  code printed as a number.
\<close>

datatype karg = KD int | KU u32 | KS string | KC rc

type_synonym klog = "(string \<times> karg list) list"

definition newline :: string where "newline = [CHR 0x0A]"

section \<open>Loops that may fail\<close>

text \<open>\<open>for_opt n body s\<close> is the loop \<^verbatim>\<open>for (i = 0; i < n; i++) body\<close>; it fails when an iteration does.\<close>

primrec for_opt :: "nat \<Rightarrow> (nat \<Rightarrow> 's \<Rightarrow> 's option) \<Rightarrow> 's \<Rightarrow> 's option" where
  "for_opt 0 body s = Some s"
| "for_opt (Suc n) body s = do { s \<leftarrow> for_opt n body s; body n s }"

lemma for_opt_Some:
  "(\<And>i s. i < n \<Longrightarrow> b i s = Some (c i s)) \<Longrightarrow> for_opt n b s = Some (for_up n c s)"
  by (induction n) simp_all

lemma for_opt_induct:
  "P 0 s \<Longrightarrow> (\<And>i t. i < n \<Longrightarrow> P i t \<Longrightarrow> \<exists>t'. b i t = Some t' \<and> P (Suc i) t') \<Longrightarrow> \<exists>t. for_opt n b s = Some t \<and> P n t"
proof (induction n)
  case (Suc n)
  then obtain t where "for_opt n b s = Some t" "P n t" by (meson less_Suc_eq)
  with Suc.prems(2) [of n t] show ?case by auto
qed simp

end
