(* ===== verification/CacheTest.thy ===== *)
theory CacheTest
  imports CacheDriver Kernel
begin

text \<open>
  The cache maintenance test \<^verbatim>\<open>zephyr/samples/cache_test/src/main.c\<close>: it writes a pattern through the cache, flushes, and reads the
  pattern back, then times two ways of flushing. The readings of the cycle counter are a parameter.
\<close>

section \<open>The program\<close>

definition BUF_BYTES :: nat where "BUF_BYTES = 4096"
definition LINE :: nat where "LINE = unat DC_LINE"

record test_env =
  tcfg :: cache_cfg
  buf :: u32
  cycles :: "nat \<Rightarrow> u32"

definition pattern_of :: "nat \<Rightarrow> u8" where
  "pattern_of i = ucast ((word_of_nat i * 31 + 7 :: u32) AND 0xFF)"

definition fill_buf :: "test_env \<Rightarrow> (nat \<Rightarrow> u8) \<Rightarrow> dcsys \<Rightarrow> dcsys" where
  "fill_buf env f = for_up BUF_BYTES (\<lambda>i. dc_store8 (hw_sets (tcfg env)) (unat (buf env) + i) (f i))"

text \<open>One pass of the checking loop, over \<^verbatim>\<open>bad\<close>, the console and memory.\<close>

definition check_step :: "test_env \<Rightarrow> nat \<Rightarrow> nat \<times> klog \<times> dcsys \<Rightarrow> nat \<times> klog \<times> dcsys" where
  "check_step env i = (\<lambda>(bad, log, s).
     (let (v, s) = dc_load8 (hw_sets (tcfg env)) (unat (buf env) + i) s
      in if v \<noteq> pattern_of i then
           (let (log, s) =
              (if bad < 4 then
                 (let (v, s) = dc_load8 (hw_sets (tcfg env)) (unat (buf env) + i) s
                  in (log @ [(''  MISMATCH at %u: got %02x want %02x'' @ newline,
                              [KU (word_of_nat i), KD (uint v), KD (uint (pattern_of i))])], s))
               else (log, s))
            in (bad + 1, log, s))
         else (bad, log, s)))"

definition check_buf :: "test_env \<Rightarrow> klog \<Rightarrow> dcsys \<Rightarrow> nat \<times> klog \<times> dcsys" where
  "check_buf env log s = for_up BUF_BYTES (check_step env) (0, log, s)"

definition banner :: klog where
  "banner =
     [(newline @ ''=== cache maintenance test ==='' @ newline, []),
      (''line size %d, configured d-cache %d bytes'' @ newline, [KD (uint cache_data_line_size_get), KD (uint DC_BYTES)])]"

definition outcome_line :: "nat \<Rightarrow> string \<times> karg list" where
  "outcome_line bad =
     (if bad \<noteq> 0 then (''FAIL: %d bytes corrupted by flush'' @ newline, [KD (int bad)])
      else (''PASS: flush preserved all %d bytes'' @ newline, [KD (int BUF_BYTES)]))"

definition cost_lines :: "u32 \<Rightarrow> u32 \<Rightarrow> klog" where
  "cost_lines t_range t_all =
     [(''flush_range(%d B, %d lines)  %u cycles'' @ newline, [KD (int BUF_BYTES), KD (int (BUF_BYTES div LINE)), KU t_range]),
      (''flush_all  (%d B, %d lines)  %u cycles'' @ newline, [KD (uint DC_BYTES), KD (uint (DC_BYTES div DC_LINE)), KU t_all])] @
     (if t_range \<noteq> 0
      then [(''range is %u.%02ux cheaper'' @ newline, [KU (t_all div t_range), KU ((t_all * 100 div t_range) mod 100)])]
      else [])"

definition cache_test_main :: "test_env \<Rightarrow> dcsys \<Rightarrow> (klog \<times> dcsys) option" where
  "cache_test_main env s = do {
     let s = fill_buf env pattern_of s;
     (rc, s) \<leftarrow> cache_data_flush_range (tcfg env) (buf env) (word_of_nat BUF_BYTES) s;
     if rc \<noteq> RC_OK then Some (banner @ [(''FAIL: flush_range returned %d'' @ newline, [KC rc])], s)
     else do {
       let (bad, log, s) = check_buf env banner s;
       let log = log @ [outcome_line bad];
       let s = fill_buf env (\<lambda>i. pattern_of i XOR 0xFF) s;
       let t0 = cycles env 0;
       (_, s) \<leftarrow> cache_data_flush_range (tcfg env) (buf env) (word_of_nat BUF_BYTES) s;
       let t_range = cycles env 1 - t0;
       let s = fill_buf env pattern_of s;
       let t0 = cycles env 2;
       let (_, s) = cache_data_flush_all (tcfg env) s;
       let t_all = cycles env 3 - t0;
       Some (log @ cost_lines t_range t_all @ [(''=== done ==='' @ newline, [])], s)
     }
   }"

section \<open>What the loops do\<close>

lemma for_up_stores:
  assumes "0 < ns" "in_sync ns s a"
  shows "in_sync ns (for_up n (\<lambda>i. dc_store8 ns (b + i) (f i)) s) a \<and>
    cpu_view ns (for_up n (\<lambda>i. dc_store8 ns (b + i) (f i)) s) a = (if b \<le> a \<and> a < b + n then f (a - b) else cpu_view ns s a)"
  by (induction n) (auto simp: assms in_sync_store8 view_store8)

text \<open>The number of bytes of the buffer that differ from the pattern.\<close>

definition mismatches :: "test_env \<Rightarrow> dcsys \<Rightarrow> nat \<Rightarrow> nat" where
  "mismatches env s n = length (filter (\<lambda>i. cpu_view (hw_sets (tcfg env)) s (unat (buf env) + i) \<noteq> pattern_of i) [0..<n])"

lemma for_up_check:
  assumes "0 < hw_sets (tcfg env)" "\<And>i. i < n \<Longrightarrow> in_sync (hw_sets (tcfg env)) s (unat (buf env) + i)"
  shows "\<exists>log' s'. for_up n (check_step env) (0, log, s) = (mismatches env s n, log @ log', s') \<and>
    length log' = min 4 (mismatches env s n) \<and>
    (\<forall>a. in_sync (hw_sets (tcfg env)) s a \<longrightarrow>
       in_sync (hw_sets (tcfg env)) s' a \<and> cpu_view (hw_sets (tcfg env)) s' a = cpu_view (hw_sets (tcfg env)) s a)"
  using assms(2)
proof (induction n)
  case 0
  show ?case by (simp add: mismatches_def)
next
  case (Suc n)
  let ?ns = "hw_sets (tcfg env)" and ?a = "unat (buf env) + n"
  obtain log' s' where IH: "for_up n (check_step env) (0, log, s) = (mismatches env s n, log @ log', s')"
      "length log' = min 4 (mismatches env s n)"
      "\<forall>a. in_sync ?ns s a \<longrightarrow> in_sync ?ns s' a \<and> cpu_view ?ns s' a = cpu_view ?ns s a"
    using Suc by fastforce
  note r = view_refill [OF assms(1)] in_sync_refill [OF assms(1)]
  have v: "cpu_view ?ns s' ?a = cpu_view ?ns s ?a" using IH(3) Suc.prems [of n] by simp
  have load: "dc_load8 ?ns b t = (cpu_view ?ns t b, dc_refill ?ns b t)" for b t
    using fst_load8 [OF assms(1), of b t] snd_load8 [of ?ns b t] by (metis prod.collapse)
  have v': "cpu_view ?ns (dc_refill ?ns ?a s') ?a = cpu_view ?ns s ?a" using r(1) IH(3) Suc.prems [of n] by simp
  have m: "mismatches env s (Suc n) = mismatches env s n + (if cpu_view ?ns s ?a \<noteq> pattern_of n then 1 else 0)"
    by (simp add: mismatches_def)
  have step: "check_step env n (b, l, s') =
      (if cpu_view ?ns s ?a \<noteq> pattern_of n
       then (b + 1, if b < 4 then l @ [(''  MISMATCH at %u: got %02x want %02x'' @ newline,
           [KU (word_of_nat n), KD (uint (cpu_view ?ns s ?a)), KD (uint (pattern_of n))])] else l,
         if b < 4 then dc_refill ?ns ?a (dc_refill ?ns ?a s') else dc_refill ?ns ?a s')
       else (b, l, dc_refill ?ns ?a s'))" for b l
    by (simp add: check_step_def load v v')
  have "for_up (Suc n) (check_step env) (0, log, s) = check_step env n (mismatches env s n, log @ log', s')"
    using IH(1) by simp
  then show ?case
    unfolding step m using IH(2,3) r by auto
qed

section \<open>The test passes\<close>

text \<open>A buffer the test may use: it is clear of the driver's own storage and of the end of the address space, and nothing but the CPU has
  written behind the cache.\<close>

definition test_ok :: "test_env \<Rightarrow> dcsys \<Rightarrow> bool" where
  "test_ok env s \<longleftrightarrow> cache_cfg_ok (tcfg env) \<and> maint_range (buf env) (word_of_nat BUF_BYTES) \<and>
     (\<forall>i < BUF_BYTES. outside_driver (tcfg env) (unat (buf env) + i) \<and> in_sync (hw_sets (tcfg env)) s (unat (buf env) + i))"

lemma fill_buf_view:
  assumes "0 < hw_sets (tcfg env)" "in_sync (hw_sets (tcfg env)) s (unat (buf env) + i)" "i < BUF_BYTES"
  shows "in_sync (hw_sets (tcfg env)) (fill_buf env f s) (unat (buf env) + i)"
    "cpu_view (hw_sets (tcfg env)) (fill_buf env f s) (unat (buf env) + i) = f i"
  unfolding fill_buf_def using for_up_stores [OF assms(1,2), of BUF_BYTES "unat (buf env)" f] assms(3) by simp_all

lemma flushed_buf:
  assumes ok: "cache_cfg_ok (tcfg env)" "maint_range (buf env) (word_of_nat BUF_BYTES)"
    and buf: "\<And>i. i < BUF_BYTES \<Longrightarrow> outside_driver (tcfg env) (unat (buf env) + i) \<and> in_sync (hw_sets (tcfg env)) s (unat (buf env) + i)"
  shows "\<exists>s'. cache_data_flush_range (tcfg env) (buf env) (word_of_nat BUF_BYTES) s = Some (RC_OK, s') \<and>
    (\<forall>i < BUF_BYTES. cpu_view (hw_sets (tcfg env)) s' (unat (buf env) + i) = cpu_view (hw_sets (tcfg env)) s (unat (buf env) + i) \<and>
       in_sync (hw_sets (tcfg env)) s' (unat (buf env) + i))"
proof -
  note d = flush_maint [OF ok(1)]
  obtain s' where s': "cache_data_flush_range (tcfg env) (buf env) (word_of_nat BUF_BYTES) s = Some (RC_OK, s')"
    using cache_maint.op_returns [OF d ok(2)] by blast
  from cache_maint.op_view [OF d ok(2) s'] buf s' show ?thesis by blast
qed

text \<open>
  C38. The cache test: wherever its buffer is placed, whatever is in the cache before, and whatever the cycle counter reads, the program
  runs to its end, its check reports that the flush preserved all bytes and prints no mismatch, and afterwards
  memory itself holds the pattern in the whole buffer.
\<close>

theorem cache_test_passes:
  assumes "test_ok env s"
  shows "\<exists>s'. cache_test_main env s = Some (banner @ [(''PASS: flush preserved all %d bytes'' @ newline, [KD 4096])] @
      cost_lines (cycles env 1 - cycles env 0) (cycles env 3 - cycles env 2) @ [(''=== done ==='' @ newline, [])], s') \<and>
    (\<forall>i < 4096. dram s' (unat (buf env) + i) = pattern_of i)"
proof -
  let ?ns = "hw_sets (tcfg env)" and ?a = "\<lambda>i. unat (buf env) + i"
  have ok: "cache_cfg_ok (tcfg env)" "maint_range (buf env) (word_of_nat BUF_BYTES)"
    and out: "\<And>i. i < BUF_BYTES \<Longrightarrow> outside_driver (tcfg env) (?a i)"
    and sync: "\<And>i. i < BUF_BYTES \<Longrightarrow> in_sync ?ns s (?a i)"
    using assms by (auto simp: test_ok_def)
  have ns: "0 < ?ns" using cfg_geometry [OF ok(1)] by (simp add: dcache_geometry_def)
  note fill = fill_buf_view [OF ns]
  let ?s1 = "fill_buf env pattern_of s"
  obtain s2 where s2: "cache_data_flush_range (tcfg env) (buf env) (word_of_nat BUF_BYTES) ?s1 = Some (RC_OK, s2)"
      "\<forall>i < BUF_BYTES. cpu_view ?ns s2 (?a i) = cpu_view ?ns ?s1 (?a i) \<and> in_sync ?ns s2 (?a i)"
    using flushed_buf [OF ok, of ?s1] out fill(1) [OF sync] by blast
  have "cpu_view ?ns s2 (?a i) = pattern_of i" if "i < BUF_BYTES" for i using s2(2) fill(2) [OF sync] that by simp
  then have none: "mismatches env s2 BUF_BYTES = 0" by (simp add: mismatches_def)
  obtain s3 where s3: "check_buf env banner s2 = (0, banner, s3)" "\<And>i. i < BUF_BYTES \<Longrightarrow> in_sync ?ns s3 (?a i)"
    using for_up_check [OF ns, of BUF_BYTES s2 banner] s2(2) none by (auto simp: check_buf_def)
  let ?s4 = "fill_buf env (\<lambda>i. pattern_of i XOR 0xFF) s3"
  obtain s5 where s5: "cache_data_flush_range (tcfg env) (buf env) (word_of_nat BUF_BYTES) ?s4 = Some (RC_OK, s5)"
      "\<forall>i < BUF_BYTES. cpu_view ?ns s5 (?a i) = cpu_view ?ns ?s4 (?a i) \<and> in_sync ?ns s5 (?a i)"
    using flushed_buf [OF ok, of ?s4] out fill(1) [OF s3(2)] by blast
  let ?s6 = "fill_buf env pattern_of s5" and ?s7 = "displace_all (tcfg env) (fill_buf env pattern_of s5)"
  have "dram ?s7 (?a i) = pattern_of i" if "i < 4096" for i
    using placed_driver.all_flush(2) [OF placed_driver.intro [OF ok(1)], of "?a i" ?s6] out fill [of s5 i pattern_of] s5(2) that
    by (simp add: BUF_BYTES_def)
  moreover have "cache_test_main env s = Some (banner @ [(''PASS: flush preserved all %d bytes'' @ newline, [KD 4096])] @
      cost_lines (cycles env 1 - cycles env 0) (cycles env 3 - cycles env 2) @ [(''=== done ==='' @ newline, [])], ?s7)"
    using s2(1) s3(1) s5(1) by (simp add: cache_test_main_def Let_def outcome_line_def cache_data_flush_all_def BUF_BYTES_def)
  ultimately show ?thesis by blast
qed

theorem cache_test_passes_witness:
  "\<exists>s'. cache_test_main \<lparr>tcfg = board_cfg, buf = 0x00180000, cycles = (\<lambda>k. [100, 2100, 5000, 13000] ! k)\<rparr> cold_cache =
     Some (banner @ [(''PASS: flush preserved all %d bytes'' @ newline, [KD 4096])] @ cost_lines 2000 8000 @
       [(''=== done ==='' @ newline, [])], s')"
proof -
  let ?e = "\<lparr>tcfg = board_cfg, buf = 0x00180000, cycles = (\<lambda>k. [100, 2100, 5000, 13000] ! k)\<rparr>"
  have "test_ok ?e cold_cache"
    using board_cfg_ok by (auto simp: test_ok_def BUF_BYTES_def maint_range_def outside_driver_def board_cfg_def in_sync_def dc_hit_def cold_cache_def)
  from cache_test_passes [OF this] show ?thesis by (simp del: append.simps) blast
qed

text \<open>
  The check itself: it counts exactly the bytes the CPU reads differently, and prints the first four of them.
\<close>

theorem check_buf_counts:
  assumes "0 < hw_sets (tcfg env)" "\<And>i. i < BUF_BYTES \<Longrightarrow> in_sync (hw_sets (tcfg env)) s (unat (buf env) + i)"
  shows "\<exists>log' s'. check_buf env log s = (mismatches env s BUF_BYTES, log @ log', s') \<and> length log' = min 4 (mismatches env s BUF_BYTES)"
  using for_up_check [OF assms(1), of BUF_BYTES s log] assms(2) unfolding check_buf_def by blast

end
