(* ===== verification/Gemm.thy ===== *)
theory Gemm
  imports CacheDriver
begin

text \<open>
  The driver of the matrix accelerator, \<^verbatim>\<open>zephyr/drivers/misc/gemm_rv32_5stage.c\<close> with its
  interface \<^verbatim>\<open>zephyr/include/rv32_5stage/gemm.h\<close>, on top of the cache driver. The
  accelerator's control registers (descriptor staging, queue, start, reset, status)
  follow \<^verbatim>\<open>chisel/src/MmAccel.scala\<close>; what a batch computes is a parameter, the function
  from the descriptors and the contents of memory to the bytes the result DMA writes.
  The other parameters are the successive readings of the kernel's cycle counter and, for each batch, a schedule of what happens
  while the driver waits for it: accesses of other threads to memory, operand reads and result writes of the accelerator's DMA engines, and the completion
  interrupt, in any order and number. The kernel's semaphore is its counter, with
  limit 1, its mutex a flag; a call that would wait forever is the value \<^const>\<open>None\<close>.
\<close>

section \<open>Data\<close>

record gemm_info =
  dim :: u8
  max_k :: u8
  panels :: u8

record gemm_tile =
  a_src :: u32
  b_src :: u32
  dest :: u32
  k_len :: u16
  panel_use :: u8
  panel_load :: u8
  b_only :: bool
  src_coherent :: bool

record gemm_stats =
  batches :: u32
  wait_cycles :: u32
  flush_cycles :: u32
  submit_cycles :: u32
  already_done :: u32
  isr_cycles :: u32
  resume_cycles :: u32
  isr_seen :: u32

text \<open>The local line of an interrupt number, for the numbers of level bits of the build.\<close>

definition GEMM_IRQ_FROM_L2 :: "nat \<Rightarrow> nat \<Rightarrow> u32 \<Rightarrow> u32" where
  "GEMM_IRQ_FROM_L2 b1 b2 irq = from_l2 b1 b2 irq"

text \<open>A descriptor of the accelerator's queue: \<^verbatim>\<open>aSrc\<close>, \<^verbatim>\<open>bSrc\<close>, \<^verbatim>\<open>dest\<close>, \<^verbatim>\<open>ctl\<close>.\<close>

type_synonym descriptor = "u32 \<times> u32 \<times> u32 \<times> u32"

record accel_regs =
  descA :: u32
  descB :: u32
  descD :: u32
  destStride :: u32
  outCtrl :: u32
  descQ :: "descriptor list"
  qBusy :: bool
  qDone :: bool
  qOverflow :: bool

record gemm_data =
  done_count :: nat
  locked :: bool
  info :: gemm_info
  stats :: gemm_stats
  poll_mode :: bool
  t_isr :: u32
  isr_fired :: bool

record gemm_sys =
  data :: gemm_data
  acc :: accel_regs
  mem :: dcsys
  clock :: nat
  irq_unmasked :: bool
  fetched :: "nat \<Rightarrow> u8"
  drained :: "nat \<Rightarrow> (nat \<Rightarrow> u8) option"

text \<open>
  \<open>fetched\<close> is what the operand DMA has read of the running batch, \<open>drained\<close> gives for every byte the result DMA is through with the operands
  its result was computed from. An event of a wait is an access of another thread, a read of the bytes \<open>P\<close> by the operand DMA (again, when it had read them before),
  the writing of the results at the bytes \<open>P\<close>, or the end of the batch with its interrupt. The schedule of a wait says what happens
  between the start of the queue and the first look at the semaphore, and then between two looks at the status register or, for a
  sleeping thread, in each millisecond.
\<close>

datatype event = Cpu access | Fetch "nat \<Rightarrow> bool" | Drain "nat \<Rightarrow> bool" | is_Irq: Irq

record wait =
  before_look :: "event list"
  during :: "nat \<Rightarrow> event list"

datatype k_timeout = K_MSEC nat | K_FOREVER

record gemm_env =
  cfg :: cache_cfg
  ticks :: "nat \<Rightarrow> u32"
  info_reg :: u32
  results :: "descriptor list \<Rightarrow> u32 \<Rightarrow> u32 \<Rightarrow> (nat \<Rightarrow> u8) \<Rightarrow> nat \<Rightarrow> u8 option"

section \<open>Registers of the accelerator\<close>

definition REG_CTRL :: u32 where "REG_CTRL = 0x00"
definition REG_STATUS :: u32 where "REG_STATUS = 0x04"
definition REG_INFO :: u32 where "REG_INFO = 0x24"
definition REG_DEST_STRIDE :: u32 where "REG_DEST_STRIDE = 0x2C"
definition REG_DESC_A_SRC :: u32 where "REG_DESC_A_SRC = 0x44"
definition REG_DESC_B_SRC :: u32 where "REG_DESC_B_SRC = 0x48"
definition REG_DESC_DEST :: u32 where "REG_DESC_DEST = 0x4C"
definition REG_DESC_PUSH :: u32 where "REG_DESC_PUSH = 0x50"
definition REG_QUEUE_FREE :: u32 where "REG_QUEUE_FREE = 0x54"
definition REG_OUT_CTRL :: u32 where "REG_OUT_CTRL = 0x58"

definition CTRL_SOFT_RST :: u32 where "CTRL_SOFT_RST = 0x2"
definition CTRL_START_QUEUE :: u32 where "CTRL_START_QUEUE = 0x20"
definition ST_QUEUE_DONE :: u32 where "ST_QUEUE_DONE = 0x80"
definition OUT_INT8 :: u32 where "OUT_INT8 = 0x100"
definition DESC_BONLY :: u32 where "DESC_BONLY = 0x10000"

lemmas reg_defs = REG_CTRL_def REG_STATUS_def REG_INFO_def REG_DEST_STRIDE_def REG_DESC_A_SRC_def
  REG_DESC_B_SRC_def REG_DESC_DEST_def REG_DESC_PUSH_def REG_QUEUE_FREE_def REG_OUT_CTRL_def

text \<open>
  A write and a read of the register window; the queue holds eight descriptors and a
  push into a full queue is dropped.
\<close>

definition acc_write :: "u32 \<Rightarrow> u32 \<Rightarrow> accel_regs \<Rightarrow> accel_regs" where
  "acc_write off v r =
     (if off = REG_CTRL then
        (let r = (if bit v 5 \<and> \<not> qBusy r then r\<lparr>qBusy := True, qDone := False, qOverflow := False\<rparr> else r)
         in if bit v 1 then r\<lparr>qBusy := False, qDone := False, qOverflow := False, descQ := []\<rparr> else r)
      else if off = REG_DEST_STRIDE then r\<lparr>destStride := v\<rparr>
      else if off = REG_OUT_CTRL then r\<lparr>outCtrl := v\<rparr>
      else if off = REG_DESC_A_SRC then r\<lparr>descA := v\<rparr>
      else if off = REG_DESC_B_SRC then r\<lparr>descB := v\<rparr>
      else if off = REG_DESC_DEST then r\<lparr>descD := v\<rparr>
      else if off = REG_DESC_PUSH then
        (if length (descQ r) < 8 then r\<lparr>descQ := descQ r @ [(descA r, descB r, descD r, v)]\<rparr>
         else r\<lparr>qOverflow := True\<rparr>)
      else r)"

definition acc_read :: "gemm_env \<Rightarrow> u32 \<Rightarrow> accel_regs \<Rightarrow> u32" where
  "acc_read env off r =
     (if off = REG_STATUS then (if qOverflow r then 0x100 else 0) OR (if qDone r then 0x80 else 0) OR
        (if qBusy r then 0x40 else 0)
      else if off = REG_QUEUE_FREE then 8 - word_of_nat (length (descQ r))
      else if off = REG_INFO then info_reg env
      else 0)"

text \<open>
  The result DMA writes memory behind the cache; at the end of a batch all results are written and \<^verbatim>\<open>qDone\<close> is set.
\<close>

definition acc_drain :: "gemm_env \<Rightarrow> (nat \<Rightarrow> bool) \<Rightarrow> gemm_sys \<Rightarrow> gemm_sys" where
  "acc_drain env P s =
     (let out = results env (descQ (acc s)) (destStride (acc s)) (outCtrl (acc s)) (fetched s);
          now = (\<lambda>a. P a \<and> drained s a = None)
      in s\<lparr>mem := dma_write (\<lambda>a. if now a then out a else None) (mem s),
           drained := (\<lambda>a. if now a then Some (fetched s) else drained s a)\<rparr>)"

definition acc_finish :: "gemm_env \<Rightarrow> gemm_sys \<Rightarrow> gemm_sys" where
  "acc_finish env s =
     (let s = acc_drain env (\<lambda>_. True) s in s\<lparr>acc := (acc s)\<lparr>descQ := [], qBusy := False, qDone := True\<rparr>\<rparr>)"

section \<open>The driver\<close>

definition rd :: "gemm_env \<Rightarrow> u32 \<Rightarrow> gemm_sys \<Rightarrow> u32" where
  "rd env off s = acc_read env off (acc s)"

definition wr :: "u32 \<Rightarrow> u32 \<Rightarrow> gemm_sys \<Rightarrow> gemm_sys" where
  "wr off v s =
     (let r = acc_write off v (acc s)
      in if qBusy r \<and> \<not> qBusy (acc s) then s\<lparr>acc := r, fetched := dram (mem s), drained := (\<lambda>_. None)\<rparr> else s\<lparr>acc := r\<rparr>)"

definition k_cycle_get_32 :: "gemm_env \<Rightarrow> gemm_sys \<Rightarrow> u32 \<times> gemm_sys" where
  "k_cycle_get_32 env s = (ticks env (clock s), s\<lparr>clock := Suc (clock s)\<rparr>)"

definition gemm_isr :: "gemm_env \<Rightarrow> gemm_sys \<Rightarrow> gemm_sys" where
  "gemm_isr env s =
     (let (t, s) = k_cycle_get_32 env s
      in s\<lparr>data := (data s)\<lparr>t_isr := t, isr_fired := True, done_count := 1\<rparr>\<rparr>)"

definition gemm_get_info :: "gemm_sys \<Rightarrow> gemm_info" where
  "gemm_get_info s = info (data s)"

text \<open>\<^verbatim>\<open>sys_cache_data_flush_range\<close> and \<^verbatim>\<open>sys_cache_data_invd_range\<close>; the driver ignores their codes.\<close>

definition flush :: "gemm_env \<Rightarrow> u32 \<Rightarrow> u32 \<Rightarrow> gemm_sys \<Rightarrow> gemm_sys option" where
  "flush env addr sz s = do { (_, m) \<leftarrow> cache_data_flush_range (cfg env) addr sz (mem s); Some (s\<lparr>mem := m\<rparr>) }"

definition invd :: "gemm_env \<Rightarrow> u32 \<Rightarrow> u32 \<Rightarrow> gemm_sys \<Rightarrow> gemm_sys option" where
  "invd env addr sz s = do { (_, m) \<leftarrow> cache_data_invd_range (cfg env) addr sz (mem s); Some (s\<lparr>mem := m\<rparr>) }"

definition operand_bytes :: "gemm_sys \<Rightarrow> gemm_tile \<Rightarrow> u32" where
  "operand_bytes s t = ucast (dim (info (data s))) * ucast (k_len t)"

fun flush_tiles :: "gemm_env \<Rightarrow> gemm_tile list \<Rightarrow> gemm_sys \<Rightarrow> gemm_sys option" where
  "flush_tiles env [] s = Some s"
| "flush_tiles env (t # ts) s = do {
     let bytes = operand_bytes s t;
     s \<leftarrow> (if a_src t \<noteq> 0 then flush env (a_src t) bytes s else Some s);
     s \<leftarrow> (if b_src t \<noteq> 0 then flush env (b_src t) bytes s else Some s);
     flush_tiles env ts s
   }"

definition gemm_flush_operands :: "gemm_env \<Rightarrow> gemm_tile list \<Rightarrow> gemm_sys \<Rightarrow> (rc \<times> gemm_sys) option" where
  "gemm_flush_operands env tiles s =
     (if tiles = [] then Some (RC_ERR EINVAL, s)
      else do { s \<leftarrow> flush_tiles env tiles s; Some (RC_OK, s) })"

definition k_mutex_lock :: "gemm_sys \<Rightarrow> gemm_sys option" where
  "k_mutex_lock s = (if locked (data s) then None else Some (s\<lparr>data := (data s)\<lparr>locked := True\<rparr>\<rparr>))"

definition k_mutex_unlock :: "gemm_sys \<Rightarrow> gemm_sys" where
  "k_mutex_unlock s = s\<lparr>data := (data s)\<lparr>locked := False\<rparr>\<rparr>"

definition gemm_set_poll_mode :: "bool \<Rightarrow> gemm_sys \<Rightarrow> gemm_sys option" where
  "gemm_set_poll_mode poll s = do {
     s \<leftarrow> k_mutex_lock s;
     Some (k_mutex_unlock (s\<lparr>data := (data s)\<lparr>poll_mode := poll\<rparr>\<rparr>))
   }"

definition gemm_get_stats :: "gemm_sys \<Rightarrow> gemm_stats" where
  "gemm_get_stats s = stats (data s)"

definition zero_stats :: gemm_stats where
  "zero_stats = \<lparr>batches = 0, wait_cycles = 0, flush_cycles = 0, submit_cycles = 0, already_done = 0,
     isr_cycles = 0, resume_cycles = 0, isr_seen = 0\<rparr>"

definition gemm_reset_stats :: "gemm_sys \<Rightarrow> gemm_sys" where
  "gemm_reset_stats s = s\<lparr>data := (data s)\<lparr>stats := zero_stats\<rparr>\<rparr>"

abbreviation map_stats :: "(gemm_stats \<Rightarrow> gemm_stats) \<Rightarrow> gemm_sys \<Rightarrow> gemm_sys" where
  "map_stats f s \<equiv> s\<lparr>data := (data s)\<lparr>stats := f (stats (data s))\<rparr>\<rparr>"

text \<open>The word written to \<^verbatim>\<open>DESC_PUSH\<close>.\<close>

definition desc_ctl :: "gemm_tile \<Rightarrow> u32" where
  "desc_ctl t = (if b_only t then DESC_BONLY else 0) OR push_bit 12 (ucast (panel_load t AND 0xF)) OR
     push_bit 8 (ucast (panel_use t AND 0xF)) OR ucast (k_len t AND 0xFF)"

definition push_tile :: "gemm_tile \<Rightarrow> gemm_sys \<Rightarrow> gemm_sys" where
  "push_tile t s = wr REG_DESC_PUSH (desc_ctl t) (wr REG_DESC_DEST (dest t)
     (wr REG_DESC_B_SRC (b_src t) (wr REG_DESC_A_SRC (a_src t) s)))"

text \<open>The submission loop; the accumulator is \<^verbatim>\<open>flush_in_submit\<close>.\<close>

fun submit_tiles :: "gemm_env \<Rightarrow> gemm_tile list \<Rightarrow> u32 \<Rightarrow> gemm_sys \<Rightarrow> (u32 \<times> gemm_sys) option" where
  "submit_tiles env [] fl s = Some (fl, s)"
| "submit_tiles env (t # ts) fl s = do {
     let bytes = operand_bytes s t;
     let (t_flush, s) = k_cycle_get_32 env s;
     s \<leftarrow> (if src_coherent t then Some s
           else if \<not> b_only t \<and> a_src t \<noteq> 0 then flush env (a_src t) bytes s
           else Some s);
     s \<leftarrow> (if b_src t \<noteq> 0 then flush env (b_src t) bytes s else Some s);
     let (now, s) = k_cycle_get_32 env s;
     submit_tiles env ts (fl + (now - t_flush)) (push_tile t s)
   }"

text \<open>
  Completion arrives as an interrupt: the batch is finished and the handler runs.
\<close>

definition complete :: "gemm_env \<Rightarrow> gemm_sys \<Rightarrow> gemm_sys" where
  "complete env s = gemm_isr env (acc_finish env s)"

definition hw_event :: "gemm_env \<Rightarrow> event \<Rightarrow> gemm_sys \<Rightarrow> gemm_sys" where
  "hw_event env e s =
     (case e of
        Cpu x \<Rightarrow> s\<lparr>mem := dc_access (hw_sets (cfg env)) x (mem s)\<rparr>
      | Fetch P \<Rightarrow> if qBusy (acc s) then s\<lparr>fetched := (\<lambda>a. if P a then dram (mem s) a else fetched s a)\<rparr> else s
      | Drain P \<Rightarrow> if qBusy (acc s) then acc_drain env P s else s
      | Irq \<Rightarrow> if qBusy (acc s) then complete env s else s)"

abbreviation run_events :: "gemm_env \<Rightarrow> event list \<Rightarrow> gemm_sys \<Rightarrow> gemm_sys" where
  "run_events env es \<equiv> fold (hw_event env) es"

partial_function (option) poll_loop :: "gemm_env \<Rightarrow> (nat \<Rightarrow> event list) \<Rightarrow> nat \<Rightarrow> gemm_sys \<Rightarrow> gemm_sys option" where
  "poll_loop env d k s =
     (if rd env REG_STATUS s AND ST_QUEUE_DONE \<noteq> 0 then Some s
      else poll_loop env d (Suc k) (run_events env (d k) s))"

text \<open>\<^verbatim>\<open>k_sem_take\<close>: the semaphore at once or when the handler has given it, or the timeout after its milliseconds; whether it got the semaphore.\<close>

partial_function (option) sem_take ::
    "gemm_env \<Rightarrow> (nat \<Rightarrow> event list) \<Rightarrow> k_timeout \<Rightarrow> nat \<Rightarrow> gemm_sys \<Rightarrow> (bool \<times> gemm_sys) option" where
  "sem_take env d timeout k s =
     (if 0 < done_count (data s) then Some (True, s\<lparr>data := (data s)\<lparr>done_count := done_count (data s) - 1\<rparr>\<rparr>)
      else if timeout = K_MSEC k then Some (False, s)
      else sem_take env d timeout (Suc k) (run_events env (d k) s))"

fun invd_tiles :: "gemm_env \<Rightarrow> gemm_tile list \<Rightarrow> u32 \<Rightarrow> gemm_sys \<Rightarrow> gemm_sys option" where
  "invd_tiles env [] bytes s = Some s"
| "invd_tiles env (t # ts) bytes s = do {
     s \<leftarrow> (if dest t \<noteq> 0 then invd env (dest t) bytes s else Some s);
     invd_tiles env ts bytes s
   }"

definition tile_bytes :: "gemm_sys \<Rightarrow> bool \<Rightarrow> u32" where
  "tile_bytes s out_int8 =
     (let d = ucast (dim (info (data s))) in if out_int8 then d * d else d * d * 4)"

text \<open>The part of \<^verbatim>\<open>gemm_run_batch\<close> before the wait: registers, descriptors, kick. It returns \<^verbatim>\<open>t_kick\<close>.\<close>

definition start_batch ::
    "gemm_env \<Rightarrow> wait \<Rightarrow> gemm_tile list \<Rightarrow> u32 \<Rightarrow> bool \<Rightarrow> u8 \<Rightarrow> gemm_sys \<Rightarrow> (u32 \<times> gemm_sys) option" where
  "start_batch env w tiles dest_stride out_int8 out_shift s = do {
     let (t_mark, s) = k_cycle_get_32 env s;
     let s = wr REG_DEST_STRIDE dest_stride s;
     let s = wr REG_OUT_CTRL (if out_int8 then OUT_INT8 OR ucast (out_shift AND 0x1F) else 0) s;
     (fl, s) \<leftarrow> submit_tiles env tiles 0 s;
     let (now, s) = k_cycle_get_32 env s;
     let s = map_stats (\<lambda>st. st\<lparr>submit_cycles := submit_cycles st + ((now - t_mark) - fl)\<rparr>) s;
     let s = map_stats (\<lambda>st. st\<lparr>flush_cycles := flush_cycles st + fl\<rparr>) s;
     let s = s\<lparr>data := (data s)\<lparr>done_count := 0, isr_fired := False\<rparr>\<rparr>;
     let s = wr REG_CTRL CTRL_START_QUEUE s;
     let (t_kick, s) = k_cycle_get_32 env s;
     let s = run_events env (before_look w) s;
     Some (t_kick, if 0 < done_count (data s)
                   then map_stats (\<lambda>st. st\<lparr>already_done := already_done st + 1\<rparr>) s else s)
   }"

text \<open>The part after a successful wait that began at \<^verbatim>\<open>t_mark\<close>.\<close>

definition finish_batch ::
    "gemm_env \<Rightarrow> gemm_tile list \<Rightarrow> bool \<Rightarrow> u32 \<Rightarrow> u32 \<Rightarrow> gemm_sys \<Rightarrow> gemm_sys option" where
  "finish_batch env tiles out_int8 t_kick t_mark s = do {
     let (t_resume, s) = k_cycle_get_32 env s;
     let s = map_stats (\<lambda>st. st\<lparr>wait_cycles := wait_cycles st + (t_resume - t_mark), batches := batches st + 1\<rparr>) s;
     let s = (if isr_fired (data s)
              then map_stats (\<lambda>st. st\<lparr>isr_cycles := isr_cycles st + (t_isr (data s) - t_kick),
                     resume_cycles := resume_cycles st + (t_resume - t_isr (data s)),
                     isr_seen := isr_seen st + 1\<rparr>) s
              else s);
     let (t_mark, s) = k_cycle_get_32 env s;
     s \<leftarrow> invd_tiles env tiles (tile_bytes s out_int8) s;
     let (now, s) = k_cycle_get_32 env s;
     Some (map_stats (\<lambda>st. st\<lparr>flush_cycles := flush_cycles st + (now - t_mark)\<rparr>) s)
   }"

definition gemm_run_batch ::
    "gemm_env \<Rightarrow> wait \<Rightarrow> gemm_tile list \<Rightarrow> u32 \<Rightarrow> bool \<Rightarrow> u8 \<Rightarrow> k_timeout \<Rightarrow> gemm_sys \<Rightarrow> (rc \<times> gemm_sys) option" where
  "gemm_run_batch env w tiles dest_stride out_int8 out_shift timeout s =
     (if tiles = [] then Some (RC_ERR EINVAL, s)
      else if unat (rd env REG_QUEUE_FREE s) < length tiles then Some (RC_ERR EBUSY, s)
      else if out_int8 \<and> dest_stride \<noteq> 0 then Some (RC_ERR EINVAL, s)
      else do {
        s \<leftarrow> k_mutex_lock s;
        (t_kick, s) \<leftarrow> start_batch env w tiles dest_stride out_int8 out_shift s;
        let (t_mark, s) = k_cycle_get_32 env s;
        if poll_mode (data s) then do {
          s \<leftarrow> poll_loop env (during w) 0 s;
          s \<leftarrow> finish_batch env tiles out_int8 t_kick t_mark s;
          Some (RC_OK, k_mutex_unlock s)
        } else do {
          (taken, s) \<leftarrow> sem_take env (during w) timeout 0 s;
          if \<not> taken then do {
            let (now, s) = k_cycle_get_32 env s;
            let s = map_stats (\<lambda>st. st\<lparr>wait_cycles := wait_cycles st + (now - t_mark)\<rparr>) s;
            let s = wr REG_CTRL CTRL_SOFT_RST s;
            Some (RC_ERR ETIMEDOUT, k_mutex_unlock s)
          } else do {
            s \<leftarrow> finish_batch env tiles out_int8 t_kick t_mark s;
            Some (RC_OK, k_mutex_unlock s)
          }
        }
      })"

definition gemm_init :: "gemm_env \<Rightarrow> gemm_sys \<Rightarrow> rc \<times> gemm_sys" where
  "gemm_init env s =
     (let s = s\<lparr>data := (data s)\<lparr>done_count := 0, locked := False\<rparr>\<rparr>;
          i = rd env REG_INFO s;
          s = s\<lparr>data := (data s)\<lparr>info := \<lparr>dim = ucast (i AND 0xFF), max_k = ucast (drop_bit 8 i AND 0xFF),
                panels = ucast (drop_bit 16 i AND 0xFF)\<rparr>\<rparr>\<rparr>
      in (RC_OK, s\<lparr>irq_unmasked := True\<rparr>))"

section \<open>Sequences of maintenance operations\<close>

fun run_ops :: "(u32 \<Rightarrow> u32 \<Rightarrow> 's \<Rightarrow> (rc \<times> 's) option) \<Rightarrow> (u32 \<times> u32) list \<Rightarrow> 's \<Rightarrow> 's option" where
  "run_ops f [] s = Some s"
| "run_ops f (r # rs) s = do { (_, s) \<leftarrow> f (fst r) (snd r) s; run_ops f rs s }"

lemma run_ops_append: "run_ops f (rs @ ss) s = run_ops f rs s \<bind> run_ops f ss"
  by (induction rs arbitrary: s) (auto split: bind_splits)

definition covered :: "(u32 \<times> u32) list \<Rightarrow> nat \<Rightarrow> bool" where
  "covered rs a \<longleftrightarrow> (\<exists>r \<in> set rs. in_range (fst r) (snd r) a)"

definition ranges_ok :: "(u32 \<times> u32) list \<Rightarrow> bool" where
  "ranges_ok rs \<longleftrightarrow> (\<forall>r \<in> set rs. maint_range (fst r) (snd r))"

context cache_maint
begin

text \<open>What one operation guarantees, a sequence of them guarantees for all its ranges.\<close>

lemma run_ops_spec:
  "ranges_ok rs \<Longrightarrow> \<exists>s'. run_ops op rs s = Some s' \<and>
     (\<forall>a. free a \<and> synced s a \<longrightarrow> view s' a = view s a \<and> synced s' a) \<and>
     (\<forall>a. free a \<and> \<not> dirty s a \<longrightarrow> \<not> dirty s' a \<and> mem s' a = mem s a) \<and>
     (\<forall>a. free a \<and> (\<not> hit s a \<or> covered rs a) \<longrightarrow> \<not> hit s' a)"
proof (induction rs arbitrary: s)
  case Nil
  then show ?case by (simp add: covered_def)
next
  case (Cons r rs)
  then have r: "maint_range (fst r) (snd r)" and rs: "ranges_ok rs" by (auto simp: ranges_ok_def)
  obtain s1 where s1: "op (fst r) (snd r) s = Some (RC_OK, s1)" using op_returns [OF r] by blast
  obtain s' where s': "run_ops op rs s1 = Some s'"
      "\<forall>a. free a \<and> synced s1 a \<longrightarrow> view s' a = view s1 a \<and> synced s' a"
      "\<forall>a. free a \<and> \<not> dirty s1 a \<longrightarrow> \<not> dirty s' a \<and> mem s' a = mem s1 a"
      "\<forall>a. free a \<and> (\<not> hit s1 a \<or> covered rs a) \<longrightarrow> \<not> hit s' a"
    using Cons.IH [OF rs] by blast
  have "run_ops op (r # rs) s = Some s'" using s1 s'(1) by simp
  moreover have "\<forall>a. free a \<and> synced s a \<longrightarrow> view s' a = view s a \<and> synced s' a"
    using op_view [OF r s1] s'(2) by metis
  moreover have "\<forall>a. free a \<and> \<not> dirty s a \<longrightarrow> \<not> dirty s' a \<and> mem s' a = mem s a"
    using op_clean [OF r s1] s'(3) by metis
  moreover have "\<forall>a. free a \<and> (\<not> hit s a \<or> covered (r # rs) a) \<longrightarrow> \<not> hit s' a"
    using op_miss [OF r s1] s'(4) unfolding covered_def by (metis set_ConsD)
  ultimately show ?case by blast
qed

lemma run_ops_flush:
  assumes "ranges_ok rs" "run_ops op rs s = Some s'" "free a" "covered rs a" "synced s a"
  shows "mem s' a = view s a"
  using run_ops_spec [OF assms(1), of s] assms miss_view by (metis option.inject)

lemma run_ops_clean:
  assumes "ranges_ok rs" "run_ops op rs s = Some s'" "free a" "\<not> dirty s a"
  shows "\<not> dirty s' a \<and> mem s' a = mem s a"
  using run_ops_spec [OF assms(1), of s] assms by (metis option.inject)

lemma run_ops_view:
  assumes "ranges_ok rs" "run_ops op rs s = Some s'" "free a" "synced s a"
  shows "view s' a = view s a \<and> synced s' a"
  using run_ops_spec [OF assms(1), of s] assms by (metis option.inject)

lemma run_ops_invd:
  assumes "ranges_ok rs" "run_ops op rs s = Some s'" "free a" "covered rs a" "\<not> dirty s a"
  shows "view s' a = mem s a"
  using run_ops_spec [OF assms(1), of s] assms miss_view by (metis option.inject)

lemma run_ops_overwritten:
  assumes "ranges_ok rs" "run_ops op rs (dma f s) = Some s'" "free a" "covered rs a" "dirty s a"
  shows "view s' a = view s a" "mem s' a = view s a"
proof -
  have d: "dirty (dma f s) a" "hit s a" using assms(5) dma_cache dirty_hit by metis+
  have v: "view (dma f s) a = view s a" using dma_view [OF d(2)] .
  have "synced (dma f s) a" by (rule synced_dirty [OF d(1)])
  with assms(1-4) v show "view s' a = view s a" "mem s' a = view s a"
    using run_ops_spec [OF assms(1), of "dma f s"] run_ops_flush [OF assms(1-4)] by (metis option.inject)+
qed

end

section \<open>The ranges of a batch\<close>

definition tile_operands :: "u8 \<Rightarrow> gemm_tile \<Rightarrow> (u32 \<times> u32) list" where
  "tile_operands d t =
     (if \<not> src_coherent t \<and> \<not> b_only t \<and> a_src t \<noteq> 0 then [(a_src t, ucast d * ucast (k_len t))] else []) @
     (if b_src t \<noteq> 0 then [(b_src t, ucast d * ucast (k_len t))] else [])"

definition operand_ranges :: "u8 \<Rightarrow> gemm_tile list \<Rightarrow> (u32 \<times> u32) list" where
  "operand_ranges d ts = concat (map (tile_operands d) ts)"

definition dest_ranges :: "u32 \<Rightarrow> gemm_tile list \<Rightarrow> (u32 \<times> u32) list" where
  "dest_ranges n ts = map (\<lambda>t. (dest t, n)) (filter (\<lambda>t. dest t \<noteq> 0) ts)"

definition desc_of :: "gemm_tile \<Rightarrow> descriptor" where
  "desc_of t = (a_src t, b_src t, dest t, desc_ctl t)"

lemma wr_frame [simp]: "data (wr off v s) = data s" "mem (wr off v s) = mem s" "irq_unmasked (wr off v s) = irq_unmasked s"
  by (simp_all add: wr_def Let_def)

lemma flush_run: "run_ops (cache_data_flush_range (cfg env)) [(a, n)] (mem s) = Some m \<longleftrightarrow>
    flush env a n s = Some (s\<lparr>mem := m\<rparr>)"
  by (auto simp: flush_def bind_eq_Some_conv)
    (metis (no_types, lifting) gemm_sys.select_convs(3) gemm_sys.surjective gemm_sys.update_convs(3))

lemma push_tile_acc:
  "length (descQ (acc s)) < 8 \<Longrightarrow>
   acc (push_tile t s) = (acc s)\<lparr>descA := a_src t, descB := b_src t, descD := dest t,
     descQ := descQ (acc s) @ [desc_of t]\<rparr>"
  "data (push_tile t s) = data s" "mem (push_tile t s) = mem s" "irq_unmasked (push_tile t s) = irq_unmasked s"
  by (simp_all add: push_tile_def wr_def acc_write_def reg_defs desc_of_def Let_def)

lemma opt_flush:
  "run_ops (cache_data_flush_range (cfg env)) (if c then [(a, n)] else []) (mem s) = Some m \<Longrightarrow>
   (if c then flush env a n s else Some s) = Some (s\<lparr>mem := m\<rparr>)"
  using flush_run [of env a n s m] by (cases c) simp_all

lemma opt_invd:
  "run_ops (cache_data_invd_range (cfg env)) (if c then [(a, n)] else []) (mem s) = Some m \<Longrightarrow>
   (if c then invd env a n s else Some s) = Some (s\<lparr>mem := m\<rparr>)"
  unfolding invd_is_flush invd_def flush_def [symmetric] by (rule opt_flush)

text \<open>The registers the submission loop leaves alone.\<close>

definition ctl_regs :: "accel_regs \<Rightarrow> u32 \<times> u32 \<times> bool \<times> bool" where
  "ctl_regs r = (destStride r, outCtrl r, qBusy r, qDone r)"

lemma submit_tiles_run:
  assumes "run_ops (cache_data_flush_range (cfg env)) (operand_ranges (dim (info (data s))) ts) (mem s) = Some m"
    and "length (descQ (acc s)) + length ts \<le> 8"
  shows "\<exists>fl' s'. submit_tiles env ts fl s = Some (fl', s') \<and> mem s' = m \<and> data s' = data s \<and>
    descQ (acc s') = descQ (acc s) @ map desc_of ts \<and> ctl_regs (acc s') = ctl_regs (acc s) \<and>
    irq_unmasked s' = irq_unmasked s"
  using assms
proof (induction ts arbitrary: fl s)
  case Nil
  then show ?case by (simp add: operand_ranges_def)
next
  case (Cons t ts)
  let ?F = "run_ops (cache_data_flush_range (cfg env))"
    and ?n = "operand_bytes s t" and ?s0 = "s\<lparr>clock := Suc (clock s)\<rparr>"
    and ?c = "\<not> src_coherent t \<and> \<not> b_only t \<and> a_src t \<noteq> 0"
  obtain m1 m2 where m1: "?F (if ?c then [(a_src t, ?n)] else []) (mem s) = Some m1"
      and m2: "?F (if b_src t \<noteq> 0 then [(b_src t, ?n)] else []) m1 = Some m2"
      and m: "?F (operand_ranges (dim (info (data s))) ts) m2 = Some m"
    using Cons.prems(1) unfolding operand_ranges_def tile_operands_def operand_bytes_def
    by (simp add: run_ops_append bind_eq_Some_conv del: run_ops.simps(2)) blast
  let ?s1 = "?s0\<lparr>mem := m1\<rparr>" and ?s2 = "?s0\<lparr>mem := m1\<rparr>\<lparr>mem := m2\<rparr>"
  have a: "(if src_coherent t then Some ?s0 else if \<not> b_only t \<and> a_src t \<noteq> 0 then flush env (a_src t) ?n ?s0
      else Some ?s0) = Some ?s1"
    using opt_flush [of env ?c "a_src t" ?n ?s0 m1] m1 by (auto split: if_splits)
  have b: "(if b_src t \<noteq> 0 then flush env (b_src t) ?n ?s1 else Some ?s1) = Some ?s2"
    by (rule opt_flush) (use m2 in simp)
  let ?s3 = "push_tile t (?s2\<lparr>clock := Suc (clock ?s2)\<rparr>)"
  have eq: "submit_tiles env (t # ts) fl s =
      submit_tiles env ts (fl + (ticks env (clock ?s2) - ticks env (clock s))) ?s3"
    using a b by (simp add: k_cycle_get_32_def Let_def)
  have "length (descQ (acc s)) < 8" using Cons.prems(2) by simp
  then have "acc ?s3 = (acc s)\<lparr>descA := a_src t, descB := b_src t, descD := dest t,
      descQ := descQ (acc s) @ [desc_of t]\<rparr>" "data ?s3 = data s" "mem ?s3 = m2"
      "irq_unmasked ?s3 = irq_unmasked s"
    using push_tile_acc by simp_all
  with Cons.IH [of ?s3 "fl + (ticks env (clock ?s2) - ticks env (clock s))"] Cons.prems(2) m
  show ?case unfolding eq by (simp add: ctl_regs_def)
qed

lemma invd_tiles_run:
  "run_ops (cache_data_invd_range (cfg env)) (dest_ranges n ts) (mem s) = Some m \<Longrightarrow>
   invd_tiles env ts n s = Some (s\<lparr>mem := m\<rparr>)"
proof (induction ts arbitrary: s)
  case (Cons t ts)
  obtain m1 where m1: "run_ops (cache_data_invd_range (cfg env)) (if dest t \<noteq> 0 then [(dest t, n)] else []) (mem s) = Some m1"
      and m: "run_ops (cache_data_invd_range (cfg env)) (dest_ranges n ts) m1 = Some m"
    using Cons.prems by (auto simp: dest_ranges_def bind_eq_Some_conv split: if_splits)
  have "(if dest t \<noteq> 0 then invd env (dest t) n s else Some s) = Some (s\<lparr>mem := m1\<rparr>)"
    by (rule opt_invd [OF m1])
  with Cons.IH [of "s\<lparr>mem := m1\<rparr>"] m show ?case by simp
qed (simp add: dest_ranges_def)

section \<open>The phases of a batch\<close>

text \<open>
  Between batches the lock is free and the descriptor queue is empty and stopped.
\<close>

definition batch_idle :: "gemm_sys \<Rightarrow> bool" where
  "batch_idle s \<longleftrightarrow> \<not> locked (data s) \<and> \<not> qBusy (acc s) \<and> descQ (acc s) = []"

definition out_ctrl_of :: "bool \<Rightarrow> u8 \<Rightarrow> u32" where
  "out_ctrl_of out_int8 out_shift = (if out_int8 then OUT_INT8 OR ucast (out_shift AND 0x1F) else 0)"

text \<open>
  The part of the system a batch works on, the state the queue is started in with memory \<open>m\<close>, and the two states the queue can be in
  afterwards.
\<close>

definition core :: "gemm_sys \<Rightarrow> accel_regs \<times> dcsys \<times> (nat \<Rightarrow> u8) \<times> (nat \<Rightarrow> (nat \<Rightarrow> u8) option)" where
  "core s = (acc s, mem s, fetched s, drained s)"

definition kicked :: "gemm_tile list \<Rightarrow> u32 \<Rightarrow> u32 \<Rightarrow> dcsys \<Rightarrow> gemm_sys \<Rightarrow> bool" where
  "kicked tiles ds oc m s \<longleftrightarrow>
     mem s = m \<and> fetched s = dram m \<and> drained s = (\<lambda>_. None) \<and> descQ (acc s) = map desc_of tiles \<and>
     destStride (acc s) = ds \<and> outCtrl (acc s) = oc \<and> qBusy (acc s)"

definition running :: "gemm_sys \<Rightarrow> bool" where
  "running s \<longleftrightarrow> qBusy (acc s) \<and> \<not> qDone (acc s) \<and> done_count (data s) = 0"

definition over :: "gemm_sys \<Rightarrow> bool" where
  "over s \<longleftrightarrow> \<not> qBusy (acc s) \<and> qDone (acc s) \<and> descQ (acc s) = [] \<and> done_count (data s) = 1 \<and> isr_fired (data s)"

text \<open>What the batch never changes.\<close>

definition setup_of :: "gemm_sys \<Rightarrow> gemm_info \<times> bool \<times> bool \<times> bool" where
  "setup_of s = (info (data s), poll_mode (data s), locked (data s), irq_unmasked s)"

lemmas event_defs = hw_event_def complete_def gemm_isr_def acc_finish_def acc_drain_def k_cycle_get_32_def Let_def

lemma event_setup [simp]: "setup_of (hw_event env e s) = setup_of s"
  by (cases e) (simp_all add: event_defs setup_of_def)

lemma events_setup [simp]: "setup_of (run_events env es s) = setup_of s"
  by (induction es arbitrary: s) simp_all

lemma event_core: "core s = core t \<Longrightarrow> core (hw_event env e s) = core (hw_event env e t)"
  by (cases s; cases t; cases e) (simp_all add: event_defs core_def cong: if_cong)

lemma events_core: "core s = core t \<Longrightarrow> core (run_events env es s) = core (run_events env es t)"
proof (induction es arbitrary: s t)
  case (Cons e es)
  from Cons.IH [OF event_core [OF Cons.prems, of env e]] show ?case by simp
qed simp

lemma event_running: "running s \<Longrightarrow> (if is_Irq e then over else running) (hw_event env e s)"
  by (cases e) (simp_all add: event_defs running_def over_def)

lemma event_over: "over s \<Longrightarrow> over (hw_event env e s)"
  by (cases e) (simp_all add: event_defs over_def)

lemma events_over: "over s \<Longrightarrow> over (run_events env es s)"
  by (induction es arbitrary: s) (simp_all add: event_over)

lemma events_running: "running s \<Longrightarrow> (if list_ex is_Irq es then over else running) (run_events env es s)"
proof (induction es arbitrary: s)
  case (Cons e es)
  with event_running [OF Cons.prems, of e env] show ?case by (auto simp: events_over split: if_splits)
qed simp

lemma ex_Irq: "list_ex is_Irq es \<longleftrightarrow> Irq \<in> set es"
  by (induction es) (auto simp: is_Irq_def)

lemma events_quiet: "running s \<Longrightarrow> Irq \<notin> set es \<Longrightarrow> running (run_events env es s)"
  using events_running [of s es env] by (simp add: ex_Irq)

lemma running_idle: "running s \<Longrightarrow> \<not> qDone (acc s) \<and> done_count (data s) = 0"
  by (simp add: running_def)

lemma wr_start:
  "\<not> qBusy (acc s) \<Longrightarrow> wr REG_CTRL CTRL_START_QUEUE s =
     s\<lparr>acc := (acc s)\<lparr>qBusy := True, qDone := False, qOverflow := False\<rparr>, fetched := dram (mem s), drained := (\<lambda>_. None)\<rparr>"
  by (simp add: wr_def acc_write_def reg_defs CTRL_START_QUEUE_def bit_simps Let_def)

lemma start_batch_run:
  assumes "run_ops (cache_data_flush_range (cfg env)) (operand_ranges (dim (info (data s))) tiles) (mem s) = Some m"
    and "length tiles \<le> 8" "\<not> qBusy (acc s)" "descQ (acc s) = []"
  shows "\<exists>t s0 s'. start_batch env w tiles ds o8 sh s = Some (t, s') \<and> kicked tiles ds (out_ctrl_of o8 sh) m s0 \<and>
    running s0 \<and> setup_of s0 = setup_of s \<and> core s' = core (run_events env (before_look w) s0) \<and> setup_of s' = setup_of s \<and>
    (if list_ex is_Irq (before_look w) then over else running) s'"
proof -
  let ?s = "wr REG_OUT_CTRL (out_ctrl_of o8 sh) (wr REG_DEST_STRIDE ds (s\<lparr>clock := Suc (clock s)\<rparr>))"
  have s: "data ?s = data s" "mem ?s = mem s" "descQ (acc ?s) = []" "irq_unmasked ?s = irq_unmasked s"
    "ctl_regs (acc ?s) = (ds, out_ctrl_of o8 sh, False, qDone (acc s))"
    using assms by (simp_all add: wr_def acc_write_def reg_defs ctl_regs_def)
  obtain fl s1 where s1: "submit_tiles env tiles 0 ?s = Some (fl, s1)" "mem s1 = m" "data s1 = data s"
      "descQ (acc s1) = map desc_of tiles" "irq_unmasked s1 = irq_unmasked s"
      "ctl_regs (acc s1) = (ds, out_ctrl_of o8 sh, False, qDone (acc s))"
    using submit_tiles_run [of env ?s tiles m 0] assms s by auto
  let ?t = "ticks env (clock s1) - ticks env (clock s) - fl"
  let ?s2 = "map_stats (\<lambda>st. st\<lparr>flush_cycles := flush_cycles st + fl\<rparr>)
      (map_stats (\<lambda>st. st\<lparr>submit_cycles := submit_cycles st + ?t\<rparr>) (s1\<lparr>clock := Suc (clock s1)\<rparr>))"
  let ?s2' = "?s2\<lparr>data := (data ?s2)\<lparr>done_count := 0, isr_fired := False\<rparr>\<rparr>"
  let ?s3 = "wr REG_CTRL CTRL_START_QUEUE ?s2'"
  let ?s4 = "?s3\<lparr>clock := Suc (clock ?s3)\<rparr>"
  have "\<not> qBusy (acc ?s2')" using s1(6) by (simp add: ctl_regs_def)
  note start = wr_start [OF this]
  have k: "kicked tiles ds (out_ctrl_of o8 sh) m ?s4" "running ?s4" "setup_of ?s4 = setup_of s"
    unfolding start using s1 by (simp_all add: kicked_def running_def setup_of_def ctl_regs_def)
  define s5 where "s5 = run_events env (before_look w) ?s4"
  have e: "start_batch env w tiles ds o8 sh s = Some (ticks env (clock ?s3),
      if 0 < done_count (data s5) then map_stats (\<lambda>st. st\<lparr>already_done := already_done st + 1\<rparr>) s5 else s5)"
    by (simp only: start_batch_def k_cycle_get_32_def Let_def prod.case out_ctrl_of_def [symmetric] s1(1) Option.bind.simps s5_def)
  have 5: "setup_of s5 = setup_of s" "(if list_ex is_Irq (before_look w) then over else running) s5"
    using events_running [OF k(2), of "before_look w" env] k(3) by (simp_all add: s5_def)
  define s6 where "s6 = (if 0 < done_count (data s5) then map_stats (\<lambda>st. st\<lparr>already_done := already_done st + 1\<rparr>) s5 else s5)"
  have "core s6 = core s5" "setup_of s6 = setup_of s5" "running s6 = running s5" "over s6 = over s5"
    by (simp_all add: s6_def core_def setup_of_def running_def over_def)
  with 5 have 6: "core s6 = core s5" "setup_of s6 = setup_of s" "(if list_ex is_Irq (before_look w) then over else running) s6"
    by (auto split: if_splits)
  show ?thesis unfolding e s6_def [symmetric]
    using k 6 unfolding s5_def by (intro exI [of _ "ticks env (clock ?s3)"] exI [of _ ?s4] exI [of _ s6] conjI) (rule refl | assumption)+
qed

lemma status_done: "rd env REG_STATUS s AND ST_QUEUE_DONE \<noteq> 0 \<longleftrightarrow> qDone (acc s)"
  by (cases "qOverflow (acc s)"; cases "qDone (acc s)"; cases "qBusy (acc s)")
    (simp_all add: rd_def acc_read_def reg_defs ST_QUEUE_DONE_def)

section \<open>The wait\<close>

text \<open>The events a schedule holds, and when the wait ends with the completion: in time for a sleeper with a timeout, at any time otherwise.\<close>

definition sched :: "wait \<Rightarrow> event set" where
  "sched w = set (before_look w) \<union> (\<Union>k. set (during w k))"

definition in_time :: "k_timeout \<Rightarrow> nat \<Rightarrow> bool" where
  "in_time timeout k \<longleftrightarrow> (case timeout of K_MSEC n \<Rightarrow> k < n | K_FOREVER \<Rightarrow> True)"

definition completes :: "bool \<Rightarrow> k_timeout \<Rightarrow> wait \<Rightarrow> bool" where
  "completes poll timeout w \<longleftrightarrow> Irq \<in> set (before_look w) \<or>
     (\<exists>k. Irq \<in> set (during w k) \<and> (poll \<or> in_time timeout k))"

lemma poll_loop_done: "over s \<Longrightarrow> poll_loop env d k s = Some s"
  by (simp add: poll_loop.simps status_done over_def)

lemma poll_loop_step: "running s \<Longrightarrow> poll_loop env d k s = poll_loop env d (Suc k) (run_events env (d k) s)"
  by (subst poll_loop.simps) (simp add: status_done running_def)

lemma poll_loop_arrives:
  "running s \<Longrightarrow> Irq \<in> set (d (k + n)) \<Longrightarrow> \<exists>es. poll_loop env d k s = Some (run_events env es s) \<and>
     set es \<subseteq> (\<Union>j. set (d j)) \<and> Irq \<in> set es"
proof (induction n arbitrary: k s)
  case 0
  then have "over (run_events env (d k) s)" using events_running [OF 0(1), of "d k" env] by (simp add: ex_Irq)
  with 0 show ?case by (intro exI [of _ "d k"]) (auto simp: poll_loop_step poll_loop_done)
next
  case (Suc n)
  show ?case
  proof (cases "Irq \<in> set (d k)")
    case True
    then have "over (run_events env (d k) s)" using events_running [OF Suc.prems(1), of "d k" env] by (simp add: ex_Irq)
    with Suc.prems True show ?thesis by (intro exI [of _ "d k"]) (auto simp: poll_loop_step poll_loop_done)
  next
    case False
    then have "running (run_events env (d k) s)" using events_running [OF Suc.prems(1), of "d k" env] by (simp add: ex_Irq)
    from Suc.IH [OF this, of "Suc k"] Suc.prems obtain es where
      "poll_loop env d (Suc k) (run_events env (d k) s) = Some (run_events env es (run_events env (d k) s))"
      "set es \<subseteq> (\<Union>j. set (d j))" "Irq \<in> set es" by auto
    with Suc.prems(1) show ?thesis by (intro exI [of _ "d k @ es"]) (auto simp: poll_loop_step)
  qed
qed

lemma poll_loop_endless:
  assumes "running s" "\<forall>k. Irq \<notin> set (d k)"
  shows "poll_loop env d k s = None"
proof -
  have "(\<forall>k. Irq \<notin> set (d k)) \<longrightarrow> \<not> running s" if "poll_loop env d k s = Some r" for d k s r
    using _ that by (rule poll_loop.raw_induct) (auto simp: status_done dest: running_idle split: if_splits, metis events_quiet)
  with assms show ?thesis by (cases "poll_loop env d k s") auto
qed

lemma sem_take_given:
  "over s \<Longrightarrow> sem_take env d timeout k s = Some (True, s\<lparr>data := (data s)\<lparr>done_count := 0\<rparr>\<rparr>)"
  by (simp add: sem_take.simps over_def)

lemma sem_take_step:
  "running s \<Longrightarrow> timeout \<noteq> K_MSEC k \<Longrightarrow> sem_take env d timeout k s = sem_take env d timeout (Suc k) (run_events env (d k) s)"
  by (subst sem_take.simps) (simp add: running_def)

lemma sem_take_arrives:
  "running s \<Longrightarrow> Irq \<in> set (d (k + n)) \<Longrightarrow> in_time timeout (k + n) \<Longrightarrow>
   \<exists>es s'. sem_take env d timeout k s = Some (True, s'\<lparr>data := (data s')\<lparr>done_count := 0\<rparr>\<rparr>) \<and>
     s' = run_events env es s \<and> set es \<subseteq> (\<Union>j. set (d j)) \<and> Irq \<in> set es"
proof (induction n arbitrary: k s)
  case 0
  then have "over (run_events env (d k) s)" using events_running [OF 0(1), of "d k" env] by (simp add: ex_Irq)
  moreover have "timeout \<noteq> K_MSEC k" using 0(3) by (auto simp: in_time_def)
  ultimately show ?case using 0 by (intro exI [of _ "d k"]) (auto simp: sem_take_step sem_take_given)
next
  case (Suc n)
  have t: "timeout \<noteq> K_MSEC k" using Suc.prems(3) by (auto simp: in_time_def)
  show ?case
  proof (cases "Irq \<in> set (d k)")
    case True
    then have "over (run_events env (d k) s)" using events_running [OF Suc.prems(1), of "d k" env] by (simp add: ex_Irq)
    with Suc.prems True t show ?thesis by (intro exI [of _ "d k"]) (auto simp: sem_take_step sem_take_given)
  next
    case False
    from Suc.IH [OF events_quiet [OF Suc.prems(1) False], of "Suc k" env] Suc.prems obtain es where
      "sem_take env d timeout (Suc k) (run_events env (d k) s) =
         Some (True, (run_events env es (run_events env (d k) s))\<lparr>data := (data (run_events env es (run_events env (d k) s)))\<lparr>done_count := 0\<rparr>\<rparr>)"
      "set es \<subseteq> (\<Union>j. set (d j))" "Irq \<in> set es" by auto
    with Suc.prems(1) t show ?thesis by (intro exI [of _ "d k @ es"]) (auto simp: sem_take_step)
  qed
qed

lemma sem_take_timeout:
  "running s \<Longrightarrow> \<forall>j. k \<le> j \<and> j < k + n \<longrightarrow> Irq \<notin> set (d j) \<Longrightarrow>
   \<exists>es. sem_take env d (K_MSEC (k + n)) k s = Some (False, run_events env es s) \<and> Irq \<notin> set es"
proof (induction n arbitrary: k s)
  case 0
  then show ?case by (intro exI [of _ "[]"]) (simp add: sem_take.simps [of env d _ k s] running_def)
next
  case (Suc n)
  have k: "Irq \<notin> set (d k)" using Suc.prems(2) by simp
  from Suc.IH [OF events_quiet [OF Suc.prems(1) k], of "Suc k" env] Suc.prems(2) obtain es where
    "sem_take env d (K_MSEC (k + Suc n)) (Suc k) (run_events env (d k) s) = Some (False, run_events env es (run_events env (d k) s))"
    "Irq \<notin> set es" by auto
  with Suc.prems(1) k show ?case by (intro exI [of _ "d k @ es"]) (simp add: sem_take_step)
qed

lemma sem_take_endless:
  assumes "running s" "\<forall>k. Irq \<notin> set (d k)"
  shows "sem_take env d K_FOREVER k s = None"
proof -
  have "timeout = K_FOREVER \<and> (\<forall>k. Irq \<notin> set (d k)) \<longrightarrow> \<not> running s" if "sem_take env d timeout k s = Some r" for d timeout k s r
    using _ that by (rule sem_take.raw_induct) (auto dest: running_idle split: if_splits, metis events_quiet)
  with assms show ?thesis by (cases "sem_take env d K_FOREVER k s") auto
qed

text \<open>A wait, polling or sleeping, with what it has seen happen.\<close>

definition wait_batch :: "gemm_env \<Rightarrow> wait \<Rightarrow> k_timeout \<Rightarrow> gemm_sys \<Rightarrow> (bool \<times> gemm_sys) option" where
  "wait_batch env w timeout s =
     (if poll_mode (data s) then do { s \<leftarrow> poll_loop env (during w) 0 s; Some (True, s) }
      else sem_take env (during w) timeout 0 s)"

lemma wait_batch_over:
  assumes "(if list_ex is_Irq (before_look w) then over else running) s" "completes (poll_mode (data s)) timeout w"
  shows "\<exists>s' es. wait_batch env w timeout s = Some (True, s') \<and> core s' = core (run_events env es s) \<and> setup_of s' = setup_of s \<and>
    set es \<subseteq> sched w \<and> Irq \<in> set (before_look w) \<union> set es \<and> isr_fired (data s')"
proof (cases "Irq \<in> set (before_look w)")
  case True
  with assms(1) have o: "over s" by (simp add: ex_Irq)
  show ?thesis
  proof (cases "poll_mode (data s)")
    case p: True
    then show ?thesis using o True
      by (intro exI [of _ s] exI [of _ "[]"]) (simp add: wait_batch_def poll_loop_done over_def)
  next
    case False
    then show ?thesis using o True
      by (intro exI [of _ "s\<lparr>data := (data s)\<lparr>done_count := 0\<rparr>\<rparr>"] exI [of _ "[]"])
        (simp add: wait_batch_def sem_take_given core_def setup_of_def over_def)
  qed
next
  case False
  with assms(1) have r: "running s" by (simp add: ex_Irq)
  from assms(2) False obtain k where k: "Irq \<in> set (during w k)"
      "poll_mode (data s) \<or> in_time timeout k"
    by (auto simp: completes_def)
  have sub: "(\<Union>j. set (during w j)) \<subseteq> sched w" by (auto simp: sched_def)
  have fired: "isr_fired (data (run_events env es s))" if "Irq \<in> set es" for es
    using events_running [OF r, of es env] that by (simp add: ex_Irq over_def)
  show ?thesis
  proof (cases "poll_mode (data s)")
    case True
    with poll_loop_arrives [OF r, of "during w" 0 k env] k(1) sub fired show ?thesis
      by (fastforce simp: wait_batch_def)
  next
    case p: False
    with k(2) sem_take_arrives [OF r, of "during w" 0 k timeout env] k(1) obtain es s' where
      "sem_take env (during w) timeout 0 s = Some (True, s'\<lparr>data := (data s')\<lparr>done_count := 0\<rparr>\<rparr>)"
      "s' = run_events env es s" "set es \<subseteq> (\<Union>j. set (during w j))" "Irq \<in> set es" by auto
    with p sub fired show ?thesis
      by (intro exI [of _ "s'\<lparr>data := (data s')\<lparr>done_count := 0\<rparr>\<rparr>"] exI [of _ es])
        (auto simp: wait_batch_def core_def setup_of_def [of "_\<lparr>data := _\<rparr>"] setup_of_def [symmetric])
  qed
qed

section \<open>Memory during the wait\<close>

text \<open>What a schedule may do to a byte: store to it, store to its line, read it again for the accelerator.\<close>

definition stored :: "wait \<Rightarrow> nat \<Rightarrow> bool" where
  "stored w a \<longleftrightarrow> (\<exists>v. Cpu (Store a v) \<in> sched w)"

definition line_stored :: "wait \<Rightarrow> nat \<Rightarrow> bool" where
  "line_stored w a \<longleftrightarrow> (\<exists>b v. b div 16 = a div 16 \<and> Cpu (Store b v) \<in> sched w)"

definition refetched :: "wait \<Rightarrow> bool" where
  "refetched w \<longleftrightarrow> (\<exists>P. Fetch P \<in> sched w)"

text \<open>The result byte at \<open>a\<close>, if the result DMA is through with it and has one there.\<close>

definition result_at :: "((nat \<Rightarrow> u8) \<Rightarrow> nat \<Rightarrow> u8 option) \<Rightarrow> gemm_sys \<Rightarrow> nat \<Rightarrow> u8 option" where
  "result_at R s a = (case drained s a of None \<Rightarrow> None | Some c \<Rightarrow> R c a)"

definition contents :: "gemm_sys \<Rightarrow> (nat \<Rightarrow> u8) set" where
  "contents s = insert (fetched s) {c. \<exists>y. drained s y = Some c}"

text \<open>
  The memory \<open>m\<close> at the start of the queue and the state \<open>s\<close> some events later: clean bytes in lines nobody stores to hold the result or
  what they held, bytes nobody stores to and without a result look the same to the CPU, and what the accelerator works on is what memory held
  at the start wherever nobody stores and no result goes.
\<close>

definition batch_inv :: "nat \<Rightarrow> ((nat \<Rightarrow> u8) \<Rightarrow> nat \<Rightarrow> u8 option) \<Rightarrow> wait \<Rightarrow> dcsys \<Rightarrow> gemm_sys \<Rightarrow> bool" where
  "batch_inv ns R w m s \<longleftrightarrow>
     (\<forall>a. \<not> dc_dirty_at ns m a \<and> \<not> line_stored w a \<longrightarrow>
        \<not> dc_dirty_at ns (mem s) a \<and> dram (mem s) a = (case result_at R s a of None \<Rightarrow> dram m a | Some v \<Rightarrow> v)) \<and>
     (\<forall>a. in_sync ns m a \<and> \<not> stored w a \<and> result_at R s a = None \<longrightarrow>
        in_sync ns (mem s) a \<and> cpu_view ns (mem s) a = cpu_view ns m a) \<and>
     (\<forall>c \<in> contents s. \<not> refetched w \<longrightarrow> c = dram m) \<and>
     (\<forall>c \<in> contents s. \<forall>a. \<not> dc_dirty_at ns m a \<and> \<not> line_stored w a \<and> (\<forall>c. R c a = None) \<longrightarrow> c a = dram m a)"

lemma batch_invD:
  assumes "batch_inv ns R w m s"
  shows "\<not> dc_dirty_at ns m a \<Longrightarrow> \<not> line_stored w a \<Longrightarrow>
      \<not> dc_dirty_at ns (mem s) a \<and> dram (mem s) a = (case result_at R s a of None \<Rightarrow> dram m a | Some v \<Rightarrow> v)"
    "in_sync ns m a \<Longrightarrow> \<not> stored w a \<Longrightarrow> result_at R s a = None \<Longrightarrow>
      in_sync ns (mem s) a \<and> cpu_view ns (mem s) a = cpu_view ns m a"
    "c \<in> contents s \<Longrightarrow> \<not> refetched w \<Longrightarrow> c = dram m"
    "c \<in> contents s \<Longrightarrow> \<not> dc_dirty_at ns m a \<Longrightarrow> \<not> line_stored w a \<Longrightarrow> \<forall>c. R c a = None \<Longrightarrow> c a = dram m a"
  using assms unfolding batch_inv_def by blast+

lemma access_clean:
  assumes "0 < ns" "\<not> dc_dirty_at ns s a" "\<And>b v. x = Store b v \<Longrightarrow> b div 16 \<noteq> a div 16"
  shows "\<not> dc_dirty_at ns (dc_access ns x s) a \<and> dram (dc_access ns x s) a = dram s a"
  using assms by (cases x) (auto simp: snd_load8 dirty_at_store8 dirty_at_refill dram_store8 dram_refill)

lemma access_view:
  assumes "0 < ns" "in_sync ns s a" "\<And>v. x \<noteq> Store a v"
  shows "in_sync ns (dc_access ns x s) a \<and> cpu_view ns (dc_access ns x s) a = cpu_view ns s a"
  using assms by (cases x) (auto simp: snd_load8 view_refill in_sync_refill view_store8 in_sync_store8)

lemma batch_inv_access:
  assumes ns: "0 < ns" and inv: "batch_inv ns R w m s" and x: "Cpu x \<in> sched w"
  shows "batch_inv ns R w m (s\<lparr>mem := dc_access ns x (mem s)\<rparr>)"
proof -
  let ?s = "s\<lparr>mem := dc_access ns x (mem s)\<rparr>"
  have same: "result_at R ?s = result_at R s" "contents ?s = contents s" by (simp_all add: result_at_def contents_def fun_eq_iff)
  have "\<not> dc_dirty_at ns (mem ?s) a \<and> dram (mem ?s) a = (case result_at R ?s a of None \<Rightarrow> dram m a | Some v \<Rightarrow> v)"
    if "\<not> dc_dirty_at ns m a" "\<not> line_stored w a" for a
    using batch_invD(1) [OF inv that] access_clean [OF ns, of "mem s" a x] that(2) x unfolding line_stored_def same by force
  moreover have "in_sync ns (mem ?s) a \<and> cpu_view ns (mem ?s) a = cpu_view ns m a"
    if "in_sync ns m a" "\<not> stored w a" "result_at R ?s a = None" for a
    using batch_invD(2) [OF inv that(1,2)] access_view [OF ns, of "mem s" a x] that x unfolding stored_def same by force
  ultimately show ?thesis using batch_invD(3,4) [OF inv] unfolding batch_inv_def same by blast
qed

lemma batch_inv_fetch:
  assumes inv: "batch_inv ns R w m s" and P: "Fetch P \<in> sched w"
  shows "batch_inv ns R w m (s\<lparr>fetched := (\<lambda>a. if P a then dram (mem s) a else fetched s a)\<rparr>)"
proof -
  let ?f = "\<lambda>a. if P a then dram (mem s) a else fetched s a"
  let ?s = "s\<lparr>fetched := ?f\<rparr>"
  have same: "result_at R ?s = result_at R s" by (simp add: result_at_def fun_eq_iff)
  have re: "refetched w" using P by (auto simp: refetched_def)
  have sub: "contents ?s \<subseteq> insert ?f (contents s)" by (auto simp: contents_def)
  have "?f a = dram m a" if "\<not> dc_dirty_at ns m a" "\<not> line_stored w a" "\<forall>c. R c a = None" for a
  proof -
    have "result_at R s a = None" using that(3) by (simp add: result_at_def split: option.split)
    then show ?thesis using batch_invD(1) [OF inv that(1,2)] batch_invD(4) [OF inv, of "fetched s", OF _ that] by (simp add: contents_def)
  qed
  then have "c a = dram m a" if "c \<in> contents ?s" "\<not> dc_dirty_at ns m a" "\<not> line_stored w a" "\<forall>c. R c a = None" for c a
    using that sub batch_invD(4) [OF inv, of c a] by auto
  then show ?thesis using inv re same unfolding batch_inv_def by simp
qed

lemma dma_keeps:
  assumes "f a = None"
  shows "cpu_view ns (dma_write f s) a = cpu_view ns s a" "in_sync ns (dma_write f s) a = in_sync ns s a"
proof -
  have "dc_data (dma_write f s) = dc_data s" by (simp add: dma_write_def)
  with assms show "cpu_view ns (dma_write f s) a = cpu_view ns s a" by (simp add: cpu_view_def)
  with assms show "in_sync ns (dma_write f s) a = in_sync ns s a" by (simp add: in_sync_def)
qed

lemma batch_inv_drain:
  assumes inv: "batch_inv ns R w m s"
    and R: "R = results env (descQ (acc s)) (destStride (acc s)) (outCtrl (acc s))"
  shows "batch_inv ns R w m (acc_drain env P s)"
proof -
  let ?s = "acc_drain env P s"
  let ?f = "\<lambda>a. if P a \<and> drained s a = None then R (fetched s) a else None"
  have mem: "mem ?s = dma_write ?f (mem s)" unfolding R by (simp add: acc_drain_def Let_def)
  have res: "result_at R ?s a = (if P a \<and> drained s a = None then R (fetched s) a else result_at R s a)" for a
    by (simp add: acc_drain_def Let_def result_at_def)
  have sub: "contents ?s \<subseteq> contents s" by (auto simp: contents_def acc_drain_def Let_def split: if_splits)
  have old: "result_at R s a = None" if "drained s a = None" for a using that by (simp add: result_at_def)
  have "\<not> dc_dirty_at ns (mem ?s) a \<and> dram (mem ?s) a = (case result_at R ?s a of None \<Rightarrow> dram m a | Some v \<Rightarrow> v)"
    if "\<not> dc_dirty_at ns m a" "\<not> line_stored w a" for a
    using batch_invD(1) [OF inv that] old [of a] unfolding mem res by (auto split: option.splits)
  moreover have "in_sync ns (mem ?s) a \<and> cpu_view ns (mem ?s) a = cpu_view ns m a"
    if "in_sync ns m a" "\<not> stored w a" "result_at R ?s a = None" for a
  proof -
    have "?f a = None" "result_at R s a = None" using that(3) old [of a] unfolding res by (auto split: if_splits)
    then show ?thesis using batch_invD(2) [OF inv that(1,2)] dma_keeps [of ?f a ns "mem s"] unfolding mem by simp
  qed
  ultimately show ?thesis using batch_invD(3,4) [OF inv] sub unfolding batch_inv_def by blast
qed

text \<open>The invariant with the registers: the queue works on the batch, or everything has been drained.\<close>

definition batch_state :: "gemm_env \<Rightarrow> gemm_tile list \<Rightarrow> u32 \<Rightarrow> u32 \<Rightarrow> wait \<Rightarrow> dcsys \<Rightarrow> gemm_sys \<Rightarrow> bool" where
  "batch_state env tiles ds oc w m s \<longleftrightarrow>
     batch_inv (hw_sets (cfg env)) (results env (map desc_of tiles) ds oc) w m s \<and>
     (if qBusy (acc s) then descQ (acc s) = map desc_of tiles \<and> destStride (acc s) = ds \<and> outCtrl (acc s) = oc
      else descQ (acc s) = [] \<and> (\<forall>a. drained s a \<noteq> None))"

lemma batch_inv_core: "core s = core t \<Longrightarrow> batch_inv ns R w m s = batch_inv ns R w m t"
  by (simp add: core_def batch_inv_def result_at_def contents_def)

lemma kicked_state: "kicked tiles ds oc m s \<Longrightarrow> batch_state env tiles ds oc w m s"
  by (simp add: kicked_def batch_state_def batch_inv_def result_at_def contents_def)

lemma event_state:
  assumes ns: "0 < hw_sets (cfg env)" and st: "batch_state env tiles ds oc w m s" and e: "e \<in> sched w"
  shows "batch_state env tiles ds oc w m (hw_event env e s)"
proof (cases e)
  case (Cpu x)
  with batch_inv_access [OF ns, of _ w m s x] st e show ?thesis by (auto simp: batch_state_def hw_event_def)
next
  case (Fetch P)
  with batch_inv_fetch [of _ _ w m s P] st e show ?thesis by (auto simp: batch_state_def hw_event_def)
next
  case (Drain P)
  show ?thesis
  proof (cases "qBusy (acc s)")
    case True
    have "acc (acc_drain env P s) = acc s" by (simp add: acc_drain_def Let_def)
    with True Drain batch_inv_drain [of _ _ w m s env P] st show ?thesis by (auto simp: batch_state_def hw_event_def)
  qed (use st Drain in \<open>simp add: hw_event_def\<close>)
next
  case Irq
  show ?thesis
  proof (cases "qBusy (acc s)")
    case True
    let ?s = "acc_drain env (\<lambda>_. True) s" and ?R = "results env (map desc_of tiles) ds oc"
    have "batch_inv (hw_sets (cfg env)) ?R w m ?s"
      using True st by (intro batch_inv_drain) (simp_all add: batch_state_def)
    then have "batch_inv (hw_sets (cfg env)) ?R w m (complete env s)"
      by (simp add: batch_inv_def result_at_def contents_def complete_def acc_finish_def gemm_isr_def k_cycle_get_32_def Let_def)
    moreover have "drained (complete env s) a \<noteq> None" "descQ (acc (complete env s)) = []" "\<not> qBusy (acc (complete env s))" for a
      by (auto simp: event_defs)
    ultimately show ?thesis using True Irq by (simp add: batch_state_def hw_event_def)
  qed (use st Irq in \<open>simp add: hw_event_def\<close>)
qed

lemma events_state:
  "0 < hw_sets (cfg env) \<Longrightarrow> batch_state env tiles ds oc w m s \<Longrightarrow> set es \<subseteq> sched w \<Longrightarrow>
   batch_state env tiles ds oc w m (run_events env es s)"
  by (induction es arbitrary: s) (simp_all add: event_state)

text \<open>A line that only the batch touches stays in the cache as it is.\<close>

definition off_set :: "nat \<Rightarrow> nat \<Rightarrow> wait \<Rightarrow> bool" where
  "off_set ns i w \<longleftrightarrow> (\<forall>x. Cpu x \<in> sched w \<longrightarrow> m_idx ns (acc_addr x) \<noteq> i)"

lemma same_set_dma [simp]: "same_set i s (dma_write f t) = same_set i s t"
  by (simp add: same_set_def dma_write_def)

lemma event_same_set:
  assumes "off_set (hw_sets (cfg env)) i w" "e \<in> sched w"
  shows "same_set i (mem s) (mem (hw_event env e s))"
  using assms by (cases e) (auto simp: event_defs off_set_def intro: same_set_access)

lemma events_same_set:
  "off_set (hw_sets (cfg env)) i w \<Longrightarrow> set es \<subseteq> sched w \<Longrightarrow> same_set i (mem s) (mem (run_events env es s))"
proof (induction es arbitrary: s)
  case (Cons e es)
  then show ?case using event_same_set [of env i w e s] same_set_trans by fastforce
qed simp

lemma finish_batch_run:
  assumes "run_ops (cache_data_invd_range (cfg env)) (dest_ranges (tile_bytes s o8) tiles) (mem s) = Some m"
  shows "\<exists>s'. finish_batch env tiles o8 t_kick t_mark s = Some s' \<and> mem s' = m \<and> acc s' = acc s \<and>
    setup_of s' = setup_of s \<and> batches (stats (data s')) = batches (stats (data s)) + 1"
proof -
  have eq: "invd_tiles env tiles (tile_bytes s' o8) s' = Some (s'\<lparr>mem := m\<rparr>)"
    if "mem s' = mem s" "dim (info (data s')) = dim (info (data s))" for s'
    using invd_tiles_run [of env "tile_bytes s o8" tiles s' m] assms that by (simp add: tile_bytes_def)
  show ?thesis
    by (simp add: finish_batch_def k_cycle_get_32_def Let_def eq setup_of_def)
qed

lemma gemm_run_batch_phases:
  assumes "tiles \<noteq> []" "length tiles \<le> 8" "\<not> (o8 \<and> ds \<noteq> 0)" "batch_idle s"
  shows "gemm_run_batch env w tiles ds o8 sh tmo s = do {
     (t_kick, s) \<leftarrow> start_batch env w tiles ds o8 sh (s\<lparr>data := (data s)\<lparr>locked := True\<rparr>\<rparr>);
     let (t_mark, s) = k_cycle_get_32 env s;
     (taken, s) \<leftarrow> wait_batch env w tmo s;
     if taken then do {
       s \<leftarrow> finish_batch env tiles o8 t_kick t_mark s;
       Some (RC_OK, k_mutex_unlock s)
     } else do {
       let (now, s) = k_cycle_get_32 env s;
       let s = map_stats (\<lambda>st. st\<lparr>wait_cycles := wait_cycles st + (now - t_mark)\<rparr>) s;
       Some (RC_ERR ETIMEDOUT, k_mutex_unlock (wr REG_CTRL CTRL_SOFT_RST s))
     }
   }"
  using assms
  by (auto simp: gemm_run_batch_def batch_idle_def rd_def acc_read_def reg_defs k_mutex_lock_def
      wait_batch_def Let_def split_beta intro!: Option.bind_cong)

section \<open>A whole batch\<close>

text \<open>A batch the driver accepts, on a configuration whose ranges the cache driver can walk.\<close>

definition batch_ok :: "gemm_env \<Rightarrow> gemm_tile list \<Rightarrow> u32 \<Rightarrow> bool \<Rightarrow> gemm_sys \<Rightarrow> bool" where
  "batch_ok env tiles ds o8 s \<longleftrightarrow> cache_cfg_ok (cfg env) \<and> batch_idle s \<and> tiles \<noteq> [] \<and> length tiles \<le> 8 \<and>
     \<not> (o8 \<and> ds \<noteq> 0) \<and> ranges_ok (operand_ranges (dim (info (data s))) tiles) \<and>
     ranges_ok (dest_ranges (tile_bytes s o8) tiles)"

text \<open>The bytes the operand pass covers, the bytes the destination pass covers, and the device's output for given operands.\<close>

definition operand_at :: "gemm_tile list \<Rightarrow> gemm_sys \<Rightarrow> nat \<Rightarrow> bool" where
  "operand_at tiles s a \<longleftrightarrow> covered (operand_ranges (dim (info (data s))) tiles) a"

definition dest_at :: "gemm_tile list \<Rightarrow> bool \<Rightarrow> gemm_sys \<Rightarrow> nat \<Rightarrow> bool" where
  "dest_at tiles o8 s a \<longleftrightarrow> covered (dest_ranges (tile_bytes s o8) tiles) a"

definition batch_output :: "gemm_env \<Rightarrow> gemm_tile list \<Rightarrow> u32 \<Rightarrow> bool \<Rightarrow> u8 \<Rightarrow> (nat \<Rightarrow> u8) \<Rightarrow> nat \<Rightarrow> u8 option" where
  "batch_output env tiles ds o8 sh c = results env (map desc_of tiles) ds (out_ctrl_of o8 sh) c"

lemma batch_reaches_finish:
  assumes acc: "batch_idle s" "tiles \<noteq> []" "length tiles \<le> 8" "\<not> (o8 \<and> ds \<noteq> 0)" and w: "completes (poll_mode (data s)) tmo w"
    and m: "run_ops (cache_data_flush_range (cfg env)) (operand_ranges (dim (info (data s))) tiles) (mem s) = Some m"
  shows "\<exists>t tm s0 s2 es. gemm_run_batch env w tiles ds o8 sh tmo s =
      do { s3 \<leftarrow> finish_batch env tiles o8 t tm s2; Some (RC_OK, k_mutex_unlock s3) } \<and>
    kicked tiles ds (out_ctrl_of o8 sh) m s0 \<and> core s2 = core (run_events env es s0) \<and> set es \<subseteq> sched w \<and>
    over (run_events env es s0) \<and> setup_of (k_mutex_unlock s2) = setup_of s"
proof -
  let ?l = "s\<lparr>data := (data s)\<lparr>locked := True\<rparr>\<rparr>"
  obtain t s0 s1 where s1: "start_batch env w tiles ds o8 sh ?l = Some (t, s1)" "kicked tiles ds (out_ctrl_of o8 sh) m s0"
      "running s0" "core s1 = core (run_events env (before_look w) s0)" "setup_of s1 = setup_of ?l"
      "(if list_ex is_Irq (before_look w) then over else running) s1"
    using start_batch_run [of env ?l tiles m w ds o8 sh] m acc by (auto simp: batch_idle_def)
  let ?s1 = "s1\<lparr>clock := Suc (clock s1)\<rparr>"
  have 1: "(if list_ex is_Irq (before_look w) then over else running) ?s1" "core ?s1 = core s1" "setup_of ?s1 = setup_of ?l"
    using s1(5,6) by (auto simp: over_def running_def setup_of_def core_def split: if_splits)
  then have "poll_mode (data ?s1) = poll_mode (data s)" by (simp add: setup_of_def)
  then obtain s2 es where s2: "wait_batch env w tmo ?s1 = Some (True, s2)" "core s2 = core (run_events env es ?s1)"
      "setup_of s2 = setup_of ?l" "set es \<subseteq> sched w" "Irq \<in> set (before_look w) \<union> set es"
    using wait_batch_over [OF 1(1), of tmo env] w 1(3) by metis
  let ?es = "before_look w @ es"
  have "core s2 = core (run_events env ?es s0)"
    using s2(2) events_core [of ?s1 "run_events env (before_look w) s0" env es] 1(2) s1(4) by simp
  moreover have "set ?es \<subseteq> sched w" using s2(4) by (auto simp: sched_def)
  moreover have "over (run_events env ?es s0)" using events_running [OF s1(3), of ?es env] s2(5) by (simp add: ex_Irq)
  moreover have "gemm_run_batch env w tiles ds o8 sh tmo s =
      do { s3 \<leftarrow> finish_batch env tiles o8 t (ticks env (clock s1)) s2; Some (RC_OK, k_mutex_unlock s3) }"
    using gemm_run_batch_phases [of tiles o8 ds s env w sh tmo] acc s1(1) s2(1)
    by (simp add: k_cycle_get_32_def)
  moreover have "setup_of (k_mutex_unlock s2) = setup_of s"
    using s2(3) acc(1) by (simp add: setup_of_def k_mutex_unlock_def batch_idle_def)
  ultimately show ?thesis using s1(2) by blast
qed

lemma batch_finishes:
  assumes fin: "run = do { s3 \<leftarrow> finish_batch env tiles o8 t tm s2; Some (RC_OK, k_mutex_unlock s3) }"
    and s2: "core s2 = core r" "over r" "setup_of (k_mutex_unlock s2) = setup_of s"
    and m': "run_ops (cache_data_invd_range (cfg env)) (dest_ranges (tile_bytes s o8) tiles) (mem r) = Some m'"
  shows "\<exists>s'. run = Some (RC_OK, s') \<and> mem s' = m' \<and> batch_idle s' \<and> setup_of s' = setup_of s"
proof -
  have "tile_bytes s2 o8 = tile_bytes s o8" "mem s2 = mem r" "acc s2 = acc r"
    using s2 by (simp_all add: tile_bytes_def setup_of_def k_mutex_unlock_def core_def)
  then obtain s3 where "finish_batch env tiles o8 t tm s2 = Some s3" "mem s3 = m'" "acc s3 = acc r" "setup_of s3 = setup_of s2"
    using finish_batch_run [of env s2 o8 tiles m' t tm] m' by auto
  then show ?thesis using fin s2 by (simp add: k_mutex_unlock_def batch_idle_def over_def setup_of_def)
qed

text \<open>
  A batch from the flush of its operands to the invalidation of its destinations: the memory \<open>m\<close> at the start of the queue, the state
  \<open>r\<close> when the wait is over, and the memory at the end.
\<close>

lemma batch_runs:
  assumes ok: "batch_ok env tiles ds o8 s" and w: "completes (poll_mode (data s)) tmo w"
  shows "\<exists>m s0 es s'. run_ops (cache_data_flush_range (cfg env)) (operand_ranges (dim (info (data s))) tiles) (mem s) = Some m \<and>
    kicked tiles ds (out_ctrl_of o8 sh) m s0 \<and> set es \<subseteq> sched w \<and> over (run_events env es s0) \<and>
    run_ops (cache_data_invd_range (cfg env)) (dest_ranges (tile_bytes s o8) tiles) (mem (run_events env es s0)) = Some (mem s') \<and>
    gemm_run_batch env w tiles ds o8 sh tmo s = Some (RC_OK, s') \<and> batch_idle s' \<and> setup_of s' = setup_of s"
proof -
  note b = ok [unfolded batch_ok_def]
  obtain m where m: "run_ops (cache_data_flush_range (cfg env)) (operand_ranges (dim (info (data s))) tiles) (mem s) = Some m"
    using cache_maint.run_ops_spec [OF flush_maint] b by meson
  obtain t tm s0 s2 es where fin: "gemm_run_batch env w tiles ds o8 sh tmo s =
      do { s3 \<leftarrow> finish_batch env tiles o8 t tm s2; Some (RC_OK, k_mutex_unlock s3) }"
    and k: "kicked tiles ds (out_ctrl_of o8 sh) m s0" "core s2 = core (run_events env es s0)" "set es \<subseteq> sched w"
      "over (run_events env es s0)" "setup_of (k_mutex_unlock s2) = setup_of s"
    using batch_reaches_finish [OF _ _ _ _ w m] b by metis
  obtain m' where m': "run_ops (cache_data_invd_range (cfg env)) (dest_ranges (tile_bytes s o8) tiles) (mem (run_events env es s0)) = Some m'"
    using cache_maint.run_ops_spec [OF invd_maint] b by meson
  from batch_finishes [OF fin k(2,4,5) m'] m m' k(1,3,4) show ?thesis by metis
qed

text \<open>The operands the accelerator worked with at byte \<open>a\<close> are not disturbed during the wait.\<close>

definition settled :: "gemm_env \<Rightarrow> wait \<Rightarrow> gemm_tile list \<Rightarrow> u32 \<Rightarrow> bool \<Rightarrow> u8 \<Rightarrow> nat \<Rightarrow> bool" where
  "settled env w tiles ds o8 sh a \<longleftrightarrow> \<not> refetched w \<or>
     \<not> line_stored w a \<and> (\<forall>c. batch_output env tiles ds o8 sh c a = None)"

lemma sets_pos: "cache_cfg_ok c \<Longrightarrow> 0 < hw_sets c"
  by (intro Nat.gr0I) (simp add: cache_cfg_ok_def)

text \<open>The same with the invariant of the wait: \<open>M a\<close> is what the result at \<open>a\<close> was computed from.\<close>

lemma batch_traced:
  assumes ok: "batch_ok env tiles ds o8 s" and w: "completes (poll_mode (data s)) tmo w"
  shows "\<exists>m r M s'. run_ops (cache_data_flush_range (cfg env)) (operand_ranges (dim (info (data s))) tiles) (mem s) = Some m \<and>
    batch_inv (hw_sets (cfg env)) (batch_output env tiles ds o8 sh) w m r \<and> (\<forall>a. drained r a = Some (M a)) \<and>
    run_ops (cache_data_invd_range (cfg env)) (dest_ranges (tile_bytes s o8) tiles) (mem r) = Some (mem s') \<and>
    gemm_run_batch env w tiles ds o8 sh tmo s = Some (RC_OK, s') \<and> batch_idle s' \<and> setup_of s' = setup_of s"
proof -
  obtain m s0 es s' where m: "run_ops (cache_data_flush_range (cfg env)) (operand_ranges (dim (info (data s))) tiles) (mem s) = Some m"
    and k: "kicked tiles ds (out_ctrl_of o8 sh) m s0" "set es \<subseteq> sched w" "over (run_events env es s0)"
    and m': "run_ops (cache_data_invd_range (cfg env)) (dest_ranges (tile_bytes s o8) tiles) (mem (run_events env es s0)) = Some (mem s')"
    and run: "gemm_run_batch env w tiles ds o8 sh tmo s = Some (RC_OK, s')" "batch_idle s'" "setup_of s' = setup_of s"
    using batch_runs [OF ok w, of sh] by blast
  define r where "r = run_events env es s0"
  have "0 < hw_sets (cfg env)" using ok by (simp add: batch_ok_def sets_pos)
  then have st: "batch_state env tiles ds (out_ctrl_of o8 sh) w m r"
    unfolding r_def using kicked_state [OF k(1)] k(2) by (rule events_state)
  then obtain M where "\<And>a. drained r a = Some (M a)" using k(3) [folded r_def] by (simp add: batch_state_def over_def) metis
  moreover have "batch_inv (hw_sets (cfg env)) (batch_output env tiles ds o8 sh) w m r"
    using st by (simp add: batch_state_def batch_output_def [abs_def])
  ultimately show ?thesis using m m' run unfolding r_def by blast
qed

text \<open>What the accelerator works on where nothing disturbs the operands.\<close>

lemma settled_operands:
  assumes inv: "batch_inv ns (batch_output env tiles ds o8 sh) w m r" and M: "\<forall>a. drained r a = Some (M a)"
    and a: "settled env w tiles ds o8 sh a" "\<not> dc_dirty_at ns m a"
  shows "M x a = dram m a"
proof -
  have "M x \<in> contents r" using M by (auto simp: contents_def)
  then show ?thesis using a batch_invD(3,4) [OF inv] by (cases "refetched w") (auto simp: settled_def)
qed

lemma gemm_run_batch_coherent_aux:
  assumes ok: "batch_ok env tiles ds o8 s" and w: "completes (poll_mode (data s)) tmo w"
  shows "\<exists>M s'. gemm_run_batch env w tiles ds o8 sh tmo s = Some (RC_OK, s') \<and> batch_idle s' \<and> setup_of s' = setup_of s \<and>
    (\<not> refetched w \<longrightarrow> (\<forall>x. M x = M 0)) \<and>
    (\<forall>x a. outside_driver (cfg env) a \<and> operand_at tiles s a \<and> in_sync (hw_sets (cfg env)) (mem s) a \<and> settled env w tiles ds o8 sh a \<longrightarrow>
       M x a = cpu_view (hw_sets (cfg env)) (mem s) a) \<and>
    (\<forall>x a. outside_driver (cfg env) a \<and> \<not> dc_dirty_at (hw_sets (cfg env)) (mem s) a \<and> settled env w tiles ds o8 sh a \<longrightarrow>
       M x a = dram (mem s) a) \<and>
    (\<forall>a v. outside_driver (cfg env) a \<and> dest_at tiles o8 s a \<and> \<not> dc_dirty_at (hw_sets (cfg env)) (mem s) a \<and> \<not> line_stored w a \<and>
       batch_output env tiles ds o8 sh (M a) a = Some v \<longrightarrow> cpu_view (hw_sets (cfg env)) (mem s') a = v) \<and>
    (\<forall>a. outside_driver (cfg env) a \<and> in_sync (hw_sets (cfg env)) (mem s) a \<and> \<not> stored w a \<and>
       batch_output env tiles ds o8 sh (M a) a = None \<longrightarrow>
       cpu_view (hw_sets (cfg env)) (mem s') a = cpu_view (hw_sets (cfg env)) (mem s) a) \<and>
    (\<forall>a. outside_driver (cfg env) a \<and> \<not> dc_dirty_at (hw_sets (cfg env)) (mem s) a \<and> \<not> line_stored w a \<longrightarrow>
       \<not> dc_dirty_at (hw_sets (cfg env)) (mem s') a \<and>
       (batch_output env tiles ds o8 sh (M a) a = None \<longrightarrow> dram (mem s') a = dram (mem s) a)) \<and>
    (\<forall>a. outside_driver (cfg env) a \<and> in_sync (hw_sets (cfg env)) (mem s) a \<and> \<not> stored w a \<and>
       batch_output env tiles ds o8 sh (M a) a = None \<longrightarrow> in_sync (hw_sets (cfg env)) (mem s') a) \<and>
    (\<forall>a. outside_driver (cfg env) a \<and> dest_at tiles o8 s a \<longrightarrow> \<not> dc_hit (hw_sets (cfg env)) (mem s') a)"
proof -
  have c: "cache_cfg_ok (cfg env)" and ro: "ranges_ok (operand_ranges (dim (info (data s))) tiles)"
    and rd: "ranges_ok (dest_ranges (tile_bytes s o8) tiles)"
    using ok by (simp_all add: batch_ok_def)
  note f = flush_maint [OF c] and i = invd_maint [OF c]
  let ?ns = "hw_sets (cfg env)" and ?R = "batch_output env tiles ds o8 sh"
  obtain m r M s' where m: "run_ops (cache_data_flush_range (cfg env)) (operand_ranges (dim (info (data s))) tiles) (mem s) = Some m"
    and inv: "batch_inv ?ns ?R w m r" and M: "\<forall>a. drained r a = Some (M a)"
    and m': "run_ops (cache_data_invd_range (cfg env)) (dest_ranges (tile_bytes s o8) tiles) (mem r) = Some (mem s')"
    and run: "gemm_run_batch env w tiles ds o8 sh tmo s = Some (RC_OK, s')" "batch_idle s'" "setup_of s' = setup_of s"
    using batch_traced [OF ok w, of sh] by blast
  have res: "result_at ?R r a = ?R (M a) a" for a by (simp add: result_at_def M)
  have clean: "\<not> dc_dirty_at ?ns m a \<and> dram m a = dram (mem s) a" if "outside_driver (cfg env) a" "\<not> dc_dirty_at ?ns (mem s) a" for a
    using cache_maint.run_ops_clean [OF f ro m that] .
  have op: "M x a = cpu_view ?ns (mem s) a"
    if a: "outside_driver (cfg env) a" "operand_at tiles s a" "in_sync ?ns (mem s) a" "settled env w tiles ds o8 sh a" for x a
  proof -
    have "\<not> dc_hit ?ns m a" "dram m a = cpu_view ?ns (mem s) a"
      using cache_maint.run_ops_spec [OF f ro, of "mem s"] cache_maint.run_ops_flush [OF f ro m a(1) _ a(3)] m a(1,2)
      unfolding operand_at_def by (metis option.inject)+
    then show ?thesis using settled_operands [OF inv M a(4), of x] by (simp add: dc_dirty_at_def)
  qed
  have cl: "M x a = dram (mem s) a"
    if "outside_driver (cfg env) a" "\<not> dc_dirty_at ?ns (mem s) a" "settled env w tiles ds o8 sh a" for x a
    using clean [OF that(1,2)] settled_operands [OF inv M that(3)] by metis
  have de: "\<not> dc_dirty_at ?ns (mem s') a \<and> dram (mem s') a = (case ?R (M a) a of None \<Rightarrow> dram (mem s) a | Some v \<Rightarrow> v) \<and>
      (dest_at tiles o8 s a \<longrightarrow> cpu_view ?ns (mem s') a = (case ?R (M a) a of None \<Rightarrow> dram (mem s) a | Some v \<Rightarrow> v))"
    if a: "outside_driver (cfg env) a" "\<not> dc_dirty_at ?ns (mem s) a" "\<not> line_stored w a" for a
  proof -
    have d: "\<not> dc_dirty_at ?ns (mem r) a" "dram (mem r) a = (case ?R (M a) a of None \<Rightarrow> dram (mem s) a | Some v \<Rightarrow> v)"
      using batch_invD(1) [OF inv _ a(3)] clean [OF a(1,2)] by (auto simp: res split: option.splits)
    with cache_maint.run_ops_clean [OF i rd m' a(1) d(1)] cache_maint.run_ops_invd [OF i rd m' a(1) _ d(1)]
    show ?thesis by (simp add: dest_at_def)
  qed
  have fr: "cpu_view ?ns (mem s') a = cpu_view ?ns (mem s) a" "in_sync ?ns (mem s') a"
    if a: "outside_driver (cfg env) a" "in_sync ?ns (mem s) a" "\<not> stored w a" "?R (M a) a = None" for a
    using cache_maint.run_ops_view [OF f ro m a(1,2)] cache_maint.run_ops_view [OF i rd m' a(1)]
      batch_invD(2) [OF inv _ a(3)] a(4) by (metis res)+
  have mi: "\<not> dc_hit ?ns (mem s') a" if "outside_driver (cfg env) a" "dest_at tiles o8 s a" for a
    using cache_maint.run_ops_spec [OF i rd, of "mem r"] m' that by (auto simp: dest_at_def)
  have "M x \<in> contents r" for x using M by (auto simp: contents_def)
  then have re: "M x = M 0" if "\<not> refetched w" for x using batch_invD(3) [OF inv _ that] by metis
  show ?thesis
  proof (intro exI [of _ M] exI [of _ s'] conjI allI impI; (elim conjE)?)
    show "cpu_view ?ns (mem s') a = v" if "outside_driver (cfg env) a" "dest_at tiles o8 s a" "\<not> dc_dirty_at ?ns (mem s) a" "\<not> line_stored w a"
        "?R (M a) a = Some v" for a v using de [OF that(1,3,4)] that(2,5) by simp
    show "dram (mem s') a = dram (mem s) a" if "outside_driver (cfg env) a" "\<not> dc_dirty_at ?ns (mem s) a" "\<not> line_stored w a"
        "?R (M a) a = None" for a using de [OF that(1,2,3)] that(4) by simp
  qed (rule run op cl fr re mi de [THEN conjunct1]; assumption)+
qed

section \<open>Batches that do not complete, and the state between batches\<close>

lemma wait_batch_incomplete:
  assumes "running s" "\<not> completes (poll_mode (data s)) tmo w"
  shows "if poll_mode (data s) \<or> tmo = K_FOREVER then wait_batch env w tmo s = None
    else \<exists>es. wait_batch env w tmo s = Some (False, run_events env es s) \<and> Irq \<notin> set es"
proof (cases "poll_mode (data s) \<or> tmo = K_FOREVER")
  case True
  then have "\<forall>k. Irq \<notin> set (during w k)" using assms(2) by (auto simp: completes_def in_time_def)
  with True show ?thesis using poll_loop_endless [OF assms(1)] sem_take_endless [OF assms(1)] by (auto simp: wait_batch_def)
next
  case False
  then obtain n where n: "tmo = K_MSEC n" by (cases tmo) auto
  then have "\<forall>j. 0 \<le> j \<and> j < 0 + n \<longrightarrow> Irq \<notin> set (during w j)" using assms(2) by (auto simp: completes_def in_time_def)
  from sem_take_timeout [OF assms(1) this, of env] False n show ?thesis by (auto simp: wait_batch_def)
qed

lemma batch_times_out:
  assumes acc: "batch_idle s" "tiles \<noteq> []" "length tiles \<le> 8" "\<not> (o8 \<and> ds \<noteq> 0)" and w: "\<not> completes (poll_mode (data s)) tmo w"
    and m: "run_ops (cache_data_flush_range (cfg env)) (operand_ranges (dim (info (data s))) tiles) (mem s) = Some m"
  shows "if poll_mode (data s) \<or> tmo = K_FOREVER then gemm_run_batch env w tiles ds o8 sh tmo s = None
    else \<exists>s'. gemm_run_batch env w tiles ds o8 sh tmo s = Some (RC_ERR ETIMEDOUT, s') \<and>
      batch_idle s' \<and> \<not> qDone (acc s') \<and> setup_of s' = setup_of s"
proof -
  let ?l = "s\<lparr>data := (data s)\<lparr>locked := True\<rparr>\<rparr>"
  have early: "\<not> list_ex is_Irq (before_look w)" using w by (simp add: completes_def ex_Irq)
  obtain t s1 where s1: "start_batch env w tiles ds o8 sh ?l = Some (t, s1)" "setup_of s1 = setup_of ?l" "running s1"
    using start_batch_run [of env ?l tiles m w ds o8 sh] m acc early by (auto simp: batch_idle_def)
  let ?s1 = "s1\<lparr>clock := Suc (clock s1)\<rparr>"
  have 1: "running ?s1" "poll_mode (data ?s1) = poll_mode (data s)" "setup_of ?s1 = setup_of ?l"
    using s1(2,3) by (simp_all add: running_def setup_of_def)
  note run = gemm_run_batch_phases [OF acc(2-4,1), of env w sh tmo, unfolded s1(1)]
    and wt = wait_batch_incomplete [OF 1(1), of tmo w env, unfolded 1(2), OF w]
  show ?thesis
  proof (cases "poll_mode (data s) \<or> tmo = K_FOREVER")
    case True
    then show ?thesis unfolding run using wt by (auto simp: k_cycle_get_32_def)
  next
    case False
    then obtain es where es: "wait_batch env w tmo ?s1 = Some (False, run_events env es ?s1)" "Irq \<notin> set es" using wt by auto
    define r where "r = run_events env es ?s1"
    have r: "running r" "setup_of r = setup_of ?l" unfolding r_def using events_quiet [OF 1(1) es(2)] 1(3) by simp_all
    from False show ?thesis unfolding run
      using r acc(1) by (simp add: k_cycle_get_32_def es(1) r_def [symmetric] k_mutex_unlock_def wr_def acc_write_def reg_defs
          CTRL_SOFT_RST_def bit_simps setup_of_def running_def batch_idle_def)
  qed
qed

lemma submit_tiles_Cons:
  "submit_tiles env (t # ts) fl s = do {
     let n = operand_bytes s t;
     let s0 = s\<lparr>clock := Suc (clock s)\<rparr>;
     s1 \<leftarrow> (if \<not> src_coherent t \<and> \<not> b_only t \<and> a_src t \<noteq> 0 then flush env (a_src t) n s0 else Some s0);
     s2 \<leftarrow> (if b_src t \<noteq> 0 then flush env (b_src t) n s1 else Some s1);
     submit_tiles env ts (fl + (ticks env (clock s2) - ticks env (clock s)))
       (push_tile t (s2\<lparr>clock := Suc (clock s2)\<rparr>))
   }"
  by (simp add: k_cycle_get_32_def Let_def)

lemma submit_tiles_flushes:
  "submit_tiles env ts fl s = Some r \<Longrightarrow>
   \<exists>m. run_ops (cache_data_flush_range (cfg env)) (operand_ranges (dim (info (data s))) ts) (mem s) = Some m"
proof (induction ts arbitrary: fl s)
  case (Cons t ts)
  have f: "\<exists>m. run_ops (cache_data_flush_range (cfg env)) (if c then [(a, n)] else []) (mem s) = Some m \<and>
      s' = s\<lparr>mem := m\<rparr>" if "(if c then flush env a n s else Some s) = Some s'" for c a n s s'
    using that by (auto simp: flush_def bind_eq_Some_conv split: if_splits)
  let ?n = "operand_bytes s t" and ?s0 = "s\<lparr>clock := Suc (clock s)\<rparr>"
  obtain s1 s2 fl' where
    a: "(if \<not> src_coherent t \<and> \<not> b_only t \<and> a_src t \<noteq> 0 then flush env (a_src t) ?n ?s0 else Some ?s0) = Some s1"
    and b: "(if b_src t \<noteq> 0 then flush env (b_src t) ?n s1 else Some s1) = Some s2"
    and rest: "submit_tiles env ts fl' (push_tile t (s2\<lparr>clock := Suc (clock s2)\<rparr>)) = Some r"
    using Cons.prems unfolding submit_tiles_Cons Let_def bind_eq_Some_conv by blast
  have "data s2 = data s" "mem (push_tile t (s2\<lparr>clock := Suc (clock s2)\<rparr>)) = mem s2"
    using f [OF a] f [OF b] by (auto simp: push_tile_acc)
  with Cons.IH [OF rest] f [OF a] f [OF b] show ?case
    by (auto simp: operand_ranges_def tile_operands_def run_ops_append operand_bytes_def push_tile_acc
        bind_eq_Some_conv split: if_splits)
qed (simp add: operand_ranges_def)

lemma invd_tiles_walks:
  "invd_tiles env ts n s = Some r \<Longrightarrow>
   \<exists>m. run_ops (cache_data_invd_range (cfg env)) (dest_ranges n ts) (mem s) = Some m"
proof (induction ts arbitrary: s)
  case (Cons t ts)
  then show ?case
    by (fastforce simp: dest_ranges_def invd_def bind_eq_Some_conv split: if_splits)
qed (simp add: dest_ranges_def)

lemma finish_batch_walks:
  "finish_batch env tiles o8 t tm s = Some r \<Longrightarrow>
   \<exists>m. run_ops (cache_data_invd_range (cfg env)) (dest_ranges (tile_bytes s o8) tiles) (mem s) = Some m"
  by (auto simp: finish_batch_def k_cycle_get_32_def Let_def bind_eq_Some_conv tile_bytes_def
      dest: invd_tiles_walks split: if_splits)

lemma gemm_run_batch_rejects:
  assumes "batch_idle s" "tiles = [] \<or> 8 < length tiles \<or> o8 \<and> ds \<noteq> 0"
  shows "gemm_run_batch env w tiles ds o8 sh tmo s =
    Some (RC_ERR (if tiles \<noteq> [] \<and> 8 < length tiles then EBUSY else EINVAL), s)"
  using assms by (auto simp: gemm_run_batch_def batch_idle_def rd_def acc_read_def reg_defs)

lemma gemm_run_batch_idle_aux:
  assumes idle: "batch_idle s" and run: "gemm_run_batch env w tiles ds o8 sh tmo s = Some (r, s')"
  shows "batch_idle s' \<and> setup_of s' = setup_of s \<and>
    (if tiles = [] \<or> 8 < length tiles \<or> o8 \<and> ds \<noteq> 0
     then s' = s \<and> r = (if tiles \<noteq> [] \<and> 8 < length tiles then RC_ERR EBUSY else RC_ERR EINVAL)
     else r = (if completes (poll_mode (data s)) tmo w then RC_OK else RC_ERR ETIMEDOUT))"
proof (cases "tiles = [] \<or> 8 < length tiles \<or> o8 \<and> ds \<noteq> 0")
  case True
  with run idle gemm_run_batch_rejects [OF idle True] show ?thesis by auto
next
  case False
  then have acc: "tiles \<noteq> []" "length tiles \<le> 8" "\<not> (o8 \<and> ds \<noteq> 0)" by auto
  obtain t s1 where "start_batch env w tiles ds o8 sh (s\<lparr>data := (data s)\<lparr>locked := True\<rparr>\<rparr>) = Some (t, s1)"
    using run unfolding gemm_run_batch_phases [OF acc idle] by (auto simp: bind_eq_Some_conv)
  then obtain m where m: "run_ops (cache_data_flush_range (cfg env)) (operand_ranges (dim (info (data s))) tiles) (mem s) = Some m"
    by (auto simp: start_batch_def k_cycle_get_32_def Let_def bind_eq_Some_conv dest!: submit_tiles_flushes)
  show ?thesis
  proof (cases "completes (poll_mode (data s)) tmo w")
    case w: False
    with batch_times_out [OF idle acc w m, of sh] run False show ?thesis by (auto split: if_splits)
  next
    case w: True
    obtain t tm s0 s2 es where fin: "gemm_run_batch env w tiles ds o8 sh tmo s =
        do { s3 \<leftarrow> finish_batch env tiles o8 t tm s2; Some (RC_OK, k_mutex_unlock s3) }"
      and s2: "core s2 = core (run_events env es s0)" "over (run_events env es s0)" "setup_of (k_mutex_unlock s2) = setup_of s"
      using batch_reaches_finish [OF idle acc w m, of sh] by blast
    obtain s3 where "finish_batch env tiles o8 t tm s2 = Some s3" using fin run by (metis bind_eq_Some_conv)
    from finish_batch_walks [OF this] obtain m' where
      "run_ops (cache_data_invd_range (cfg env)) (dest_ranges (tile_bytes s2 o8) tiles) (mem s2) = Some m'" by blast
    moreover have "tile_bytes s2 o8 = tile_bytes s o8" "mem s2 = mem (run_events env es s0)"
      using s2 by (simp_all add: tile_bytes_def setup_of_def k_mutex_unlock_def core_def)
    ultimately have "run_ops (cache_data_invd_range (cfg env)) (dest_ranges (tile_bytes s o8) tiles) (mem (run_events env es s0)) = Some m'"
      by simp
    from batch_finishes [OF fin s2 this] run False w show ?thesis by auto
  qed
qed

section \<open>Staged operands\<close>

definition staged_ranges :: "u8 \<Rightarrow> gemm_tile list \<Rightarrow> (u32 \<times> u32) list" where
  "staged_ranges d ts = concat (map (\<lambda>t.
     (if a_src t \<noteq> 0 then [(a_src t, ucast d * ucast (k_len t))] else []) @
     (if b_src t \<noteq> 0 then [(b_src t, ucast d * ucast (k_len t))] else [])) ts)"

lemma flush_tiles_run:
  "run_ops (cache_data_flush_range (cfg env)) (staged_ranges (dim (info (data s))) ts) (mem s) = Some m \<Longrightarrow>
   flush_tiles env ts s = Some (s\<lparr>mem := m\<rparr>)"
proof (induction ts arbitrary: s)
  case (Cons t ts)
  let ?F = "run_ops (cache_data_flush_range (cfg env))" and ?n = "operand_bytes s t"
  obtain m1 m2 where m1: "?F (if a_src t \<noteq> 0 then [(a_src t, ?n)] else []) (mem s) = Some m1"
      and m2: "?F (if b_src t \<noteq> 0 then [(b_src t, ?n)] else []) m1 = Some m2"
      and m: "?F (staged_ranges (dim (info (data s))) ts) m2 = Some m"
    using Cons.prems unfolding staged_ranges_def operand_bytes_def
    by (simp add: run_ops_append bind_eq_Some_conv del: run_ops.simps(2)) blast
  have "(if a_src t \<noteq> 0 then flush env (a_src t) ?n s else Some s) = Some (s\<lparr>mem := m1\<rparr>)"
    by (rule opt_flush [OF m1])
  moreover have "(if b_src t \<noteq> 0 then flush env (b_src t) ?n (s\<lparr>mem := m1\<rparr>) else Some (s\<lparr>mem := m1\<rparr>)) =
      Some (s\<lparr>mem := m1\<rparr>\<lparr>mem := m2\<rparr>)"
    by (rule opt_flush) (use m2 in simp)
  ultimately show ?case using Cons.IH [of "s\<lparr>mem := m2\<rparr>"] m by (simp add: Let_def)
qed (simp add: staged_ranges_def)

lemma gemm_flush_operands_aux:
  assumes c: "cache_cfg_ok (cfg env)" and r: "ranges_ok (staged_ranges (dim (info (data s))) tiles)" and "tiles \<noteq> []"
  shows "\<exists>m. gemm_flush_operands env tiles s = Some (RC_OK, s\<lparr>mem := m\<rparr>) \<and>
    (\<forall>a. outside_driver (cfg env) a \<and> covered (staged_ranges (dim (info (data s))) tiles) a \<and>
       in_sync (hw_sets (cfg env)) (mem s) a \<longrightarrow>
       dram m a = cpu_view (hw_sets (cfg env)) (mem s) a \<and> \<not> dc_hit (hw_sets (cfg env)) m a) \<and>
    (\<forall>a. outside_driver (cfg env) a \<and> \<not> dc_dirty_at (hw_sets (cfg env)) (mem s) a \<longrightarrow>
       \<not> dc_dirty_at (hw_sets (cfg env)) m a)"
proof -
  obtain m where m: "run_ops (cache_data_flush_range (cfg env)) (staged_ranges (dim (info (data s))) tiles) (mem s) = Some m"
      "\<forall>a. outside_driver (cfg env) a \<and> (\<not> dc_hit (hw_sets (cfg env)) (mem s) a \<or>
        covered (staged_ranges (dim (info (data s))) tiles) a) \<longrightarrow> \<not> dc_hit (hw_sets (cfg env)) m a"
    using cache_maint.run_ops_spec [OF flush_maint [OF c] r, of "mem s"] by blast
  show ?thesis
    using assms(3) flush_tiles_run [OF m(1)] m(2) cache_maint.run_ops_flush [OF flush_maint [OF c] r m(1)]
      cache_maint.run_ops_clean [OF flush_maint [OF c] r m(1)]
    by (intro exI [of _ m]) (simp add: gemm_flush_operands_def)
qed


text \<open>What a program does between staging its operands and using them: accesses of the CPU, and batches.\<close>

datatype session_step = Access access | Batch wait "gemm_tile list" u32 bool u8 k_timeout

fun session :: "gemm_env \<Rightarrow> session_step list \<Rightarrow> gemm_sys \<Rightarrow> gemm_sys option" where
  "session env [] s = Some s"
| "session env (Access x # xs) s = session env xs (s\<lparr>mem := dc_access (hw_sets (cfg env)) x (mem s)\<rparr>)"
| "session env (Batch w ts ds o8 sh tmo # xs) s = do { (_, s) \<leftarrow> gemm_run_batch env w ts ds o8 sh tmo s; session env xs s }"

definition session_ok :: "gemm_env \<Rightarrow> gemm_sys \<Rightarrow> session_step list \<Rightarrow> bool" where
  "session_ok env s xs \<longleftrightarrow> (\<forall>x \<in> set xs. case x of Access _ \<Rightarrow> True
     | Batch w ts ds o8 sh tmo \<Rightarrow> batch_ok env ts ds o8 s \<and> completes (poll_mode (data s)) tmo w)"

text \<open>Nobody stores to the line of \<open>a\<close>; and no batch has a result at \<open>a\<close> either.\<close>

definition unwritten :: "session_step list \<Rightarrow> nat \<Rightarrow> bool" where
  "unwritten xs a \<longleftrightarrow> (\<forall>x \<in> set xs. case x of Access y \<Rightarrow> (case y of Load _ \<Rightarrow> True | Store b _ \<Rightarrow> b div 16 \<noteq> a div 16)
     | Batch w ts ds o8 sh tmo \<Rightarrow> \<not> line_stored w a)"

definition spared :: "gemm_env \<Rightarrow> session_step list \<Rightarrow> nat \<Rightarrow> bool" where
  "spared env xs a \<longleftrightarrow> unwritten xs a \<and> (\<forall>x \<in> set xs. case x of Access _ \<Rightarrow> True
     | Batch w ts ds o8 sh tmo \<Rightarrow> (\<forall>c. batch_output env ts ds o8 sh c a = None))"

lemma batch_ok_cong: "batch_ok env tiles ds o8 s \<Longrightarrow> batch_idle s' \<Longrightarrow> setup_of s' = setup_of s \<Longrightarrow> batch_ok env tiles ds o8 s'"
  by (simp add: batch_ok_def tile_bytes_def setup_of_def)

lemma session_ok_cong: "session_ok env s xs \<Longrightarrow> batch_idle s' \<Longrightarrow> setup_of s' = setup_of s \<Longrightarrow> session_ok env s' xs"
  unfolding session_ok_def using batch_ok_cong [of env _ _ _ s s']
  by (auto simp: setup_of_def split: session_step.splits)

lemma session_keeps:
  "0 < hw_sets (cfg env) \<Longrightarrow> session_ok env s xs \<Longrightarrow> batch_idle s \<Longrightarrow>
   \<exists>s'. session env xs s = Some s' \<and> batch_idle s' \<and> setup_of s' = setup_of s \<and>
     (\<forall>a. outside_driver (cfg env) a \<and> \<not> dc_dirty_at (hw_sets (cfg env)) (mem s) a \<and> unwritten xs a \<longrightarrow>
        \<not> dc_dirty_at (hw_sets (cfg env)) (mem s') a \<and> (spared env xs a \<longrightarrow> dram (mem s') a = dram (mem s) a))"
proof (induction env xs s rule: session.induct)
  case (2 env x xs s)
  let ?s = "s\<lparr>mem := dc_access (hw_sets (cfg env)) x (mem s)\<rparr>"
  have s: "batch_idle ?s" "setup_of ?s = setup_of s" using "2.prems"(3) by (simp_all add: batch_idle_def setup_of_def)
  have "session_ok env s xs" using "2.prems"(2) by (simp add: session_ok_def)
  from "2.IH" [OF "2.prems"(1) session_ok_cong [OF this s] s(1)] obtain s' where
    s': "session env xs ?s = Some s'" "batch_idle s'" "setup_of s' = setup_of s"
      "\<forall>a. outside_driver (cfg env) a \<and> \<not> dc_dirty_at (hw_sets (cfg env)) (mem ?s) a \<and> unwritten xs a \<longrightarrow>
        \<not> dc_dirty_at (hw_sets (cfg env)) (mem s') a \<and> (spared env xs a \<longrightarrow> dram (mem s') a = dram (mem ?s) a)"
    using s(2) by auto
  have "\<not> dc_dirty_at (hw_sets (cfg env)) (mem ?s) a \<and> dram (mem ?s) a = dram (mem s) a \<and> unwritten xs a \<and> (spared env (Access x # xs) a \<longrightarrow> spared env xs a)"
    if "\<not> dc_dirty_at (hw_sets (cfg env)) (mem s) a" "unwritten (Access x # xs) a" for a
    using access_clean [OF "2.prems"(1) that(1), of x] that(2) by (auto simp: unwritten_def spared_def split: access.splits)
  with s' show ?case by auto
next
  case (3 env w ts ds o8 sh tmo xs s)
  have ok: "batch_ok env ts ds o8 s" "completes (poll_mode (data s)) tmo w" "session_ok env s xs"
    using "3.prems"(2) by (simp_all add: session_ok_def)
  obtain M s1 where s1: "gemm_run_batch env w ts ds o8 sh tmo s = Some (RC_OK, s1)" "batch_idle s1" "setup_of s1 = setup_of s"
      "\<forall>a. outside_driver (cfg env) a \<and> \<not> dc_dirty_at (hw_sets (cfg env)) (mem s) a \<and> \<not> line_stored w a \<longrightarrow>
        \<not> dc_dirty_at (hw_sets (cfg env)) (mem s1) a \<and>
        (batch_output env ts ds o8 sh (M a) a = None \<longrightarrow> dram (mem s1) a = dram (mem s) a)"
    using gemm_run_batch_coherent_aux [OF ok(1,2), of sh] by (elim exE conjE) (rule that; assumption)
  from "3.IH" [OF s1(1) _ "3.prems"(1) session_ok_cong [OF ok(3) s1(2,3)] s1(2)] obtain s' where
    s': "session env xs s1 = Some s'" "batch_idle s'" "setup_of s' = setup_of s1"
      "\<forall>a. outside_driver (cfg env) a \<and> \<not> dc_dirty_at (hw_sets (cfg env)) (mem s1) a \<and> unwritten xs a \<longrightarrow>
        \<not> dc_dirty_at (hw_sets (cfg env)) (mem s') a \<and> (spared env xs a \<longrightarrow> dram (mem s') a = dram (mem s1) a)" by auto
  have "\<not> dc_dirty_at (hw_sets (cfg env)) (mem s') a \<and> (spared env (Batch w ts ds o8 sh tmo # xs) a \<longrightarrow> dram (mem s') a = dram (mem s) a)"
    if a: "outside_driver (cfg env) a" "\<not> dc_dirty_at (hw_sets (cfg env)) (mem s) a" "unwritten (Batch w ts ds o8 sh tmo # xs) a" for a
  proof -
    have "\<not> line_stored w a" "unwritten xs a" using a(3) by (simp_all add: unwritten_def)
    with a(1,2) s1(4) s'(4) show ?thesis by (auto simp: spared_def)
  qed
  with s1 s' show ?case by auto
qed simp

section \<open>A demonstration\<close>

text \<open>
  A board whose accelerator multiplies the first bytes of a tile's panels, and memory
  in which the CPU has just written those operands.
\<close>

definition demo_results :: "descriptor list \<Rightarrow> u32 \<Rightarrow> u32 \<Rightarrow> (nat \<Rightarrow> u8) \<Rightarrow> nat \<Rightarrow> u8 option" where
  "demo_results qs ds oc d a =
     (case qs of (x, y, z, _) # _ \<Rightarrow>
        (if a = unat z \<or> a = unat (z + ds) then Some (d (unat x) * d (unat y)) else None)
      | [] \<Rightarrow> None)"

definition demo_env :: gemm_env where
  "demo_env = \<lparr>cfg = board_cfg, ticks = word_of_nat, info_reg = 0x00041008, results = demo_results\<rparr>"

definition demo_tile :: gemm_tile where
  "demo_tile = \<lparr>a_src = 0x00180000, b_src = 0x00180040, dest = 0x00180100, k_len = 4, panel_use = 1,
     panel_load = 0, b_only = False, src_coherent = False\<rparr>"

definition demo_mem :: dcsys where
  "demo_mem = dc_store8 1024 0x00180040 7 (dc_store8 1024 0x00180000 6 cold_cache)"

definition demo_gemm :: gemm_sys where
  "demo_gemm =
     \<lparr>data = \<lparr>done_count = 0, locked = False, info = \<lparr>dim = 8, max_k = 16, panels = 4\<rparr>, stats = zero_stats,
        poll_mode = False, t_isr = 0, isr_fired = False\<rparr>,
      acc = \<lparr>descA = 0, descB = 0, descD = 0, destStride = 0, outCtrl = 0, descQ = [], qBusy = False,
        qDone = False, qOverflow = False\<rparr>,
      mem = demo_mem, clock = 0, irq_unmasked = True, fetched = (\<lambda>_. 0), drained = (\<lambda>_. None)\<rparr>"

text \<open>
  Schedules: the interrupt before the driver looks; nothing at all; and one in which another thread reads the destination
  and stores elsewhere while operands are read again and results trickle out.
\<close>

definition early_wait :: wait where "early_wait = \<lparr>before_look = [Irq], during = (\<lambda>_. [])\<rparr>"
definition never_wait :: wait where "never_wait = \<lparr>before_look = [], during = (\<lambda>_. [])\<rparr>"

definition demo_wait :: wait where
  "demo_wait = \<lparr>before_look = [Cpu (Load 0x00180100), Fetch (\<lambda>_. True)],
     during = (\<lambda>k. if k = 3 then [Drain even, Cpu (Load 0x00180104), Cpu (Store 0x00190000 9), Irq] else [])\<rparr>"

lemma demo_sched:
  "sched early_wait = {Irq}" "sched never_wait = {}"
  "sched demo_wait = {Cpu (Load 0x00180100), Fetch (\<lambda>_. True), Drain even, Cpu (Load 0x00180104), Cpu (Store 0x00190000 9), Irq}"
  by (auto simp: sched_def early_wait_def never_wait_def demo_wait_def split: if_splits)

lemma demo_completes:
  "completes p tmo early_wait" "\<not> completes p tmo never_wait" "completes p K_FOREVER demo_wait" "3 < n \<Longrightarrow> completes p (K_MSEC n) demo_wait"
  by (auto simp: completes_def early_wait_def never_wait_def demo_wait_def in_time_def)

lemmas demo_defs = demo_env_def demo_tile_def demo_gemm_def board_cfg_def

lemma demo_batch_ok: "\<not> (o8 \<and> ds \<noteq> 0) \<Longrightarrow> batch_ok demo_env [demo_tile] ds o8 demo_gemm"
  using board_cfg_ok
  by (auto simp: batch_ok_def batch_idle_def ranges_ok_def operand_ranges_def tile_operands_def dest_ranges_def
      tile_bytes_def maint_range_def demo_env_def demo_tile_def demo_gemm_def)

lemma demo_mem_views:
  "in_sync 1024 demo_mem a" "cpu_view 1024 demo_mem 0x00180000 = 6" "cpu_view 1024 demo_mem 0x00180040 = 7"
  "a \<noteq> 0x00180000 \<Longrightarrow> a \<noteq> 0x00180040 \<Longrightarrow> cpu_view 1024 demo_mem a = 0"
  "dc_dirty_at 1024 demo_mem a \<longleftrightarrow> a div 16 = 0x00180000 div 16 \<or> a div 16 = 0x00180040 div 16"
proof -
  have 0: "in_sync 1024 cold_cache a" "\<not> dc_dirty_at 1024 cold_cache a" for a
    by (simp_all add: in_sync_def dc_hit_def dc_dirty_at_def cold_cache_def)
  then have 1: "in_sync 1024 (dc_store8 1024 0x00180000 6 cold_cache) a" for a by (simp add: in_sync_store8)
  then show "in_sync 1024 demo_mem a" by (simp add: demo_mem_def in_sync_store8)
  show "cpu_view 1024 demo_mem 0x00180000 = 6" "cpu_view 1024 demo_mem 0x00180040 = 7"
    using 0 1 by (simp_all add: demo_mem_def view_store8)
  have "cpu_view 1024 cold_cache a = 0" by (simp add: cpu_view_def dc_hit_def cold_cache_def)
  then show "a \<noteq> 0x00180000 \<Longrightarrow> a \<noteq> 0x00180040 \<Longrightarrow> cpu_view 1024 demo_mem a = 0"
    using 0 1 by (simp add: demo_mem_def view_store8)
  show "dc_dirty_at 1024 demo_mem a \<longleftrightarrow> a div 16 = 0x00180000 div 16 \<or> a div 16 = 0x00180040 div 16"
    using 0 by (auto simp: demo_mem_def dirty_at_store8 dirty_at_refill hit_store8 hit_refill dc_hit_def cold_cache_def m_idx_def)
qed

section \<open>Properties of the driver\<close>

text \<open>
  C2. Coherence of a batch, sleeping or polling, under any schedule of what the accelerator and other threads do during the wait that lets it
  complete in time: the call returns 0 and leaves the driver ready for the next batch; for every result byte there is a
  content of memory from which the accelerator computed it (one for all, unless operands are read again during the wait) that held what the CPU had written in every operand byte
  the driver flushes, and was unchanged wherever no dirty line was, as long as nobody stores to the line and no result goes there while operands are read again.
  Afterwards the CPU reads the device's results in every destination byte that was not dirty and whose line nobody stored to,
  and what it read before everywhere the device did not write and nobody stored.
\<close>

theorem gemm_run_batch_coherent:
  assumes "batch_ok env tiles ds o8 s" "completes (poll_mode (data s)) tmo w"
  shows "\<exists>M s'. gemm_run_batch env w tiles ds o8 sh tmo s = Some (RC_OK, s') \<and> batch_idle s' \<and> setup_of s' = setup_of s \<and>
    (\<not> refetched w \<longrightarrow> (\<forall>x. M x = M 0)) \<and>
    (\<forall>x a. outside_driver (cfg env) a \<and> operand_at tiles s a \<and> in_sync (hw_sets (cfg env)) (mem s) a \<and> settled env w tiles ds o8 sh a \<longrightarrow>
       M x a = cpu_view (hw_sets (cfg env)) (mem s) a) \<and>
    (\<forall>x a. outside_driver (cfg env) a \<and> \<not> dc_dirty_at (hw_sets (cfg env)) (mem s) a \<and> settled env w tiles ds o8 sh a \<longrightarrow>
       M x a = dram (mem s) a) \<and>
    (\<forall>a v. outside_driver (cfg env) a \<and> dest_at tiles o8 s a \<and> \<not> dc_dirty_at (hw_sets (cfg env)) (mem s) a \<and> \<not> line_stored w a \<and>
       batch_output env tiles ds o8 sh (M a) a = Some v \<longrightarrow> cpu_view (hw_sets (cfg env)) (mem s') a = v) \<and>
    (\<forall>a. outside_driver (cfg env) a \<and> in_sync (hw_sets (cfg env)) (mem s) a \<and> \<not> stored w a \<and>
       batch_output env tiles ds o8 sh (M a) a = None \<longrightarrow>
       cpu_view (hw_sets (cfg env)) (mem s') a = cpu_view (hw_sets (cfg env)) (mem s) a)"
  using gemm_run_batch_coherent_aux [OF assms, of sh] by (elim exE conjE) (intro exI conjI; assumption)

theorem gemm_run_batch_coherent_witness:
  "\<exists>s'. gemm_run_batch demo_env demo_wait [demo_tile] 0 False 0 (K_MSEC 500) demo_gemm = Some (RC_OK, s') \<and>
     cpu_view 1024 (mem s') 0x00180100 = 42"
proof -
  have ns: "hw_sets (cfg demo_env) = 1024" and mem: "mem demo_gemm = demo_mem" by (simp_all add: demo_defs)
  have out: "outside_driver (cfg demo_env) a" if "a \<in> {0x00180000, 0x00180040, 0x00180100}" for a
    using that by (auto simp: outside_driver_def demo_defs)
  have at: "operand_at [demo_tile] demo_gemm 0x00180000" "operand_at [demo_tile] demo_gemm 0x00180040"
    "dest_at [demo_tile] False demo_gemm 0x00180100" "\<not> dc_dirty_at 1024 demo_mem 0x00180100"
    by (simp_all add: operand_at_def dest_at_def covered_def in_range_def operand_ranges_def tile_operands_def
        dest_ranges_def tile_bytes_def demo_tile_def demo_gemm_def demo_mem_views)
  have fin: "batch_output demo_env [demo_tile] 0 False 0 c 0x00180100 = Some 42" if "c 0x00180000 = 6" "c 0x00180040 = 7" for c
    using that by (simp add: batch_output_def demo_results_def desc_of_def demo_env_def demo_tile_def)
  have st: "settled demo_env demo_wait [demo_tile] 0 False 0 0x00180000" "settled demo_env demo_wait [demo_tile] 0 False 0 0x00180040"
    "\<not> line_stored demo_wait 0x00180100"
    by (auto simp: settled_def line_stored_def demo_sched batch_output_def demo_results_def desc_of_def demo_env_def demo_tile_def)
  obtain M s' where "gemm_run_batch demo_env demo_wait [demo_tile] 0 False 0 (K_MSEC 500) demo_gemm = Some (RC_OK, s')"
    and M: "\<forall>x a. outside_driver (cfg demo_env) a \<and> operand_at [demo_tile] demo_gemm a \<and> in_sync 1024 demo_mem a \<and>
      settled demo_env demo_wait [demo_tile] 0 False 0 a \<longrightarrow> M x a = cpu_view 1024 demo_mem a"
    and v: "\<forall>a v. outside_driver (cfg demo_env) a \<and> dest_at [demo_tile] False demo_gemm a \<and> \<not> dc_dirty_at 1024 demo_mem a \<and>
      \<not> line_stored demo_wait a \<and> batch_output demo_env [demo_tile] 0 False 0 (M a) a = Some v \<longrightarrow> cpu_view 1024 (mem s') a = v"
    using gemm_run_batch_coherent [OF demo_batch_ok [of False 0] demo_completes(4) [of 500], of 0, unfolded ns mem] by auto
  moreover have "M x 0x00180000 = 6" "M x 0x00180040 = 7" for x using M out at st demo_mem_views(1-3) by auto
  then have "cpu_view 1024 (mem s') 0x00180100 = 42" using v out at(3,4) st(3) fin by auto
  ultimately show ?thesis by blast
qed

text \<open>
  C24. Every return of \<^verbatim>\<open>gemm_run_batch\<close>: from a ready driver, whatever the arguments, the timeout,
  the hardware and other threads do, a call that returns leaves the driver ready again (lock free,
  queue empty and stopped) with its settings unchanged; a rejected call changes
  nothing at all, and the code tells exactly what happened, a timeout if and only if the completion did not arrive in time.
\<close>

theorem gemm_run_batch_idle:
  assumes "batch_idle s" "gemm_run_batch env w tiles ds o8 sh tmo s = Some (r, s')"
  shows "batch_idle s' \<and> setup_of s' = setup_of s \<and>
    (if tiles = [] \<or> 8 < length tiles \<or> o8 \<and> ds \<noteq> 0
     then s' = s \<and> r = (if tiles \<noteq> [] \<and> 8 < length tiles then RC_ERR EBUSY else RC_ERR EINVAL)
     else r = (if completes (poll_mode (data s)) tmo w then RC_OK else RC_ERR ETIMEDOUT))"
  using assms by (rule gemm_run_batch_idle_aux)

theorem gemm_run_batch_idle_witness:
  "gemm_run_batch demo_env early_wait [demo_tile] 4 True 0 K_FOREVER demo_gemm = Some (RC_ERR EINVAL, demo_gemm) \<and> batch_idle demo_gemm"
proof -
  have "gemm_run_batch demo_env early_wait [demo_tile] 4 True 0 K_FOREVER demo_gemm = Some (RC_ERR EINVAL, demo_gemm)"
    "batch_idle demo_gemm"
    by (simp_all add: gemm_run_batch_def rd_def acc_read_def reg_defs demo_defs batch_idle_def)
  then show ?thesis using gemm_run_batch_idle [of demo_gemm demo_env early_wait "[demo_tile]" 4 True 0 K_FOREVER] by simp
qed

text \<open>
  C26. A batch whose completion does not arrive in time, whatever else happens meanwhile: a sleeping caller with a finite timeout gets
  \<^verbatim>\<open>-ETIMEDOUT\<close> with the hardware reset, its queue empty, no completion pending and the lock released; a
  sleeping caller with \<^verbatim>\<open>K_FOREVER\<close> never returns, and a polling caller never returns whatever the timeout.
\<close>

theorem gemm_run_batch_never:
  assumes "batch_ok env tiles ds o8 s" "\<not> completes (poll_mode (data s)) tmo w"
  shows "if poll_mode (data s) \<or> tmo = K_FOREVER then gemm_run_batch env w tiles ds o8 sh tmo s = None
    else \<exists>s'. gemm_run_batch env w tiles ds o8 sh tmo s = Some (RC_ERR ETIMEDOUT, s') \<and>
      batch_idle s' \<and> \<not> qDone (acc s') \<and> setup_of s' = setup_of s"
proof -
  note b = assms(1) [unfolded batch_ok_def]
  obtain m where "run_ops (cache_data_flush_range (cfg env)) (operand_ranges (dim (info (data s))) tiles) (mem s) = Some m"
    using cache_maint.run_ops_spec [OF flush_maint] b by meson
  from batch_times_out [OF _ _ _ _ assms(2) this, of o8 ds sh] b show ?thesis by (auto split: if_splits)
qed

theorem gemm_run_batch_never_witness:
  "(\<exists>s'. gemm_run_batch demo_env never_wait [demo_tile] 0 False 0 (K_MSEC 500) demo_gemm = Some (RC_ERR ETIMEDOUT, s') \<and> batch_idle s') \<and>
   gemm_run_batch demo_env never_wait [demo_tile] 0 False 0 K_FOREVER demo_gemm = None"
  using gemm_run_batch_never [OF demo_batch_ok [of False 0] demo_completes(2) [of _ "K_MSEC 500"], of 0]
    gemm_run_batch_never [OF demo_batch_ok [of False 0] demo_completes(2) [of _ K_FOREVER], of 0] by (auto simp: demo_gemm_def)

lemma run_flush_same_set:
  "cache_cfg_ok c \<Longrightarrow> ranges_ok rs \<Longrightarrow> \<forall>r \<in> set rs. off_sets c i r \<Longrightarrow>
   run_ops (cache_data_flush_range c) rs s = Some t \<Longrightarrow> same_set i s t"
proof (induction rs arbitrary: s)
  case (Cons r rs)
  then obtain c1 s1 where s1: "cache_data_flush_range c (fst r) (snd r) s = Some (c1, s1)"
      "run_ops (cache_data_flush_range c) rs s1 = Some t"
    by (auto simp: bind_eq_Some_conv)
  have "same_set i s s1" using Cons.prems s1(1) by (intro flush_range_same_set) (auto simp: ranges_ok_def)
  moreover have "same_set i s1 t" using Cons s1(2) by (auto simp: ranges_ok_def)
  ultimately show ?case by (rule same_set_trans)
qed simp

text \<open>
  C28. The destination pass walks only the contiguous bytes from each tile's
  destination. A result byte outside them, as the rows of a strided result are, that was in the
  cache before the batch, and whose set no walk and no other thread's access disturbs, is read as
  it was before the batch, whatever the accelerator wrote there.
\<close>

theorem strided_result_stale:
  assumes "batch_ok env tiles ds o8 s" "completes (poll_mode (data s)) tmo w" "dc_hit (hw_sets (cfg env)) (mem s) a"
    and "off_set (hw_sets (cfg env)) (m_idx (hw_sets (cfg env)) a) w"
    and "\<forall>r \<in> set (operand_ranges (dim (info (data s))) tiles @ dest_ranges (tile_bytes s o8) tiles).
      off_sets (cfg env) (m_idx (hw_sets (cfg env)) a) r"
  shows "\<exists>s'. gemm_run_batch env w tiles ds o8 sh tmo s = Some (RC_OK, s') \<and>
    cpu_view (hw_sets (cfg env)) (mem s') a = cpu_view (hw_sets (cfg env)) (mem s) a"
proof -
  note ok = assms(1) [unfolded batch_ok_def]
  obtain m s0 es s' where m: "run_ops (cache_data_flush_range (cfg env)) (operand_ranges (dim (info (data s))) tiles) (mem s) = Some m"
    and k: "kicked tiles ds (out_ctrl_of o8 sh) m s0" "set es \<subseteq> sched w"
    and m': "run_ops (cache_data_invd_range (cfg env)) (dest_ranges (tile_bytes s o8) tiles) (mem (run_events env es s0)) = Some (mem s')"
    and run: "gemm_run_batch env w tiles ds o8 sh tmo s = Some (RC_OK, s')"
    using batch_runs [OF assms(1,2), of sh] by blast
  have "same_set (m_idx (hw_sets (cfg env)) a) (mem s) m"
    using ok assms(5) by (intro run_flush_same_set [OF _ _ _ m]) auto
  moreover have "same_set (m_idx (hw_sets (cfg env)) a) m (mem (run_events env es s0))"
    using events_same_set [OF assms(4) k(2), of s0] k(1) by (simp add: kicked_def)
  moreover have "same_set (m_idx (hw_sets (cfg env)) a) (mem (run_events env es s0)) (mem s')"
    using ok assms(5) by (intro run_flush_same_set [OF _ _ _ m' [unfolded invd_is_flush]]) auto
  ultimately have "same_set (m_idx (hw_sets (cfg env)) a) (mem s) (mem s')"
    using same_set_trans by blast
  with run assms(3) show ?thesis using same_set_view by blast
qed

theorem strided_result_stale_witness:
  "\<exists>s'. gemm_run_batch demo_env early_wait [demo_tile] 1024 False 0 K_FOREVER
       (demo_gemm\<lparr>mem := snd (dc_load8 1024 0x00180500 demo_mem)\<rparr>) = Some (RC_OK, s') \<and>
     cpu_view 1024 (mem s') 0x00180500 = 0 \<and> (\<forall>c. c 0x00180000 = 6 \<and> c 0x00180040 = 7 \<longrightarrow>
       batch_output demo_env [demo_tile] 1024 False 0 c 0x00180500 = Some 42)"
proof -
  let ?s = "demo_gemm\<lparr>mem := snd (dc_load8 1024 0x00180500 demo_mem)\<rparr>"
  have ok: "batch_ok demo_env [demo_tile] 1024 False ?s"
    using demo_batch_ok [of False 1024] by (simp add: batch_ok_def batch_idle_def tile_bytes_def)
  have ns: "hw_sets (cfg demo_env) = 1024" "mem ?s = snd (dc_load8 1024 0x00180500 demo_mem)" by (simp_all add: demo_defs)
  have hit: "dc_hit 1024 (mem ?s) 0x00180500" by (simp add: snd_load8 hit_refill)
  have v: "cpu_view 1024 (mem ?s) 0x00180500 = 0"
    using demo_mem_views(1,4) by (simp add: snd_load8 view_refill)
  have sets: "b div 16 mod 1024 \<noteq> 80" if "0x00180000 \<le> b" "b < 0x00180200" for b :: nat
  proof -
    have "98304 \<le> b div 16" "b div 16 < 98336" using that by (simp_all add: less_mult_imp_div_less)
    then obtain k where "b div 16 = 98304 + k" "k < 32" using le_Suc_ex by fastforce
    then show ?thesis using mod_mult_self1 [of k 96 1024] by (simp add: add.commute)
  qed
  have off: "off_sets (cfg demo_env) (m_idx 1024 0x00180500) r"
    if "r \<in> {(0x00180000, 32), (0x00180040, 32), (0x00180100, 256)}" for r
    using that sets by (auto simp: off_sets_def m_idx_def demo_env_def board_cfg_def)
  have "\<forall>r \<in> set (operand_ranges (dim (info (data ?s))) [demo_tile] @ dest_ranges (tile_bytes ?s False) [demo_tile]).
      off_sets (cfg demo_env) (m_idx 1024 0x00180500) r"
    by (simp add: operand_ranges_def tile_operands_def dest_ranges_def tile_bytes_def demo_tile_def demo_gemm_def off)
  moreover have "off_set 1024 (m_idx 1024 0x00180500) early_wait" by (simp add: off_set_def demo_sched)
  ultimately have "\<exists>s'. gemm_run_batch demo_env early_wait [demo_tile] 1024 False 0 K_FOREVER ?s = Some (RC_OK, s') \<and>
      cpu_view 1024 (mem s') 0x00180500 = cpu_view 1024 (mem ?s) 0x00180500"
    using strided_result_stale [OF ok demo_completes(1) [of _ K_FOREVER], of "0x00180500" 0, unfolded ns(1)] hit by blast
  with v show ?thesis
    by (simp add: batch_output_def demo_results_def desc_of_def demo_env_def demo_tile_def)
qed

text \<open>
  C25. Operands staged once: after \<^verbatim>\<open>gemm_flush_operands\<close> any number of accesses of the CPU and of batches may follow. A later batch,
  also one whose tiles are marked \<^verbatim>\<open>src_coherent\<close> and skip the flush of A, still computes from what the CPU had written in every staged byte, as
  long as neither the CPU nor another thread has stored to its line and no batch has put a result there, and the CPU reads the results
  of that batch in every destination byte whose line was clean when the operands were staged and has not been stored to since.
\<close>

theorem staged_batch_coherent:
  assumes "cache_cfg_ok (cfg env)" "ranges_ok (staged_ranges (dim (info (data s))) tiles)" "tiles \<noteq> []"
    and "session_ok env s xs" "batch_ok env tiles' ds o8 s" "completes (poll_mode (data s)) tmo w"
  shows "\<exists>s1 s2 M s3. gemm_flush_operands env tiles s = Some (RC_OK, s1) \<and> session env xs s1 = Some s2 \<and>
    gemm_run_batch env w tiles' ds o8 sh tmo s2 = Some (RC_OK, s3) \<and>
    (\<forall>x a. outside_driver (cfg env) a \<and> covered (staged_ranges (dim (info (data s))) tiles) a \<and>
       in_sync (hw_sets (cfg env)) (mem s) a \<and> spared env xs a \<and> settled env w tiles' ds o8 sh a \<longrightarrow>
       M x a = cpu_view (hw_sets (cfg env)) (mem s) a) \<and>
    (\<forall>a v. outside_driver (cfg env) a \<and> dest_at tiles' o8 s a \<and> \<not> dc_dirty_at (hw_sets (cfg env)) (mem s) a \<and>
       unwritten xs a \<and> \<not> line_stored w a \<and> batch_output env tiles' ds o8 sh (M a) a = Some v \<longrightarrow>
       cpu_view (hw_sets (cfg env)) (mem s3) a = v)"
proof -
  let ?ns = "hw_sets (cfg env)"
  obtain m1 where m1: "gemm_flush_operands env tiles s = Some (RC_OK, s\<lparr>mem := m1\<rparr>)"
      "\<forall>a. outside_driver (cfg env) a \<and> covered (staged_ranges (dim (info (data s))) tiles) a \<and> in_sync ?ns (mem s) a \<longrightarrow>
         dram m1 a = cpu_view ?ns (mem s) a \<and> \<not> dc_hit ?ns m1 a"
      "\<forall>a. outside_driver (cfg env) a \<and> \<not> dc_dirty_at ?ns (mem s) a \<longrightarrow> \<not> dc_dirty_at ?ns m1 a"
    using gemm_flush_operands_aux [OF assms(1-3)] by blast
  have "batch_idle s" using assms(5) by (simp add: batch_ok_def)
  then have 1: "batch_idle (s\<lparr>mem := m1\<rparr>)" "setup_of (s\<lparr>mem := m1\<rparr>) = setup_of s" by (simp_all add: batch_idle_def setup_of_def)
  obtain s2 where s2: "session env xs (s\<lparr>mem := m1\<rparr>) = Some s2" "batch_idle s2" "setup_of s2 = setup_of s"
      "\<forall>a. outside_driver (cfg env) a \<and> \<not> dc_dirty_at ?ns m1 a \<and> unwritten xs a \<longrightarrow>
         \<not> dc_dirty_at ?ns (mem s2) a \<and> (spared env xs a \<longrightarrow> dram (mem s2) a = dram m1 a)"
    using session_keeps [OF sets_pos [OF assms(1)] session_ok_cong [OF assms(4) 1] 1(1)] 1(2) by auto
  have ok: "batch_ok env tiles' ds o8 s2" "completes (poll_mode (data s2)) tmo w"
    using batch_ok_cong [OF assms(5) s2(2,3)] assms(6) s2(3) by (simp_all add: setup_of_def)
  obtain M s3 where s3: "gemm_run_batch env w tiles' ds o8 sh tmo s2 = Some (RC_OK, s3)"
      "\<forall>x a. outside_driver (cfg env) a \<and> \<not> dc_dirty_at ?ns (mem s2) a \<and> settled env w tiles' ds o8 sh a \<longrightarrow> M x a = dram (mem s2) a"
      "\<forall>a v. outside_driver (cfg env) a \<and> dest_at tiles' o8 s2 a \<and> \<not> dc_dirty_at ?ns (mem s2) a \<and> \<not> line_stored w a \<and>
         batch_output env tiles' ds o8 sh (M a) a = Some v \<longrightarrow> cpu_view ?ns (mem s3) a = v"
    using gemm_run_batch_coherent_aux [OF ok, of sh] by (elim exE conjE) (rule that; assumption)
  have d: "dest_at tiles' o8 s2 = dest_at tiles' o8 s" using s2(3) by (simp add: dest_at_def [abs_def] tile_bytes_def setup_of_def)
  have "M x a = cpu_view ?ns (mem s) a" if "outside_driver (cfg env) a" "covered (staged_ranges (dim (info (data s))) tiles) a"
      "in_sync ?ns (mem s) a" "spared env xs a" "settled env w tiles' ds o8 sh a" for x a
  proof -
    have "dram m1 a = cpu_view ?ns (mem s) a" "\<not> dc_dirty_at ?ns m1 a" using m1(2) that(1-3) by (auto simp: dc_dirty_at_def)
    moreover have "unwritten xs a" using that(4) by (simp add: spared_def)
    ultimately show ?thesis using s2(4) s3(2) that(1,4,5) by metis
  qed
  moreover have "cpu_view ?ns (mem s3) a = v" if "outside_driver (cfg env) a" "dest_at tiles' o8 s a" "\<not> dc_dirty_at ?ns (mem s) a"
      "unwritten xs a" "\<not> line_stored w a" "batch_output env tiles' ds o8 sh (M a) a = Some v" for a v
    using m1(3) s2(4) s3(3) [unfolded d] that by (metis (no_types, lifting))
  ultimately show ?thesis using m1(1) s2(1) s3(1) by blast
qed

theorem staged_batch_coherent_witness:
  "\<exists>s1 s2 s3. gemm_flush_operands demo_env [demo_tile] demo_gemm = Some (RC_OK, s1) \<and>
     session demo_env [Batch demo_wait [demo_tile\<lparr>dest := 0x00180300\<rparr>] 0 False 0 K_FOREVER, Access (Load 0x00180000),
       Access (Store 0x00190000 5)] s1 = Some s2 \<and>
     gemm_run_batch demo_env demo_wait [demo_tile\<lparr>src_coherent := True\<rparr>] 0 False 0 K_FOREVER s2 = Some (RC_OK, s3) \<and>
     cpu_view 1024 (mem s3) 0x00180100 = 42"
proof -
  let ?t = "demo_tile\<lparr>src_coherent := True\<rparr>" and ?u = "demo_tile\<lparr>dest := 0x00180300\<rparr>"
  let ?xs = "[Batch demo_wait [?u] 0 False 0 K_FOREVER, Access (Load 0x00180000), Access (Store 0x00190000 5)]"
  have ns: "cfg demo_env = board_cfg" "hw_sets board_cfg = 1024" "mem demo_gemm = demo_mem" by (simp_all add: demo_defs)
  have r: "ranges_ok (staged_ranges (dim (info (data demo_gemm))) [demo_tile])"
    "covered (staged_ranges (dim (info (data demo_gemm))) [demo_tile]) 0x00180000"
    "covered (staged_ranges (dim (info (data demo_gemm))) [demo_tile]) 0x00180040"
    "dest_at [?t] False demo_gemm 0x00180100"
    by (simp_all add: ranges_ok_def staged_ranges_def covered_def in_range_def maint_range_def dest_at_def
        dest_ranges_def tile_bytes_def demo_tile_def demo_gemm_def)
  have ok: "batch_ok demo_env [?t] 0 False demo_gemm" "batch_ok demo_env [?u] 0 False demo_gemm"
    using demo_batch_ok [of False 0]
    by (auto simp: batch_ok_def batch_idle_def ranges_ok_def operand_ranges_def tile_operands_def dest_ranges_def tile_bytes_def
        maint_range_def demo_tile_def demo_gemm_def)
  then have se: "session_ok demo_env demo_gemm ?xs" by (simp add: session_ok_def demo_completes)
  have out: "outside_driver board_cfg a" if "a \<in> {0x00180000, 0x00180040, 0x00180100}" for a
    using that by (auto simp: outside_driver_def demo_defs)
  have bo: "batch_output demo_env [?u] 0 False 0 c a = None" "batch_output demo_env [?t] 0 False 0 c a = None"
    if "a \<in> {0x00180000, 0x00180040}" for a c
    using that by (auto simp: batch_output_def demo_results_def desc_of_def demo_env_def demo_tile_def)
  have sp: "spared demo_env ?xs a" "settled demo_env demo_wait [?t] 0 False 0 a" if "a \<in> {0x00180000, 0x00180040}" for a
    using that bo [OF that] by (auto simp: spared_def unwritten_def settled_def line_stored_def demo_sched)
  have un: "unwritten ?xs 0x00180100" "\<not> line_stored demo_wait 0x00180100" by (auto simp: unwritten_def line_stored_def demo_sched)
  have fin: "batch_output demo_env [?t] 0 False 0 c 0x00180100 = Some 42" if "c 0x00180000 = 6" "c 0x00180040 = 7" for c
    using that by (simp add: batch_output_def demo_results_def desc_of_def demo_env_def demo_tile_def)
  have dirty: "\<not> dc_dirty_at 1024 demo_mem 0x00180100" by (simp add: demo_mem_views)
  obtain s1 s2 M s3 where run: "gemm_flush_operands demo_env [demo_tile] demo_gemm = Some (RC_OK, s1)" "session demo_env ?xs s1 = Some s2"
      "gemm_run_batch demo_env demo_wait [?t] 0 False 0 K_FOREVER s2 = Some (RC_OK, s3)"
    and M: "\<forall>x a. outside_driver board_cfg a \<and> covered (staged_ranges (dim (info (data demo_gemm))) [demo_tile]) a \<and>
       in_sync 1024 demo_mem a \<and> spared demo_env ?xs a \<and> settled demo_env demo_wait [?t] 0 False 0 a \<longrightarrow> M x a = cpu_view 1024 demo_mem a"
    and v: "\<forall>a v. outside_driver board_cfg a \<and> dest_at [?t] False demo_gemm a \<and> \<not> dc_dirty_at 1024 demo_mem a \<and>
       unwritten ?xs a \<and> \<not> line_stored demo_wait a \<and> batch_output demo_env [?t] 0 False 0 (M a) a = Some v \<longrightarrow> cpu_view 1024 (mem s3) a = v"
    using staged_batch_coherent [of demo_env demo_gemm "[demo_tile]" ?xs "[?t]" 0 False K_FOREVER demo_wait 0, unfolded ns,
        OF board_cfg_ok r(1) _ se ok(1) demo_completes(3)] by auto
  have "M x 0x00180000 = 6" "M x 0x00180040 = 7" for x using M out r(2,3) sp demo_mem_views(1-3) by auto
  then have "cpu_view 1024 (mem s3) 0x00180100 = 42" using v out r(4) dirty un fin by auto
  with run show ?thesis by blast
qed

text \<open>
  C29. A destination byte that is dirty when the batch starts, in a line neither the operand pass nor an access of another thread
  happens to evict, loses the accelerator's result: the destination pass
  writes the CPU's old line over it, in memory too.
\<close>

theorem dirty_destination_lost:
  assumes "batch_ok env tiles ds o8 s" "completes (poll_mode (data s)) tmo w"
    and "outside_driver (cfg env) a" "dest_at tiles o8 s a" "dc_dirty_at (hw_sets (cfg env)) (mem s) a"
    and "\<forall>r \<in> set (operand_ranges (dim (info (data s))) tiles). off_sets (cfg env) (m_idx (hw_sets (cfg env)) a) r"
    and "off_set (hw_sets (cfg env)) (m_idx (hw_sets (cfg env)) a) w"
  shows "\<exists>s'. gemm_run_batch env w tiles ds o8 sh tmo s = Some (RC_OK, s') \<and>
    dram (mem s') a = cpu_view (hw_sets (cfg env)) (mem s) a \<and>
    cpu_view (hw_sets (cfg env)) (mem s') a = cpu_view (hw_sets (cfg env)) (mem s) a"
proof -
  note ok = assms(1) [unfolded batch_ok_def]
  let ?ns = "hw_sets (cfg env)"
  obtain m s0 es s' where m: "run_ops (cache_data_flush_range (cfg env)) (operand_ranges (dim (info (data s))) tiles) (mem s) = Some m"
    and k: "kicked tiles ds (out_ctrl_of o8 sh) m s0" "set es \<subseteq> sched w"
    and m': "run_ops (cache_data_invd_range (cfg env)) (dest_ranges (tile_bytes s o8) tiles) (mem (run_events env es s0)) = Some (mem s')"
    and run: "gemm_run_batch env w tiles ds o8 sh tmo s = Some (RC_OK, s')"
    using batch_runs [OF assms(1,2), of sh] by blast
  have "same_set (m_idx ?ns a) (mem s) m"
    using ok assms(6) by (intro run_flush_same_set [OF _ _ _ m]) auto
  moreover have "same_set (m_idx ?ns a) m (mem (run_events env es s0))"
    using events_same_set [OF assms(7) k(2), of s0] k(1) by (simp add: kicked_def)
  ultimately have same: "same_set (m_idx ?ns a) (mem s) (mem (run_events env es s0))" by (rule same_set_trans)
  then have d: "dc_dirty_at ?ns (mem (run_events env es s0)) a" "cpu_view ?ns (mem (run_events env es s0)) a = cpu_view ?ns (mem s) a"
    using assms(5) same_set_view [OF same] by (auto simp: dc_dirty_at_def same_set_def)
  then have sync: "in_sync ?ns (mem (run_events env es s0)) a" by (simp add: in_sync_def)
  have "cache_cfg_ok (cfg env)" "ranges_ok (dest_ranges (tile_bytes s o8) tiles)" using ok by auto
  note w = this(2) m' assms(3) and c = assms(4) [unfolded dest_at_def] and i = invd_maint [OF this(1)]
  from cache_maint.run_ops_flush [OF i w c sync] cache_maint.run_ops_view [OF i w sync] show ?thesis using run d(2) by simp
qed

theorem dirty_destination_lost_witness:
  "\<exists>s'. gemm_run_batch demo_env early_wait [demo_tile] 0 False 0 (K_MSEC 500)
       (demo_gemm\<lparr>mem := dc_store8 1024 0x00180100 5 demo_mem\<rparr>) = Some (RC_OK, s') \<and> dram (mem s') 0x00180100 = 5"
proof -
  let ?s = "demo_gemm\<lparr>mem := dc_store8 1024 0x00180100 5 demo_mem\<rparr>"
  have ok: "batch_ok demo_env [demo_tile] 0 False ?s"
    using demo_batch_ok [of False 0] by (simp add: batch_ok_def batch_idle_def tile_bytes_def)
  have ns: "hw_sets (cfg demo_env) = 1024" "mem ?s = dc_store8 1024 0x00180100 5 demo_mem" by (simp_all add: demo_defs)
  have a: "outside_driver (cfg demo_env) 0x00180100" "dest_at [demo_tile] False ?s 0x00180100"
    by (simp_all add: outside_driver_def dest_at_def covered_def in_range_def dest_ranges_def tile_bytes_def demo_defs)
  have v: "cpu_view 1024 (mem ?s) 0x00180100 = 5" "dc_dirty_at 1024 (mem ?s) 0x00180100"
    using demo_mem_views(1) by (simp_all add: view_store8 dirty_at_store8)
  have sets: "b div 16 mod 1024 \<noteq> 16" if "0x00180000 \<le> b" "b < 0x00180060" for b :: nat
  proof -
    have "98304 \<le> b div 16" "b div 16 < 98310" using that by (simp_all add: less_mult_imp_div_less)
    then obtain k where "b div 16 = 98304 + k" "k < 6" using le_Suc_ex by fastforce
    then show ?thesis using mod_mult_self1 [of k 96 1024] by (simp add: add.commute)
  qed
  have "off_sets (cfg demo_env) (m_idx 1024 0x00180100) r" if "r \<in> {(0x00180000, 32), (0x00180040, 32)}" for r
    using that sets by (auto simp: off_sets_def m_idx_def demo_env_def board_cfg_def)
  then have "\<forall>r \<in> set (operand_ranges (dim (info (data ?s))) [demo_tile]). off_sets (cfg demo_env) (m_idx 1024 0x00180100) r"
    by (simp add: operand_ranges_def tile_operands_def demo_tile_def demo_gemm_def)
  moreover have "off_set 1024 (m_idx 1024 0x00180100) early_wait" by (simp add: off_set_def demo_sched)
  ultimately show ?thesis
    using dirty_destination_lost [OF ok demo_completes(1) [of _ "K_MSEC 500"] a, of 0, unfolded ns(1)] v by auto
qed

text \<open>
  The descriptor word, read back by the layout of \<^verbatim>\<open>DESC_PUSH\<close>: its fields are the
  tile's, reduced to the width of each field.
\<close>

theorem desc_ctl_fields:
  "take_bit 8 (desc_ctl t) = ucast (take_bit 8 (k_len t)) \<and>
   take_bit 4 (drop_bit 8 (desc_ctl t)) = ucast (take_bit 4 (panel_use t)) \<and>
   take_bit 4 (drop_bit 12 (desc_ctl t)) = ucast (take_bit 4 (panel_load t)) \<and>
   drop_bit 16 (desc_ctl t) = of_bool (b_only t)"
proof -
  have 15: "x AND 15 = take_bit 4 x" for x :: u8 by (simp add: take_bit_eq_mask mask_eq_exp_minus_1)
  have 255: "x AND 255 = take_bit 8 x" for x :: u16 by (simp add: take_bit_eq_mask mask_eq_exp_minus_1)
  have 1: "bit (of_bool b :: u32) n \<longleftrightarrow> b \<and> n = 0" for b n by (auto simp: bit_simps)
  have 16: "(0x10000 :: u32) = push_bit 16 1" by simp
  have ctl: "desc_ctl t = push_bit 16 (of_bool (b_only t)) OR push_bit 12 (ucast (take_bit 4 (panel_load t))) OR
      push_bit 8 (ucast (take_bit 4 (panel_use t))) OR ucast (take_bit 8 (k_len t))"
    by (simp add: desc_ctl_def 15 255 DESC_BONLY_def 16 del: push_bit_of_1)
  show ?thesis
    unfolding ctl by (intro conjI; rule bit_word_eqI; auto simp: bit_simps 1)
qed

section \<open>The life of the driver\<close>

text \<open>
  The states an initialised driver can be in: its entry points called in any order,
  with any arguments and outcomes, while the CPU accesses memory in between.
\<close>

inductive gemm_reachable :: "gemm_env \<Rightarrow> gemm_sys \<Rightarrow> bool" for env where
  init: "\<not> qBusy (acc s) \<Longrightarrow> descQ (acc s) = [] \<Longrightarrow> gemm_init env s = (r, s') \<Longrightarrow> gemm_reachable env s'"
| run: "gemm_reachable env s \<Longrightarrow> gemm_run_batch env w tiles ds o8 sh tmo s = Some (r, s') \<Longrightarrow> gemm_reachable env s'"
| flush: "gemm_reachable env s \<Longrightarrow> gemm_flush_operands env tiles s = Some (r, s') \<Longrightarrow> gemm_reachable env s'"
| poll: "gemm_reachable env s \<Longrightarrow> gemm_set_poll_mode p s = Some s' \<Longrightarrow> gemm_reachable env s'"
| reset: "gemm_reachable env s \<Longrightarrow> gemm_reachable env (gemm_reset_stats s)"
| cpu: "gemm_reachable env s \<Longrightarrow> gemm_reachable env (s\<lparr>mem := fold (dc_access (hw_sets (cfg env))) xs (mem s)\<rparr>)"

definition info_of :: "u32 \<Rightarrow> gemm_info" where
  "info_of i = \<lparr>dim = ucast i, max_k = ucast (drop_bit 8 i), panels = ucast (drop_bit 16 i)\<rparr>"

lemma ucast_and_255: "ucast (x AND 0xFF) = (ucast x :: u8)" for x :: u32
proof -
  have "x AND 0xFF = take_bit 8 x" by (simp add: take_bit_eq_mask mask_eq_exp_minus_1)
  then show ?thesis by (simp add: unsigned_take_bit_eq) (simp add: bit_eq_iff bit_simps)
qed

lemma flush_tiles_mem: "flush_tiles env ts s = Some s' \<Longrightarrow> \<exists>m. s' = s\<lparr>mem := m\<rparr>"
proof (induction ts arbitrary: s)
  case Nil
  then have "s' = s\<lparr>mem := mem s\<rparr>" by simp
  then show ?case by blast
next
  case (Cons t ts)
  have f: "\<exists>m. s' = s\<lparr>mem := m\<rparr>" if "(if c then flush env a n s else Some s) = Some s'" for c a n s s'
    using that by (cases c) (auto simp: flush_def bind_eq_Some_conv intro: exI [of _ "mem s"])
  obtain s1 s2 where "(if a_src t \<noteq> 0 then flush env (a_src t) (operand_bytes s t) s else Some s) = Some s1"
      "(if b_src t \<noteq> 0 then flush env (b_src t) (operand_bytes s t) s1 else Some s1) = Some s2" "flush_tiles env ts s2 = Some s'"
    using Cons.prems unfolding flush_tiles.simps Let_def bind_eq_Some_conv by blast
  from f [OF this(1)] f [OF this(2)] Cons.IH [OF this(3)] show ?case by auto
qed

lemma gemm_reachable_ready_aux:
  "gemm_reachable env s \<Longrightarrow> batch_idle s \<and> info (data s) = info_of (info_reg env) \<and> irq_unmasked s"
proof (induction rule: gemm_reachable.induct)
  case (init s r s')
  then show ?case
    by (auto simp: gemm_init_def Let_def batch_idle_def info_of_def rd_def acc_read_def reg_defs ucast_and_255)
next
  case (run s w tiles ds o8 sh tmo r s')
  with gemm_run_batch_idle_aux [of s env w tiles ds o8 sh tmo r s'] show ?case by (simp add: setup_of_def)
next
  case (flush s tiles r s')
  then show ?case
    by (auto simp: gemm_flush_operands_def bind_eq_Some_conv batch_idle_def split: if_splits dest!: flush_tiles_mem)
next
  case (poll s p s')
  then show ?case by (auto simp: gemm_set_poll_mode_def k_mutex_lock_def k_mutex_unlock_def batch_idle_def)
qed (simp_all add: gemm_reset_stats_def batch_idle_def)

text \<open>
  C27. Invariant of the driver's life: after initialisation, in every state it can reach, the
  lock is free and the queue empty between calls, the geometry is what the hardware's
  \<^verbatim>\<open>INFO\<close> register says and the batch interrupt stays unmasked.
\<close>

theorem gemm_reachable_ready:
  assumes "gemm_reachable env s"
  shows "batch_idle s \<and> info (data s) = info_of (info_reg env) \<and> irq_unmasked s"
  using assms by (rule gemm_reachable_ready_aux)

theorem gemm_reachable_ready_witness:
  "info (data (gemm_reset_stats (snd (gemm_init demo_env demo_gemm)))) = \<lparr>dim = 8, max_k = 16, panels = 4\<rparr>"
proof -
  have "gemm_reachable demo_env (gemm_reset_stats (snd (gemm_init demo_env demo_gemm)))"
    by (intro gemm_reachable.reset gemm_reachable.init [of demo_gemm _ "fst (gemm_init demo_env demo_gemm)"])
      (simp_all add: demo_gemm_def)
  from gemm_reachable_ready [OF this] show ?thesis by (simp add: info_of_def demo_env_def)
qed

end
