(* ===== verification/Accel.thy ===== *)
theory Accel
  imports Gemm
begin

text \<open>
  The datapath of the matrix accelerator, \<^verbatim>\<open>chisel/src/MmAccel.scala\<close>: the operand fetch into the A buffer and the
  panels of the B scratchpad, the array's products, the requantisation, and the lines the result
  DMA writes, for the descriptors of one batch in order. It gives the parameter \<open>results\<close> of the
  driver's environment a meaning. Operands are read from memory as it is at the start of the batch, which is what the
  hardware does whenever no tile of the batch reads what another one writes. The buffers and the array's registers
  keep their contents between batches, so their contents at the start of a batch are a parameter.
\<close>

section \<open>Geometry and buffers\<close>

record accel_geom =
  g_dim :: nat
  g_maxK :: nat
  g_panels :: nat

text \<open>A processing element, the array with its run sequencer, and the operand buffers.\<close>

record pe =
  pe_a :: u8
  pe_b :: u8
  pe_sum :: s32

record sys_array =
  arr_busy :: bool
  arr_done :: bool
  arr_t :: u8
  pes :: "nat \<Rightarrow> nat \<Rightarrow> pe"

record scratch =
  aMem :: "nat \<Rightarrow> nat \<Rightarrow> u8"
  bMem :: "nat \<Rightarrow> nat \<Rightarrow> nat \<Rightarrow> u8"
  arr :: sys_array

text \<open>The 128-bit lines of one lane for a run of depth \<open>kl\<close>.\<close>

definition ldLines :: "accel_geom \<Rightarrow> nat \<Rightarrow> nat" where
  "ldLines g kl = (let c = (kl + 15) div 16 in if c = 0 then 1 else min c (g_maxK g div 16))"

definition load_panel :: "accel_geom \<Rightarrow> (nat \<Rightarrow> u8) \<Rightarrow> u32 \<Rightarrow> nat \<Rightarrow> (nat \<Rightarrow> nat \<Rightarrow> u8) \<Rightarrow> nat \<Rightarrow> nat \<Rightarrow> u8" where
  "load_panel g m src kl old = (\<lambda>lane k.
     if lane < g_dim g \<and> k < 16 * ldLines g kl
     then m (unat (src + word_of_nat (lane * (16 * ldLines g kl) + k)))
     else old lane k)"

section \<open>The systolic array\<close>

text \<open>
  The array clock by clock: every processing element multiplies what its left and upper neighbours held in the cycle before, the
  first column and row are fed from the operand buffers with one cycle of skew per lane, and
  the element in row \<open>i\<close> and column \<open>j\<close> starts a fresh sum in cycle \<open>i + j\<close>. The cycle counter and the number of the
  last cycle have eight bits.
\<close>

definition pe_step :: "bool \<Rightarrow> u8 \<Rightarrow> u8 \<Rightarrow> pe \<Rightarrow> pe" where
  "pe_step clearAcc aIn bIn p =
     (let prod = scast aIn * scast bIn
      in p\<lparr>pe_a := aIn, pe_b := bIn, pe_sum := (if clearAcc then prod else pe_sum p + prod)\<rparr>)"

definition edge :: "accel_geom \<Rightarrow> (nat \<Rightarrow> nat \<Rightarrow> u8) \<Rightarrow> u8 \<Rightarrow> nat \<Rightarrow> u8 \<Rightarrow> u8" where
  "edge g buf kLen i t =
     (let kIdx = int (unat t) - int i
      in if 0 \<le> kIdx \<and> kIdx < uint kLen then buf i (nat kIdx mod g_maxK g) else 0)"

definition array_step ::
    "accel_geom \<Rightarrow> (nat \<Rightarrow> nat \<Rightarrow> u8) \<Rightarrow> (nat \<Rightarrow> nat \<Rightarrow> u8) \<Rightarrow> u8 \<Rightarrow> u8 \<Rightarrow> (nat \<Rightarrow> nat \<Rightarrow> pe) \<Rightarrow> nat \<Rightarrow> nat \<Rightarrow> pe" where
  "array_step g am bm kLen t s = (\<lambda>i j.
     pe_step (unat t = i + j)
       (if j = 0 then edge g am kLen i t else pe_a (s i (j - 1)))
       (if i = 0 then edge g bm kLen j t else pe_b (s (i - 1) j)) (s i j))"

definition lastT :: "accel_geom \<Rightarrow> u8 \<Rightarrow> u8" where
  "lastT g kLen = kLen + word_of_nat (2 * (g_dim g - 1)) - 1"

definition array_start :: "sys_array \<Rightarrow> sys_array" where
  "array_start s = s\<lparr>arr_busy := True, arr_done := False, arr_t := 0\<rparr>"

definition array_clock :: "accel_geom \<Rightarrow> (nat \<Rightarrow> nat \<Rightarrow> u8) \<Rightarrow> (nat \<Rightarrow> nat \<Rightarrow> u8) \<Rightarrow> u8 \<Rightarrow> sys_array \<Rightarrow> sys_array" where
  "array_clock g am bm kLen s =
     (if arr_busy s
      then s\<lparr>arr_busy := (arr_t s \<noteq> lastT g kLen), arr_done := (arr_done s \<or> arr_t s = lastT g kLen), arr_t := arr_t s + 1,
             pes := array_step g am bm kLen (arr_t s) (pes s)\<rparr>
      else s)"

text \<open>A run, from the start to the end: the counter meets the last cycle within 256 clocks, and an idle array stays as it is.\<close>

definition array_run :: "accel_geom \<Rightarrow> (nat \<Rightarrow> nat \<Rightarrow> u8) \<Rightarrow> (nat \<Rightarrow> nat \<Rightarrow> u8) \<Rightarrow> u8 \<Rightarrow> sys_array \<Rightarrow> sys_array" where
  "array_run g am bm kLen s = (array_clock g am bm kLen ^^ 256) (array_start s)"

section \<open>Requantisation\<close>

text \<open>Round half up, shift, saturate to eight bits.\<close>

definition requant :: "nat \<Rightarrow> s32 \<Rightarrow> u8" where
  "requant sh x =
     (let half = (if sh = 0 then 0 else 2 ^ (sh - 1));
          shifted = (sint x + half) div 2 ^ sh
      in if shifted > 127 then 127 else if shifted < - 128 then - 128 else word_of_int shifted)"

section \<open>A tile and a batch\<close>

definition int8Capable :: "accel_geom \<Rightarrow> bool" where
  "int8Capable g \<longleftrightarrow> 16 \<le> g_dim g * g_dim g \<and> 16 mod g_dim g = 0"

definition tile_writes ::
    "accel_geom \<Rightarrow> (nat \<Rightarrow> nat \<Rightarrow> s32) \<Rightarrow> u32 \<Rightarrow> u32 \<Rightarrow> u32 \<Rightarrow> (nat \<times> u8) list" where
  "tile_writes g ac dst ds oc =
     (let d = g_dim g
      in if int8Capable g \<and> bit oc 8
         then map (\<lambda>n. (unat dst + n, requant (unat (oc AND 0x1F)) (ac (n div d) (n mod d)))) [0..<d * d]
         else (let stride = (if ds = 0 then word_of_nat (d * 4) else ds)
               in map (\<lambda>n. (let i = n div (4 * d); j = n div 4 mod d; b = n mod 4
                            in (unat (dst + word_of_nat i * stride) + 4 * j + b, ucast (drop_bit (8 * b) (ac i j))))) [0..<4 * d * d]))"

definition accel_tile ::
    "accel_geom \<Rightarrow> u32 \<Rightarrow> u32 \<Rightarrow> (nat \<Rightarrow> u8) \<Rightarrow> scratch \<times> (nat \<times> u8) list \<Rightarrow> descriptor \<Rightarrow> scratch \<times> (nat \<times> u8) list" where
  "accel_tile g ds oc m = (\<lambda>(sc, ws) (aSrc, bSrc, dst, ctl).
     (let kLen = ucast (ctl AND 0xFF);
          kl = unat kLen;
          panelLoad = unat (drop_bit 12 ctl AND 0xF) mod g_panels g;
          panelUse = unat (drop_bit 8 ctl AND 0xF) mod g_panels g;
          sc = (if bit ctl 16 then sc else sc\<lparr>aMem := load_panel g m aSrc kl (aMem sc)\<rparr>);
          sc = sc\<lparr>bMem := (bMem sc)(panelLoad := load_panel g m bSrc kl (bMem sc panelLoad))\<rparr>;
          sc = sc\<lparr>arr := array_run g (aMem sc) (bMem sc panelUse) kLen (arr sc)\<rparr>
      in (sc, tile_writes g (\<lambda>i j. pe_sum (pes (arr sc) i j)) dst ds oc @ ws)))"

text \<open>The bytes a batch writes; a later tile overwrites an earlier one.\<close>

definition accel_results ::
    "accel_geom \<Rightarrow> scratch \<Rightarrow> descriptor list \<Rightarrow> u32 \<Rightarrow> u32 \<Rightarrow> (nat \<Rightarrow> u8) \<Rightarrow> nat \<Rightarrow> u8 option" where
  "accel_results g sc qs ds oc m = map_of (snd (foldl (accel_tile g ds oc m) (sc, []) qs))"

text \<open>An environment whose accelerator is this one, with the geometry its \<^verbatim>\<open>INFO\<close> register reports.\<close>

definition accel_env :: "accel_geom \<Rightarrow> gemm_env \<Rightarrow> bool" where
  "accel_env g env \<longleftrightarrow> (\<forall>qs ds oc m. \<exists>sc. results env qs ds oc m = accel_results g sc qs ds oc m)"

section \<open>Descriptors\<close>

lemma desc_ctl_decode:
  "unat (desc_ctl t AND 0xFF) = unat (k_len t) mod 256"
  "unat (drop_bit 12 (desc_ctl t) AND 0xF) = unat (panel_load t) mod 16"
  "unat (drop_bit 8 (desc_ctl t) AND 0xF) = unat (panel_use t) mod 16"
  "bit (desc_ctl t) 16 = b_only t"
proof -
  have 15: "x AND 15 = take_bit 4 x" for x :: u8 by (simp add: take_bit_eq_mask mask_eq_exp_minus_1)
  have 255: "x AND 255 = take_bit 8 x" for x :: u16 by (simp add: take_bit_eq_mask mask_eq_exp_minus_1)
  have w15: "x AND 15 = take_bit 4 x" for x :: u32 by (simp add: take_bit_eq_mask mask_eq_exp_minus_1)
  have w255: "x AND 255 = take_bit 8 x" for x :: u32 by (simp add: take_bit_eq_mask mask_eq_exp_minus_1)
  have 1: "bit (of_bool b :: u32) n \<longleftrightarrow> b \<and> n = 0" for b n by (auto simp: bit_simps)
  have 16: "(0x10000 :: u32) = push_bit 16 1" by simp
  have ctl: "desc_ctl t = push_bit 16 (of_bool (b_only t)) OR push_bit 12 (ucast (take_bit 4 (panel_load t))) OR
      push_bit 8 (ucast (take_bit 4 (panel_use t))) OR ucast (take_bit 8 (k_len t))"
    by (simp add: desc_ctl_def 15 255 DESC_BONLY_def 16 del: push_bit_of_1)
  have "desc_ctl t AND 0xFF = ucast (take_bit 8 (k_len t))" "drop_bit 12 (desc_ctl t) AND 0xF = ucast (take_bit 4 (panel_load t))"
    "drop_bit 8 (desc_ctl t) AND 0xF = ucast (take_bit 4 (panel_use t))"
    unfolding ctl w15 w255 by (rule bit_word_eqI; auto simp: bit_simps 1)+
  then show "unat (desc_ctl t AND 0xFF) = unat (k_len t) mod 256"
    "unat (drop_bit 12 (desc_ctl t) AND 0xF) = unat (panel_load t) mod 16"
    "unat (drop_bit 8 (desc_ctl t) AND 0xF) = unat (panel_use t) mod 16"
    by (simp_all add: unsigned_ucast_eq unsigned_take_bit_eq take_bit_nat_def mod_mod_cancel)
  show "bit (desc_ctl t) 16 = b_only t" unfolding ctl by (auto simp: bit_simps 1)
qed

section \<open>The array computes inner products\<close>

text \<open>Inner product of a row of A and a column of B in 32-bit arithmetic.\<close>

definition pe_acc :: "accel_geom \<Rightarrow> (nat \<Rightarrow> nat \<Rightarrow> u8) \<Rightarrow> (nat \<Rightarrow> nat \<Rightarrow> u8) \<Rightarrow> nat \<Rightarrow> nat \<Rightarrow> nat \<Rightarrow> s32" where
  "pe_acc g am bm kl i j = (\<Sum>k \<leftarrow> [0..<kl]. scast (am i (k mod g_maxK g)) * scast (bm j (k mod g_maxK g)))"

lemma array_step_simps:
  "pe_a (array_step g am bm kl t s i j) = (if j = 0 then edge g am kl i t else pe_a (s i (j - 1)))"
  "pe_b (array_step g am bm kl t s i j) = (if i = 0 then edge g bm kl j t else pe_b (s (i - 1) j))"
  "pe_sum (array_step g am bm kl t s i j) = (if unat t = i + j then 0 else pe_sum (s i j)) +
     scast (if j = 0 then edge g am kl i t else pe_a (s i (j - 1))) * scast (if i = 0 then edge g bm kl j t else pe_b (s (i - 1) j))"
  by (simp_all add: array_step_def pe_step_def Let_def)

abbreviation steps where "steps g am bm kl n s \<equiv> for_up n (\<lambda>t. array_step g am bm kl (word_of_nat t)) s"

text \<open>An array that runs counts its cycles and stays busy up to the last one; then it is idle for good.\<close>

lemma array_running:
  assumes "n \<le> unat (lastT g kl)"
  shows "(array_clock g am bm kl ^^ n) (array_start s) =
    s\<lparr>arr_busy := True, arr_done := False, arr_t := word_of_nat n, pes := steps g am bm kl n (pes s)\<rparr>"
  using assms
proof (induction n)
  case (Suc n)
  have "word_of_nat n \<noteq> lastT g kl"
  proof
    assume "word_of_nat n = lastT g kl"
    then have "unat (word_of_nat n :: u8) = unat (lastT g kl)" by simp
    moreover have "n < 2 ^ 8" using Suc.prems unsigned_less [of "lastT g kl", where 'a = nat] by simp
    ultimately show False using Suc.prems by (simp add: unat_of_nat)
  qed
  with Suc show ?case by (simp add: array_clock_def)
qed (simp add: array_start_def)

lemma array_run_end:
  "array_run g am bm kl s =
    s\<lparr>arr_busy := False, arr_done := True, arr_t := lastT g kl + 1, pes := steps g am bm kl (Suc (unat (lastT g kl))) (pes s)\<rparr>"
proof -
  let ?c = "array_clock g am bm kl" and ?l = "unat (lastT g kl)"
  have l: "?l < 256" using unsigned_less [of "lastT g kl", where 'a = nat] by simp
  have idle: "(?c ^^ m) r = r" if "\<not> arr_busy r" for m r using that by (induction m) (simp_all add: array_clock_def)
  have "256 = (255 - ?l) + Suc ?l" using l by simp
  then have "array_run g am bm kl s = (?c ^^ (255 - ?l)) (?c ((?c ^^ ?l) (array_start s)))"
    unfolding array_run_def by (metis comp_apply funpow.simps(2) funpow_add)
  also have "?c ((?c ^^ ?l) (array_start s)) =
    s\<lparr>arr_busy := False, arr_done := True, arr_t := lastT g kl + 1, pes := steps g am bm kl (Suc ?l) (pes s)\<rparr>"
    by (simp add: array_running array_clock_def)
  finally show ?thesis by (simp add: idle)
qed

lemma lastT_value:
  assumes "0 < kl" "unat kl + 2 * (g_dim g - 1) \<le> 256"
  shows "Suc (unat (lastT g kl)) = unat kl + 2 * (g_dim g - 1)"
proof -
  have pos: "0 < unat kl" using assms(1) by (simp add: unat_gt_0)
  have "lastT g kl = word_of_nat (unat kl + 2 * (g_dim g - 1) - 1)" using pos by (simp add: lastT_def of_nat_diff)
  then have "unat (lastT g kl) = (unat kl + 2 * (g_dim g - 1) - 1) mod 256" by (simp only: unat_of_nat) simp
  also have "\<dots> = unat kl + 2 * (g_dim g - 1) - 1" using assms(2) pos by (intro mod_less) simp
  finally show ?thesis using pos by simp
qed

lemma edge_nat: "n < 256 \<Longrightarrow> edge g buf kl i (word_of_nat n) = (if i \<le> n \<and> n < i + unat kl then buf i ((n - i) mod g_maxK g) else 0)"
proof -
  assume "n < 256"
  then have "unat (word_of_nat n :: u8) = n" by (simp add: unat_of_nat)
  moreover have "uint kl = int (unat kl)" by simp
  then have "int n - int i < uint kl \<longleftrightarrow> n < i + unat kl" by linarith
  ultimately show ?thesis by (auto simp: edge_def Let_def nat_diff_distrib)
qed

lemma array_flow:
  "n \<le> 256 \<Longrightarrow> j < n \<Longrightarrow> pe_a (steps g am bm kl n s i j) = edge g am kl i (word_of_nat (n - 1 - j))"
  "n \<le> 256 \<Longrightarrow> i < n \<Longrightarrow> pe_b (steps g am bm kl n s i j) = edge g bm kl j (word_of_nat (n - 1 - i))"
proof (induction n arbitrary: i j)
  case (Suc n)
  {
    case 1
    then show ?case using Suc.IH(1) [of "j - 1" i] by (cases j) (simp_all add: array_step_simps)
  next
    case 2
    then show ?case using Suc.IH(2) [of "i - 1" j] by (cases i) (simp_all add: array_step_simps)
  }
qed simp_all

lemma array_sums:
  "n \<le> 256 \<Longrightarrow> i + j < n \<Longrightarrow> pe_sum (steps g am bm kl n s i j) =
     (\<Sum>u \<leftarrow> [0..<n - (i + j)]. scast (edge g am kl i (word_of_nat (i + u))) * scast (edge g bm kl j (word_of_nat (j + u))))"
proof (induction n)
  case (Suc n)
  let ?s = "steps g am bm kl n s" and ?w = "word_of_nat n :: u8"
  have n: "unat ?w = n" using Suc.prems(1) by (simp add: unat_of_nat)
  have a: "(if j = 0 then edge g am kl i ?w else pe_a (?s i (j - 1))) = edge g am kl i (word_of_nat (i + (n - (i + j))))"
    using Suc.prems array_flow(1) [of n "j - 1" g am bm kl s i] by (cases j) simp_all
  have b: "(if i = 0 then edge g bm kl j ?w else pe_b (?s (i - 1) j)) = edge g bm kl j (word_of_nat (j + (n - (i + j))))"
    using Suc.prems array_flow(2) [of n "i - 1" g am bm kl s j] by (cases i) simp_all
  have "pe_sum (steps g am bm kl (Suc n) s i j) =
      (if n = i + j then 0 else pe_sum (?s i j)) +
      scast (edge g am kl i (word_of_nat (i + (n - (i + j))))) * scast (edge g bm kl j (word_of_nat (j + (n - (i + j)))))"
    unfolding for_up_Suc array_step_simps(3) a b n by (rule refl)
  then show ?case using Suc by (cases "n = i + j") (simp_all add: Suc_diff_le)
qed simp

lemma array_run_acc:
  assumes "0 < kl" "unat kl + 2 * (g_dim g - 1) \<le> 256" "i < g_dim g" "j < g_dim g"
  shows "pe_sum (pes (array_run g am bm kl s) i j) = pe_acc g am bm (unat kl) i j"
proof -
  define r where "r = 2 * (g_dim g - 1) - (i + j)"
  define n where "n = unat kl + 2 * (g_dim g - 1)"
  have pos: "0 < unat kl" using assms(1) by (simp add: unat_gt_0)
  have n: "n - (i + j) = unat kl + r" "i + j < n" "n \<le> 256" using assms pos by (simp_all add: r_def n_def)
  let ?f = "\<lambda>u. scast (edge g am kl i (word_of_nat (i + u))) * scast (edge g bm kl j (word_of_nat (j + u))) :: s32"
  have "pe_sum (pes (array_run g am bm kl s) i j) = (\<Sum>u \<leftarrow> [0..<unat kl + r]. ?f u)"
    unfolding array_run_end lastT_value [OF assms(1,2)] n_def [symmetric]
    using array_sums [OF n(3,2), of g am bm kl "pes s"] by (simp add: n(1) del: of_nat_add)
  also have "\<dots> = (\<Sum>u \<leftarrow> [0..<unat kl]. ?f u) + (\<Sum>u \<leftarrow> [unat kl..<unat kl + r]. ?f u)"
    unfolding upt_add_eq_append [OF le0] map_append sum_list_append by (rule refl)
  also have "(\<Sum>u \<leftarrow> [unat kl..<unat kl + r]. ?f u) = 0"
  proof -
    have "i + x < 256 \<and> j + x < 256" if "x < unat kl + r" for x using that n by linarith
    then have "map ?f [unat kl..<unat kl + r] = map (\<lambda>_. 0) [unat kl..<unat kl + r]"
      by (intro map_cong) (simp_all add: edge_nat del: of_nat_add)
    then show ?thesis by (simp only: sum_list_0)
  qed
  also have "(\<Sum>u \<leftarrow> [0..<unat kl]. ?f u) = pe_acc g am bm (unat kl) i j"
    unfolding pe_acc_def using n by (intro arg_cong [of _ _ sum_list] map_cong) (simp_all add: edge_nat del: of_nat_add)
  finally show ?thesis by simp
qed

text \<open>
  C39. The systolic array computes the matrix product: whatever its registers held before, started with a positive depth for which
  the last cycle fits the eight-bit counter it runs to its end and every processing element holds the inner product of its
  row of A and its column of B, in 32-bit arithmetic.
\<close>

theorem array_run_products:
  assumes "0 < kLen" "unat kLen + 2 * (g_dim g - 1) \<le> 256" "i < g_dim g" "j < g_dim g"
  shows "\<not> arr_busy (array_run g am bm kLen s) \<and> arr_done (array_run g am bm kLen s) \<and>
    pe_sum (pes (array_run g am bm kLen s) i j) =
      (\<Sum>k \<leftarrow> [0..<unat kLen]. scast (am i (k mod g_maxK g)) * scast (bm j (k mod g_maxK g)))"
  using array_run_acc [OF assms] by (simp add: array_run_end pe_acc_def)

theorem array_run_products_witness:
  "pe_sum (pes (array_run \<lparr>g_dim = 4, g_maxK = 16, g_panels = 2\<rparr> (\<lambda>i k. word_of_nat (i + k)) (\<lambda>j k. - 1) 16
     \<lparr>arr_busy = False, arr_done = True, arr_t = 22, pes = (\<lambda>i j. \<lparr>pe_a = 7, pe_b = 9, pe_sum = 5\<rparr>)\<rparr>) 3 2) = - 168"
  using array_run_products [of 16 "\<lparr>g_dim = 4, g_maxK = 16, g_panels = 2\<rparr>" 3 2 "\<lambda>i k. word_of_nat (i + k)" "\<lambda>j k. - 1"
      "\<lparr>arr_busy = False, arr_done = True, arr_t = 22, pes = (\<lambda>i j. \<lparr>pe_a = 7, pe_b = 9, pe_sum = 5\<rparr>)\<rparr>"]
  by (simp add: upt_16)

text \<open>
  The bound is needed: a descriptor's depth is not clamped, and at dimension 8 and depth 250 the number of the last cycle wraps. The run
  ends after eight cycles, before the far corner has seen an operand.
\<close>

lemma array_run_wraps:
  assumes "g_dim g = 8"
  shows "lastT g 250 = 7" "pe_sum (pes (array_run g am bm 250 s) 7 7) = pe_sum (pes s 7 7) +
    (\<Sum>t \<leftarrow> [0..<8]. scast (pe_a (steps g am bm 250 t (pes s) 7 6)) * scast (pe_b (steps g am bm 250 t (pes s) 6 7)))"
proof -
  show l: "lastT g 250 = 7" by (simp add: lastT_def assms)
  have "pe_sum (steps g am bm 250 n q 7 7) = pe_sum (q 7 7) +
      (\<Sum>t \<leftarrow> [0..<n]. scast (pe_a (steps g am bm 250 t q 7 6)) * scast (pe_b (steps g am bm 250 t q 6 7)))" if "n \<le> 8" for n q
    using that
  proof (induction n)
    case (Suc n)
    then have "unat (word_of_nat n :: u8) = n" by (simp add: unat_of_nat)
    with Suc show ?case by (simp add: array_step_simps)
  qed simp
  from this [of 8 "pes s"] show "pe_sum (pes (array_run g am bm 250 s) 7 7) = pe_sum (pes s 7 7) +
    (\<Sum>t \<leftarrow> [0..<8]. scast (pe_a (steps g am bm 250 t (pes s) 7 6)) * scast (pe_b (steps g am bm 250 t (pes s) 6 7)))"
    unfolding array_run_end l by simp
qed

section \<open>Batches that share their A panel\<close>

text \<open>The inner product a tile computes, from the packed panels in memory.\<close>

definition tile_product :: "(nat \<Rightarrow> u8) \<Rightarrow> u32 \<Rightarrow> u32 \<Rightarrow> nat \<Rightarrow> nat \<Rightarrow> nat \<Rightarrow> s32" where
  "tile_product m a b kl i j =
     (\<Sum>k \<leftarrow> [0..<kl]. scast (m (unat (a + word_of_nat (i * kl + k)))) * scast (m (unat (b + word_of_nat (j * kl + k)))))"

lemma tile_writes_cong:
  assumes "\<And>i j. i < g_dim g \<Longrightarrow> j < g_dim g \<Longrightarrow> ac i j = ac' i j"
  shows "tile_writes g ac dst ds oc = tile_writes g ac' dst ds oc"
proof -
  have 4: "n div 4 mod d < d \<and> n div (4 * d) < d" if "n < 4 * d * d" for n d :: nat
    using that by (cases "d = 0") (simp_all add: less_mult_imp_div_less mult.commute mult.left_commute)
  have 1: "n div d < d \<and> n mod d < d" if "n < d * d" for n d :: nat
    using that by (cases "d = 0") (simp_all add: less_mult_imp_div_less)
  show ?thesis using 1 4 assms by (auto simp: tile_writes_def Let_def)
qed

definition a_loaded :: "accel_geom \<Rightarrow> (nat \<Rightarrow> u8) \<Rightarrow> u32 \<Rightarrow> nat \<Rightarrow> scratch \<Rightarrow> bool" where
  "a_loaded g m a kl sc \<longleftrightarrow> (\<forall>i < g_dim g. \<forall>k < kl. aMem sc i k = m (unat (a + word_of_nat (i * kl + k))))"

lemma accel_tile_shared:
  assumes kl: "0 < kl" "16 dvd kl" "kl \<le> g_maxK g" "kl + 2 * (g_dim g - 1) \<le> 256" "kl < 256" "unat (k_len t) = kl"
      "panel_use t = panel_load t" "a_src t = a"
    and sc: "b_only t \<Longrightarrow> a_loaded g m a kl sc"
  shows "\<exists>sc'. accel_tile g ds oc m (sc, ws) (desc_of t) =
      (sc', tile_writes g (tile_product m a (b_src t) kl) (dest t) ds oc @ ws) \<and> a_loaded g m a kl sc'"
proof -
  let ?pl = "unat (panel_load t) mod 16 mod g_panels g"
  let ?sc = "if b_only t then sc else sc\<lparr>aMem := load_panel g m a kl (aMem sc)\<rparr>"
  let ?sc' = "?sc\<lparr>bMem := (bMem ?sc)(?pl := load_panel g m (b_src t) kl (bMem ?sc ?pl))\<rparr>"
  let ?ar = "array_run g (aMem ?sc') (bMem ?sc' ?pl) (word_of_nat kl) (arr ?sc')"
  obtain q where q: "kl = 16 * q" "0 < q" using kl(1,2) by auto
  have lines: "16 * ldLines g kl = kl" using q kl(3) by (simp add: ldLines_def Let_def min_def)
  have load: "load_panel g m src kl old i k = m (unat (src + word_of_nat (i * kl + k)))" if "i < g_dim g" "k < kl" for src old i k
    using that by (simp add: load_panel_def lines)
  have al: "a_loaded g m a kl ?sc'" using sc load by (auto simp: a_loaded_def)
  have pe: "pe_sum (pes ?ar i j) = tile_product m a (b_src t) kl i j" if "i < g_dim g" "j < g_dim g" for i j
  proof -
    have "k mod g_maxK g = k" if "k < kl" for k using that kl(3) by simp
    then have "pe_acc g (aMem ?sc') (bMem ?sc' ?pl) kl i j = tile_product m a (b_src t) kl i j"
      unfolding pe_acc_def tile_product_def
      using al that load by (intro arg_cong [of _ _ sum_list] map_cong) (simp_all add: a_loaded_def)
    moreover have "unat (word_of_nat kl :: u8) = kl" using kl(5) by (simp add: unat_of_nat)
    moreover have "(0 :: u8) < word_of_nat kl" using calculation(2) kl(1) by (simp add: word_less_nat_alt)
    ultimately show ?thesis
      using array_run_acc [of "word_of_nat kl" g i j "aMem ?sc'" "bMem ?sc' ?pl" "arr ?sc'"] kl(4) that by simp
  qed
  have ctl: "(ucast (desc_ctl t AND 0xFF) :: u8) = word_of_nat kl"
    using desc_ctl_decode(1) [of t] kl(5,6) by (simp add: word_unat_eq_iff unsigned_ucast_eq unat_of_nat take_bit_nat_def)
  have "accel_tile g ds oc m (sc, ws) (desc_of t) =
      (?sc'\<lparr>arr := ?ar\<rparr>, tile_writes g (\<lambda>i j. pe_sum (pes ?ar i j)) (dest t) ds oc @ ws)"
    using kl(5-) by (simp add: accel_tile_def desc_of_def ctl unat_of_nat desc_ctl_decode Let_def)
  moreover have "a_loaded g m a kl (?sc'\<lparr>arr := ?ar\<rparr>)" using al by (simp add: a_loaded_def)
  ultimately show ?thesis using tile_writes_cong [OF pe] by auto
qed

lemma accel_batch_shared:
  assumes kl: "0 < kl" "16 dvd kl" "kl \<le> g_maxK g" "kl + 2 * (g_dim g - 1) \<le> 256" "kl < 256"
  shows "\<forall>t \<in> set ts. unat (k_len t) = kl \<and> panel_use t = panel_load t \<and> a_src t = a \<Longrightarrow>
    a_loaded g m a kl sc \<or> ts \<noteq> [] \<and> \<not> b_only (hd ts) \<Longrightarrow>
    snd (foldl (accel_tile g ds oc m) (sc, ws) (map desc_of ts)) =
      concat (rev (map (\<lambda>t. tile_writes g (tile_product m a (b_src t) kl) (dest t) ds oc) ts)) @ ws"
proof (induction ts arbitrary: sc ws)
  case (Cons t ts)
  then obtain sc' where "accel_tile g ds oc m (sc, ws) (desc_of t) =
      (sc', tile_writes g (tile_product m a (b_src t) kl) (dest t) ds oc @ ws)" "a_loaded g m a kl sc'"
    using accel_tile_shared [OF kl, of t a m sc ds oc ws] by auto
  with Cons.IH [of sc' "tile_writes g (tile_product m a (b_src t) kl) (dest t) ds oc @ ws"] Cons.prems show ?case by simp
qed simp

lemma map_of_range: "map_of (map (\<lambda>n. (b + n, f n)) [0..<N]) a = (if b \<le> a \<and> a < b + N then Some (f (a - b)) else None)" for b :: nat
  by (induction N) (auto simp: map_add_def split: option.splits)

lemma map_of_tiles:
  fixes b :: "nat \<Rightarrow> nat"
  assumes "\<And>p q. p < q \<Longrightarrow> q < n \<Longrightarrow> b p + N \<le> b q"
  shows "map_of (concat (rev (map (\<lambda>p. map (\<lambda>i. (b p + i, f p i)) [0..<N]) [0..<n]))) a =
    (case find (\<lambda>p. b p \<le> a \<and> a < b p + N) [0..<n] of None \<Rightarrow> None | Some p \<Rightarrow> Some (f p (a - b p)))"
  using assms
proof (induction n)
  case (Suc n)
  have f: "find P (xs @ [x]) = (case find P xs of None \<Rightarrow> (if P x then Some x else None) | Some y \<Rightarrow> Some y)" for P xs and x :: nat
    by (induction xs) auto
  have "find (\<lambda>p. b p \<le> a \<and> a < b p + N) [0..<n] = None" if "b n \<le> a"
    using Suc.prems [of _ n] that by (force simp: find_None_iff)
  with Suc show ?case by (auto simp: f map_of_range map_add_def split: option.splits)
qed simp

text \<open>The requantised result of an exact multiple.\<close>

lemma requant_exact:
  assumes "x \<le> 127" "sh \<le> 16"
  shows "requant sh (word_of_nat (2 ^ sh * x)) = word_of_nat x"
proof -
  have b: "2 ^ sh * x \<le> 2 ^ 16 * 127" using assms power_increasing [of sh 16 "2 :: nat"] by (intro mult_le_mono) simp_all
  have "sint (word_of_nat n :: s32) = int n" if "n \<le> 2 ^ 16 * 127" for n :: nat
    using that by (simp add: signed_of_nat signed_take_bit_int_eq_self)
  from this [OF b] have s: "sint (word_of_nat (2 ^ sh * x) :: s32) = 2 ^ sh * int x" by (simp only: of_nat_mult of_nat_power of_nat_numeral)
  have h: "0 \<le> (if sh = 0 then 0 else 2 ^ (sh - 1) :: int)" "(if sh = 0 then 0 else 2 ^ (sh - 1) :: int) < 2 ^ sh"
    by (cases sh; simp)+
  have "(2 ^ sh * int x + (if sh = 0 then 0 else 2 ^ (sh - 1))) div 2 ^ sh = int x"
    using h div_mult_self4 [of "2 ^ sh :: int" "int x"] by (simp add: add.commute div_pos_pos_trivial)
  with assms(1) show ?thesis unfolding requant_def Let_def s by simp
qed

end
