(* ===== verification/GemmThreads.thy ===== *)
theory GemmThreads
  imports Accel Kernel
begin

text \<open>
  The accelerator benchmark \<^verbatim>\<open>zephyr/samples/gemm_threads/src/main.c\<close>: a thread that submits batches and waits, a worker thread that uses the
  time left, and a main thread that sweeps batch size and way of waiting, checks every result and prints a verdict. The
  driver below it is the one of \<^verbatim>\<open>gemm_rv32_5stage.c\<close>, the panels and results live in memory behind the modelled cache.

  Threads are interleaved where a thread gives the CPU away. The submitting thread does so only inside \<^verbatim>\<open>gemm_run_batch\<close>, while the accelerator works: it is the
  more urgent one of the two and the main thread waits for its end. The schedule \<open>waits k\<close> of the \<open>k\<close>-th time holds the memory accesses of the other
  threads and of the kernel, interleaved with what the accelerator's DMA engines do, in any order; the worker makes \<open>passes k\<close> rounds of its loop meanwhile, on its own
  statics, which are counted at the end of the wait. When the main thread sleeps, the others make the accesses \<open>others k\<close>.
  Further parameters are the addresses of the static arrays, the
  kernel's per-thread cycle counts and its list of threads. A wait without end is the value \<^const>\<open>None\<close>, and so is an access outside an array.
\<close>

section \<open>Configuration and state\<close>

definition BATCHES :: nat where "BATCHES = 16"
definition MAX_TILES :: nat where "MAX_TILES = 8"
definition tile_sweep :: "nat list" where "tile_sweep = [1, 2, 4, 8]"
definition KLEN :: nat where "KLEN = 64"
definition OUT_SHIFT :: u8 where "OUT_SHIFT = 6"

record gt_env =
  gemm0 :: gemm_env
  a_panel :: u32
  b_panel :: u32
  dest_buf :: u32
  device_is_ready :: bool
  CONFIG_THREAD_RUNTIME_STATS :: bool
  CONFIG_THREAD_MONITOR :: bool
  waits :: "nat \<Rightarrow> wait"
  passes :: "nat \<Rightarrow> nat"
  others :: "nat \<Rightarrow> access list"
  execution_cycles :: "nat \<Rightarrow> u32"
  thread_table :: "(string option \<times> int \<times> string) list"

record gt_sys =
  dev0 :: gemm_sys
  work_done :: u32
  work_polls :: u32
  work_sink :: u32
  work_run :: bool
  work_acc :: u32
  gt_dim :: nat
  gt_k_len :: nat
  gt_panels :: nat
  gemm_bad :: nat
  words_checked :: nat
  batch_timeout :: k_timeout
  turn :: nat
  reads :: nat
  console :: klog

record run_result =
  wall :: u32
  gemm_ran :: u32
  worker_ran :: u32
  run_st :: gemm_stats

definition printk :: "string \<Rightarrow> karg list \<Rightarrow> gt_sys \<Rightarrow> gt_sys" where
  "printk fmt args s = s\<lparr>console := console s @ [(fmt, args)]\<rparr>"

definition gt_sets :: "gt_env \<Rightarrow> nat" where
  "gt_sets env = hw_sets (cfg (gemm0 env))"

definition set_mem :: "dcsys \<Rightarrow> gt_sys \<Rightarrow> gt_sys" where
  "set_mem m s = s\<lparr>dev0 := (dev0 s)\<lparr>mem := m\<rparr>\<rparr>"

text \<open>A reading of the kernel's cycle counter.\<close>

definition cycle_get :: "gt_env \<Rightarrow> gt_sys \<Rightarrow> u32 \<times> gt_sys" where
  "cycle_get env s = (let (t, d) = k_cycle_get_32 (gemm0 env) (dev0 s) in (t, s\<lparr>dev0 := d\<rparr>))"

section \<open>The worker\<close>

definition churn :: "u32 \<Rightarrow> u32" where
  "churn seed = for_up 4 (\<lambda>_ seed. let seed = seed * 1664525 + 1013904223 in seed XOR drop_bit 13 seed) seed"

text \<open>One round of the loop of \<^verbatim>\<open>worker\<close>; its local \<^verbatim>\<open>acc\<close> is \<open>work_acc\<close>.\<close>

definition worker_pass :: "gt_sys \<Rightarrow> gt_sys" where
  "worker_pass s =
     (let s = s\<lparr>work_polls := work_polls s + 1\<rparr>
      in if work_run s
         then (let acc = churn (work_acc s) in s\<lparr>work_acc := acc, work_sink := acc, work_done := work_done s + 1\<rparr>)
         else s)"

text \<open>The main thread gives the CPU away.\<close>

definition give_cpu :: "gt_env \<Rightarrow> gt_sys \<Rightarrow> gt_sys" where
  "give_cpu env s =
     (let k = turn s;
          s = set_mem (fold (dc_access (gt_sets env)) (others env k) (mem (dev0 s))) (s\<lparr>turn := k + 1\<rparr>)
      in for_up (passes env k) (\<lambda>_. worker_pass) s)"

section \<open>Operands and results\<close>

text \<open>\<^verbatim>\<open>base[idx] = v\<close> for an array of \<open>n\<close> bytes.\<close>

definition store_elem :: "gt_env \<Rightarrow> u32 \<Rightarrow> nat \<Rightarrow> nat \<Rightarrow> u8 \<Rightarrow> gt_sys \<Rightarrow> gt_sys option" where
  "store_elem env base n idx v s =
     (if idx < n then Some (set_mem (dc_store8 (gt_sets env) (unat base + idx) v (mem (dev0 s))) s) else None)"

definition load_elem :: "gt_env \<Rightarrow> u32 \<Rightarrow> nat \<Rightarrow> nat \<Rightarrow> gt_sys \<Rightarrow> (u8 \<times> gt_sys) option" where
  "load_elem env base n idx s =
     (if idx < n then (let (v, m) = dc_load8 (gt_sets env) (unat base + idx) (mem (dev0 s)) in Some (v, set_mem m s)) else None)"

abbreviation b_panel_at :: "gt_env \<Rightarrow> nat \<Rightarrow> u32" where
  "b_panel_at env p \<equiv> b_panel env + word_of_nat (p * (16 * KLEN))"

abbreviation dest_tile :: "gt_env \<Rightarrow> nat \<Rightarrow> u32" where
  "dest_tile env p \<equiv> dest_buf env + word_of_nat (p * (16 * 16))"

definition stage_operands :: "gt_env \<Rightarrow> gt_sys \<Rightarrow> gt_sys option" where
  "stage_operands env s =
     for_opt (gt_dim s) (\<lambda>lane. for_opt (gt_k_len s) (\<lambda>k t. do {
       t \<leftarrow> store_elem env (a_panel env) (16 * KLEN) (lane * gt_k_len s + k) (word_of_nat (lane + 1)) t;
       for_opt MAX_TILES (\<lambda>p. store_elem env (b_panel_at env p) (16 * KLEN) (lane * gt_k_len s + k) (word_of_nat (lane + 1 + p))) t
     })) s"

definition mismatch_format :: string where
  "mismatch_format = ''  MISMATCH t%d C[%d][%d]: got %d want %d'' @ newline"

definition check_elem :: "gt_env \<Rightarrow> nat \<Rightarrow> nat \<Rightarrow> nat \<Rightarrow> gt_sys \<Rightarrow> gt_sys option" where
  "check_elem env p i j s = do {
     let want = (word_of_nat ((i + 1) * (j + 1 + p)) :: u8);
     (v, s) \<leftarrow> load_elem env (dest_tile env p) (16 * 16) (i * gt_dim s + j) s;
     if v \<noteq> want then do {
       s \<leftarrow> (if gemm_bad s < 4 then do {
               (v, s) \<leftarrow> load_elem env (dest_tile env p) (16 * 16) (i * gt_dim s + j) s;
               Some (printk mismatch_format [KD (int p), KD (int i), KD (int j), KD (sint v), KD (sint want)] s)
             } else Some s);
       Some (s\<lparr>gemm_bad := gemm_bad s + 1\<rparr>)
     } else Some s
   }"

definition check_results :: "gt_env \<Rightarrow> nat \<Rightarrow> gt_sys \<Rightarrow> gt_sys option" where
  "check_results env n_tiles s = do {
     let s = s\<lparr>words_checked := words_checked s + n_tiles * gt_dim s * gt_dim s\<rparr>;
     for_opt n_tiles (\<lambda>p. for_opt (gt_dim s) (\<lambda>i. for_opt (gt_dim s) (\<lambda>j. check_elem env p i j))) s
   }"

section \<open>The submitting thread\<close>

definition runner_tile :: "gt_env \<Rightarrow> gt_sys \<Rightarrow> nat \<Rightarrow> gemm_tile" where
  "runner_tile env s p =
     \<lparr>a_src = a_panel env, b_src = b_panel_at env p, dest = dest_tile env p, k_len = word_of_nat (gt_k_len s),
      panel_use = word_of_nat (p mod gt_panels s), panel_load = word_of_nat (p mod gt_panels s),
      b_only = (p \<noteq> 0), src_coherent = True\<rparr>"

definition batch_fail_format :: string where
  "batch_fail_format = ''FAIL: %d-tile batch %d returned %d%s'' @ newline"

text \<open>The batch loop with \<open>r\<close> rounds to go.\<close>

fun batch_loop :: "gt_env \<Rightarrow> gemm_tile list \<Rightarrow> nat \<Rightarrow> gt_sys \<Rightarrow> gt_sys option" where
  "batch_loop env tiles 0 s = Some s"
| "batch_loop env tiles (Suc r) s = do {
     let k = turn s;
     (rc, d) \<leftarrow> gemm_run_batch (gemm0 env) (waits env k) tiles 0 True OUT_SHIFT (batch_timeout s) (dev0 s);
     let s = for_up (passes env k) (\<lambda>_. worker_pass) (s\<lparr>dev0 := d, turn := k + 1\<rparr>);
     if rc \<noteq> RC_OK then
       Some (printk batch_fail_format [KD (int (length tiles)), KD (int (BATCHES - Suc r)), KC rc,
         KS (if rc = RC_ERR EBUSY then '' (exceeds descriptor queue depth)'' else '''')] s)
     else batch_loop env tiles r s
   }"

definition gemm_runner :: "gt_env \<Rightarrow> nat \<Rightarrow> gt_sys \<Rightarrow> gt_sys option" where
  "gemm_runner env n_tiles s = do {
     let tiles = map (runner_tile env s) [0..<n_tiles];
     (_, d) \<leftarrow> gemm_flush_operands (gemm0 env) tiles (dev0 s);
     s \<leftarrow> batch_loop env tiles BATCHES (s\<lparr>dev0 := d\<rparr>);
     check_results env n_tiles s
   }"

section \<open>Measurements\<close>

definition thread_cycles :: "gt_env \<Rightarrow> gt_sys \<Rightarrow> u32 \<times> gt_sys" where
  "thread_cycles env s =
     (if CONFIG_THREAD_RUNTIME_STATS env then (execution_cycles env (reads s), s\<lparr>reads := reads s + 1\<rparr>) else (0, s))"

definition run_mode :: "gt_env \<Rightarrow> bool \<Rightarrow> nat \<Rightarrow> k_timeout \<Rightarrow> gt_sys \<Rightarrow> (run_result \<times> gt_sys) option" where
  "run_mode env poll n_tiles timeout s = do {
     let s = s\<lparr>batch_timeout := timeout\<rparr>;
     d \<leftarrow> gemm_set_poll_mode poll (dev0 s);
     let s = s\<lparr>dev0 := gemm_reset_stats d, work_run := True\<rparr>;
     let (w_before, s) = thread_cycles env s;
     let (t0, s) = cycle_get env s;
     s \<leftarrow> gemm_runner env n_tiles s;
     let (t1, s) = cycle_get env s;
     let (g, s) = thread_cycles env s;
     let (w, s) = thread_cycles env s;
     let s = s\<lparr>work_run := False\<rparr>;
     Some (\<lparr>wall = t1 - t0, gemm_ran = g, worker_ran = w - w_before, run_st = gemm_get_stats (dev0 s)\<rparr>, s)
   }"

definition report_row :: "nat \<Rightarrow> string \<Rightarrow> run_result \<Rightarrow> gt_sys \<Rightarrow> gt_sys" where
  "report_row n_tiles mode r =
     (let seen = (if isr_seen (run_st r) \<noteq> 0 then isr_seen (run_st r) else 1); b = word_of_nat BATCHES
      in printk (''%5d  %-9s %6u %7u %7u %6u %6u %6u %5u'' @ newline)
           [KD (int n_tiles), KS mode, KU (wall r div b), KU (gemm_ran r div b), KU (worker_ran r div b),
            KU (flush_cycles (run_st r) div b), KU (isr_cycles (run_st r) div seen), KU (resume_cycles (run_st r) div seen),
            KU (already_done (run_st r))])"

definition report_header :: "gt_sys \<Rightarrow> gt_sys" where
  "report_header s =
     printk (''------------------------------------------------------------------'' @ newline) []
       (printk (newline @ ''tiles  mode        wall  subCPU  worker  cache  accel   wake early'' @ newline) [] s)"

text \<open>The comparison at a point of the sweep, in cycles per batch; it tells whether interrupts pay off.\<close>

definition judge :: "gt_env \<Rightarrow> run_result \<Rightarrow> run_result \<Rightarrow> run_result \<Rightarrow> gt_sys \<Rightarrow> bool \<times> gt_sys" where
  "judge env poll_run irq_run fvr_run s =
     (let b = word_of_nat BATCHES;
          p_sub = gemm_ran poll_run div b; p_wall = wall poll_run div b;
          best = (if wall fvr_run < wall irq_run then fvr_run else irq_run);
          i_sub = gemm_ran best div b; i_wall = wall best div b; i_work = worker_ran best div b;
          s = (if i_sub < p_sub then printk ''       -> irq frees %u submitter cyc/batch'' [KU (p_sub - i_sub)] s
               else printk ''       -> irq COSTS %u extra submitter cyc/batch'' [KU (i_sub - p_sub)] s);
          s = printk ('', wall %u -> %u (%s%u)'' @ newline)
                [KU p_wall, KU i_wall, KS (if p_wall < i_wall then ''+'' else ''-''),
                 KU (if p_wall < i_wall then i_wall - p_wall else p_wall - i_wall)] s
      in if \<not> CONFIG_THREAD_RUNTIME_STATS env
         then (False, printk (''          net: cannot judge - this build cannot see worker progress'' @ newline) [] s)
         else if i_wall \<le> p_wall then (True, printk (''          net: faster AND frees CPU'' @ newline) [] s)
         else if i_wall - p_wall < i_work
         then (True, printk (''          net: +%u worker cyc for +%u wall - ahead by %u'' @ newline)
                [KU i_work, KU (i_wall - p_wall), KU (i_work - (i_wall - p_wall))] s)
         else (False, printk (''          net: +%u worker cyc does not cover +%u wall'' @ newline) [KU i_work, KU (i_wall - p_wall)] s))"

section \<open>The main thread\<close>

definition sweep_point :: "gt_env \<Rightarrow> nat \<Rightarrow> nat \<times> gt_sys \<Rightarrow> (nat \<times> gt_sys) option" where
  "sweep_point env n = (\<lambda>(crossover, s). do {
     (poll_run, s) \<leftarrow> run_mode env True n (K_MSEC 500) s;
     (irq_run, s) \<leftarrow> run_mode env False n (K_MSEC 500) s;
     (fvr_run, s) \<leftarrow> run_mode env False n K_FOREVER s;
     let s = report_row n ''irq/forever'' fvr_run (report_row n ''irq/500ms'' irq_run (report_row n ''poll'' poll_run s));
     let (win, s) = judge env poll_run irq_run fvr_run s;
     Some (if win \<and> crossover = 0 then n else crossover, s)
   })"

fun sweep :: "gt_env \<Rightarrow> nat list \<Rightarrow> nat \<times> gt_sys \<Rightarrow> (nat \<times> gt_sys) option" where
  "sweep env [] cs = Some cs"
| "sweep env (n # ns) cs = do { cs \<leftarrow> sweep_point env n cs; sweep env ns cs }"

definition verdict :: "gt_env \<Rightarrow> nat \<Rightarrow> gt_sys \<Rightarrow> gt_sys" where
  "verdict env crossover s =
     (let s = printk (newline @ ''--- verdict ---'' @ newline) [] s;
          q = [KD (int MAX_TILES)]
      in if \<not> CONFIG_THREAD_RUNTIME_STATS env
         then fold (\<lambda>l. printk (l @ newline) [])
           [''  none - this build measures LATENCY (wall/accel/wake/cache) with'',
            ''  the per-switch instrumentation removed, so it cannot see how much'',
            ''  work the freed CPU actually did. Read its wall cost against the'',
            ''  worker figures from the instrumented build.''] s
         else if crossover \<noteq> 0
         then printk (''  interrupts start paying off at %d tiles/batch'' @ newline) [KD (int crossover)] s
         else fold (\<lambda>(l, xs). printk (l @ newline) xs)
           [(''  polling wins at every batch size up to %d - the descriptor'', q),
            (''  queue depth (%d) caps the batch before the accelerator's own'', q),
            (''  time can grow enough to cover the wake path. Batch size has'', []),
            (''  run out as a lever; the wake path is what has to get cheaper.'', [])] s)"

definition pass_format :: string where
  "pass_format = newline @ ''PASS: all %d result words correct'' @ newline"

definition fail_format :: string where
  "fail_format = newline @ ''FAIL: %d wrong result words of %d'' @ newline"

definition result_line :: "gt_sys \<Rightarrow> gt_sys" where
  "result_line s =
     (if gemm_bad s \<noteq> 0 then printk fail_format [KD (int (gemm_bad s)), KD (int (words_checked s))] s
      else printk pass_format [KD (int (words_checked s))] s)"

definition dump_thread :: "gt_env \<Rightarrow> string option \<times> int \<times> string \<Rightarrow> gt_sys \<Rightarrow> gt_sys" where
  "dump_thread env = (\<lambda>(name, prio, state) s.
     (let (c, s) = thread_cycles env s
      in printk (''  %-12s prio %2d  state %-10s ran %u cyc'' @ newline)
           [KS (case name of Some (c # cs) \<Rightarrow> c # cs | _ \<Rightarrow> ''(unnamed)''), KD prio, KS state, KU c] s))"

definition dump_threads :: "gt_env \<Rightarrow> gt_sys \<Rightarrow> gt_sys" where
  "dump_threads env s =
     (if CONFIG_THREAD_MONITOR env
      then fold (dump_thread env) (thread_table env) (printk (newline @ ''--- every thread the kernel knows ---'' @ newline) [] s)
      else printk ('' this is the lean build, which drops them to keep them out of the context switch)'' @ newline) []
        (printk (newline @ ''(thread table and subCPU/worker columns need CONFIG_THREAD_MONITOR + CONFIG_THREAD_RUNTIME_STATS;'' @ newline) [] s))"

text \<open>The baseline: the worker alone, while the main thread sleeps.\<close>

definition baseline_run :: "gt_env \<Rightarrow> gt_sys \<Rightarrow> gt_sys" where
  "baseline_run env s =
     (let s = s\<lparr>work_acc := 1, work_done := 0, work_polls := 0, work_run := True\<rparr>;
          (t0, s) = cycle_get env s;
          s = give_cpu env s;
          (t1, s) = cycle_get env s;
          s = s\<lparr>work_run := False\<rparr>;
          baseline = work_done s; baseline_cycles = t1 - t0
      in printk (''worker alone          %u iterations in %u cycles (%u cyc/iter)'' @ newline)
           [KU baseline, KU baseline_cycles, KU (if baseline \<noteq> 0 then baseline_cycles div baseline else 0)] s)"

text \<open>The geometry the hardware reports, into the statics.\<close>

definition read_geometry :: "gt_sys \<Rightarrow> gt_sys" where
  "read_geometry s =
     (let i = gemm_get_info (dev0 s);
          s = s\<lparr>gt_dim := unat (dim i), gt_k_len := (if unat (max_k i) < KLEN then unat (max_k i) else KLEN),
                gt_panels := (if panels i \<noteq> 0 then unat (panels i) else 1)\<rparr>
      in printk (''geometry: dim=%d maxK=%d panels=%d, running K=%d'' @ newline)
           [KD (uint (dim i)), KD (uint (max_k i)), KD (uint (panels i)), KD (int (gt_k_len s))] s)"

definition gemm_threads_main :: "gt_env \<Rightarrow> gt_sys \<Rightarrow> gt_sys option" where
  "gemm_threads_main env s = do {
     let s = printk (newline @ ''=== accelerator as an OS device ==='' @ newline) [] s;
     if \<not> device_is_ready env then Some (printk (''FAIL: gemm device not ready'' @ newline) [] s)
     else do {
       let s = read_geometry s;
       s \<leftarrow> stage_operands env s;
       let s = baseline_run env s;
       let s = printk (newline @ ''--- %d batches per point, interrupt vs polling, swept ---'' @ newline) [KD (int BATCHES)] s;
       (crossover, s) \<leftarrow> sweep env tile_sweep (0, report_header s);
       let s = verdict env crossover s;
       let s = dump_threads env (result_line s);
       Some (printk (''=== done ==='' @ newline) [] s)
     }
   }"

section \<open>The effect of staging on memory\<close>

lemma flush_operands_effect:
  assumes c: "cache_cfg_ok (cfg env)" and r: "ranges_ok (staged_ranges (dim (info (data s))) tiles)" and "tiles \<noteq> []"
  obtains m where "gemm_flush_operands env tiles s = Some (RC_OK, s\<lparr>mem := m\<rparr>)"
    and "\<And>a. outside_driver (cfg env) a \<Longrightarrow> in_sync (hw_sets (cfg env)) (mem s) a \<Longrightarrow>
      in_sync (hw_sets (cfg env)) m a \<and> cpu_view (hw_sets (cfg env)) m a = cpu_view (hw_sets (cfg env)) (mem s) a"
    and "\<And>a. outside_driver (cfg env) a \<Longrightarrow> covered (staged_ranges (dim (info (data s))) tiles) a \<Longrightarrow> \<not> dc_hit (hw_sets (cfg env)) m a"
proof -
  obtain m where m: "run_ops (cache_data_flush_range (cfg env)) (staged_ranges (dim (info (data s))) tiles) (mem s) = Some m"
      "\<forall>a. outside_driver (cfg env) a \<and> (\<not> dc_hit (hw_sets (cfg env)) (mem s) a \<or>
        covered (staged_ranges (dim (info (data s))) tiles) a) \<longrightarrow> \<not> dc_hit (hw_sets (cfg env)) m a"
    using cache_maint.run_ops_spec [OF flush_maint [OF c] r, of "mem s"] by blast
  show ?thesis
  proof
    show "gemm_flush_operands env tiles s = Some (RC_OK, s\<lparr>mem := m\<rparr>)"
      using assms(3) flush_tiles_run [OF m(1)] by (simp add: gemm_flush_operands_def)
  qed (use m(2) cache_maint.run_ops_view [OF flush_maint [OF c] r m(1)] in blast)+
qed

section \<open>Where the program's data is\<close>

text \<open>The bytes of the operand panels a tile of dimension \<open>d\<close> uses, with the staged values, and the bytes of the results.\<close>

definition a_byte :: "gt_env \<Rightarrow> nat \<Rightarrow> nat \<Rightarrow> bool" where
  "a_byte env d a \<longleftrightarrow> unat (a_panel env) \<le> a \<and> a < unat (a_panel env) + 64 * d"

definition operand_byte :: "gt_env \<Rightarrow> nat \<Rightarrow> nat \<Rightarrow> bool" where
  "operand_byte env d a \<longleftrightarrow> a_byte env d a \<or>
     unat (b_panel env) \<le> a \<and> a < unat (b_panel env) + 8192 \<and> (a - unat (b_panel env)) mod 1024 < 64 * d"

definition staged_value :: "gt_env \<Rightarrow> nat \<Rightarrow> u8" where
  "staged_value env a =
     (if unat (a_panel env) \<le> a \<and> a < unat (a_panel env) + 1024 then word_of_nat ((a - unat (a_panel env)) div 64 + 1)
      else (let k = a - unat (b_panel env) in word_of_nat (k mod 1024 div 64 + 1 + k div 1024)))"

definition dest_byte :: "gt_env \<Rightarrow> nat \<Rightarrow> bool" where
  "dest_byte env a \<longleftrightarrow> unat (dest_buf env) \<le> a \<and> a < unat (dest_buf env) + 2048"

definition panel_byte :: "gt_env \<Rightarrow> nat \<Rightarrow> bool" where
  "panel_byte env a \<longleftrightarrow> unat (a_panel env) \<le> a \<and> a < unat (a_panel env) + 1024 \<or>
     unat (b_panel env) \<le> a \<and> a < unat (b_panel env) + 8192"

text \<open>
  The placement the linker gives: arrays that do not overlap, clear of the cache driver's own storage and of the end of the
  address space, and lines that no other thread stores to while a batch runs, nor accesses while the main thread sleeps.
\<close>

definition layout_ok :: "gt_env \<Rightarrow> bool" where
  "layout_ok env \<longleftrightarrow> cache_cfg_ok (cfg (gemm0 env)) \<and>
     0 < unat (a_panel env) \<and> 0 < unat (b_panel env) \<and> 0 < unat (dest_buf env) \<and>
     unat (a_panel env) + 1024 \<le> 4294967280 \<and> unat (b_panel env) + 8192 \<le> 4294967280 \<and> unat (dest_buf env) + 2048 \<le> 4294967280 \<and>
     (unat (a_panel env) + 1024 \<le> unat (b_panel env) \<or> unat (b_panel env) + 8192 \<le> unat (a_panel env)) \<and>
     (\<forall>a. panel_byte env a \<longrightarrow> \<not> dest_byte env a) \<and>
     (\<forall>a. panel_byte env a \<or> dest_byte env a \<longrightarrow> outside_driver (cfg (gemm0 env)) a \<and>
        (\<forall>k. off_line a (others env k)) \<and> (\<forall>k. \<not> line_stored (waits env k) a))"

lemma operand_panel: "d \<le> 16 \<Longrightarrow> operand_byte env d a \<Longrightarrow> panel_byte env a"
  by (auto simp: operand_byte_def a_byte_def panel_byte_def)

lemma layout_simps:
  assumes "layout_ok env"
  shows "0 < gt_sets env" "p < 8 \<Longrightarrow> unat (b_panel_at env p) = unat (b_panel env) + 1024 * p"
    "p < 8 \<Longrightarrow> unat (dest_tile env p) = unat (dest_buf env) + 256 * p"
proof -
  have "dcache_geometry (hw_sets (cfg (gemm0 env)))" using assms cfg_geometry by (simp add: layout_ok_def)
  then show "0 < gt_sets env" by (simp add: gt_sets_def dcache_geometry_def)
  show "unat (b_panel_at env p) = unat (b_panel env) + 1024 * p" if "p < 8"
    using assms that by (simp add: layout_ok_def KLEN_def unat_word_ariths unat_of_nat)
  show "unat (dest_tile env p) = unat (dest_buf env) + 256 * p" if "p < 8"
    using assms that by (simp add: layout_ok_def unat_word_ariths unat_of_nat)
qed

section \<open>Staging\<close>

lemma set_mem_simps [simp]:
  "mem (dev0 (set_mem m s)) = m" "set_mem m (set_mem m' s) = set_mem m s" "gt_dim (set_mem m s) = gt_dim s"
  "gt_k_len (set_mem m s) = gt_k_len s" "gt_panels (set_mem m s) = gt_panels s" "gemm_bad (set_mem m s) = gemm_bad s"
  "words_checked (set_mem m s) = words_checked s" "console (set_mem m s) = console s" "turn (set_mem m s) = turn s"
  "data (dev0 (set_mem m s)) = data (dev0 s)" "acc (dev0 (set_mem m s)) = acc (dev0 s)" "set_mem (mem (dev0 s)) s = s"
  by (simp_all add: set_mem_def)

text \<open>The addresses in \<open>G\<close> hold their staged values.\<close>

definition staged :: "gt_env \<Rightarrow> gt_sys \<Rightarrow> nat set \<Rightarrow> gt_sys \<Rightarrow> bool" where
  "staged env s G t \<longleftrightarrow> (\<exists>m. t = set_mem m s \<and> (\<forall>a. panel_byte env a \<longrightarrow> in_sync (gt_sets env) m a) \<and>
     (\<forall>a \<in> G. panel_byte env a \<and> cpu_view (gt_sets env) m a = staged_value env a))"

lemma store_staged:
  assumes "layout_ok env" "staged env s G t" "idx < n" "panel_byte env (unat base + idx)" "v = staged_value env (unat base + idx)"
  shows "\<exists>t'. store_elem env base n idx v t = Some t' \<and> staged env s (insert (unat base + idx) G) t'"
proof -
  obtain m where m: "t = set_mem m s" "\<And>a. panel_byte env a \<Longrightarrow> in_sync (gt_sets env) m a"
    "\<And>a. a \<in> G \<Longrightarrow> panel_byte env a \<and> cpu_view (gt_sets env) m a = staged_value env a"
    using assms(2) by (auto simp: staged_def)
  note ns = layout_simps(1) [OF assms(1)]
  let ?m = "dc_store8 (gt_sets env) (unat base + idx) v m"
  have "store_elem env base n idx v t = Some (set_mem ?m s)" using assms(3) m(1) by (simp add: store_elem_def)
  moreover have "staged env s (insert (unat base + idx) G) (set_mem ?m s)"
    unfolding staged_def using m(2,3) assms(4,5)
    by (intro exI [of _ ?m]) (auto simp: in_sync_store8 [OF ns] view_store8 [OF ns])
  ultimately show ?thesis by blast
qed

text \<open>The addresses written for the first \<open>n\<close> bytes of every panel.\<close>

definition staged_upto :: "gt_env \<Rightarrow> nat \<Rightarrow> nat set" where
  "staged_upto env n = {unat (a_panel env) + i |i. i < n} \<union> {unat (b_panel env) + 1024 * p + i |p i. p < 8 \<and> i < n}"

lemma staged_value_a: "i < 1024 \<Longrightarrow> staged_value env (unat (a_panel env) + i) = word_of_nat (i div 64 + 1)"
  by (simp add: staged_value_def)

lemma staged_value_b:
  assumes "layout_ok env" "p < 8" "i < 1024"
  shows "staged_value env (unat (b_panel env) + 1024 * p + i) = word_of_nat (i div 64 + 1 + p)"
proof -
  have "\<not> (unat (a_panel env) \<le> unat (b_panel env) + 1024 * p + i \<and> unat (b_panel env) + 1024 * p + i < unat (a_panel env) + 1024)"
    using assms by (auto simp: layout_ok_def)
  moreover have "unat (b_panel env) + 1024 * p + i - unat (b_panel env) = i + p * 1024" by simp
  ultimately have "staged_value env (unat (b_panel env) + 1024 * p + i) = word_of_nat ((i + p * 1024) mod 1024 div 64 + 1 + (i + p * 1024) div 1024)"
    unfolding staged_value_def Let_def by (simp only: if_False)
  with assms(3) show ?thesis by simp
qed

lemma stage_elem:
  assumes "layout_ok env" "staged env s (staged_upto env idx) t" "idx < 1024"
  shows "\<exists>t'. do { t \<leftarrow> store_elem env (a_panel env) (16 * KLEN) idx (word_of_nat (idx div 64 + 1)) t;
      for_opt MAX_TILES (\<lambda>p. store_elem env (b_panel_at env p) (16 * KLEN) idx (word_of_nat (idx div 64 + 1 + p))) t } = Some t' \<and>
    staged env s (staged_upto env (Suc idx)) t'"
proof -
  let ?A = "insert (unat (a_panel env) + idx) (staged_upto env idx)"
  obtain t1 where t1: "store_elem env (a_panel env) (16 * KLEN) idx (word_of_nat (idx div 64 + 1)) t = Some t1"
    "staged env s ?A t1"
    using store_staged [OF assms(1,2), of idx "16 * KLEN" "a_panel env"] assms(3)
    by (auto simp: KLEN_def panel_byte_def staged_value_a)
  let ?P = "\<lambda>q. staged env s (?A \<union> {unat (b_panel env) + 1024 * p + idx |p. p < q})"
  have "\<exists>t'. for_opt 8 (\<lambda>p. store_elem env (b_panel_at env p) (16 * KLEN) idx (word_of_nat (idx div 64 + 1 + p))) t1 = Some t' \<and> ?P 8 t'"
  proof (rule for_opt_induct)
    show "?P 0 t1" using t1(2) by simp
  next
    fix q u assume q: "q < 8" "?P q u"
    have b: "unat (b_panel_at env q) = unat (b_panel env) + 1024 * q" by (rule layout_simps(2) [OF assms(1) q(1)])
    have eq: "insert (unat (b_panel_at env q) + idx) (?A \<union> {unat (b_panel env) + 1024 * p + idx |p. p < q}) =
        ?A \<union> {unat (b_panel env) + 1024 * p + idx |p. p < Suc q}"
      unfolding b by (auto simp: less_Suc_eq)
    have v: "word_of_nat (idx div 64 + 1 + q) = staged_value env (unat (b_panel_at env q) + idx)"
      unfolding b by (rule staged_value_b [OF assms(1) q(1) assms(3), symmetric])
    have pb: "panel_byte env (unat (b_panel_at env q) + idx)" "idx < 16 * KLEN"
      unfolding b using q(1) assms(3) by (simp_all add: panel_byte_def KLEN_def)
    show "\<exists>t'. store_elem env (b_panel_at env q) (16 * KLEN) idx (word_of_nat (idx div 64 + 1 + q)) u = Some t' \<and> ?P (Suc q) t'"
      by (rule store_staged [OF assms(1) q(2) pb(2,1) v, unfolded eq])
  qed
  moreover have "?A \<union> {unat (b_panel env) + 1024 * p + idx |p. p < 8} = staged_upto env (Suc idx)"
    by (auto simp: staged_upto_def less_Suc_eq)
  ultimately show ?thesis using t1(1) by (simp add: MAX_TILES_def)
qed

lemma stage_operands_staged:
  assumes "layout_ok env" "gt_dim s = d" "d \<le> 16" "gt_k_len s = 64" "\<And>a. panel_byte env a \<Longrightarrow> in_sync (gt_sets env) (mem (dev0 s)) a"
  obtains m where "stage_operands env s = Some (set_mem m s)" "\<And>a. operand_byte env d a \<Longrightarrow> in_sync (gt_sets env) m a"
    "\<And>a. operand_byte env d a \<Longrightarrow> cpu_view (gt_sets env) m a = staged_value env a"
proof -
  have 0: "staged env s (staged_upto env 0) s"
    using assms(5) by (auto simp: staged_def staged_upto_def intro: exI [of _ "mem (dev0 s)"])
  have "\<exists>t. stage_operands env s = Some t \<and> staged env s (staged_upto env (d * 64)) t"
    unfolding stage_operands_def assms(2,4)
  proof (rule for_opt_induct [where P = "\<lambda>lane. staged env s (staged_upto env (lane * 64))"])
    show "staged env s (staged_upto env (0 * 64)) s" using 0 by simp
  next
    fix lane t assume l: "lane < d" "staged env s (staged_upto env (lane * 64)) t"
    have "\<exists>t'. for_opt 64 (\<lambda>k t. do {
        t \<leftarrow> store_elem env (a_panel env) (16 * KLEN) (lane * 64 + k) (word_of_nat (lane + 1)) t;
        for_opt MAX_TILES (\<lambda>p. store_elem env (b_panel_at env p) (16 * KLEN) (lane * 64 + k) (word_of_nat (lane + 1 + p))) t }) t = Some t' \<and>
      staged env s (staged_upto env (lane * 64 + 64)) t'"
    proof (rule for_opt_induct [where P = "\<lambda>k. staged env s (staged_upto env (lane * 64 + k))"])
      show "staged env s (staged_upto env (lane * 64 + 0)) t" using l(2) by simp
    next
      fix k u assume k: "k < (64 :: nat)" "staged env s (staged_upto env (lane * 64 + k)) u"
      have "lane * 64 + k < 1024" "(lane * 64 + k) div 64 = lane" using k(1) l(1) assms(3) by simp_all
      with stage_elem [OF assms(1) k(2)]
      show "\<exists>t'. do { t \<leftarrow> store_elem env (a_panel env) (16 * KLEN) (lane * 64 + k) (word_of_nat (lane + 1)) u;
          for_opt MAX_TILES (\<lambda>p. store_elem env (b_panel_at env p) (16 * KLEN) (lane * 64 + k) (word_of_nat (lane + 1 + p))) t } = Some t' \<and>
        staged env s (staged_upto env (lane * 64 + Suc k)) t'"
        by simp
    qed
    then show "\<exists>t'. for_opt 64 (\<lambda>k t. do {
        t \<leftarrow> store_elem env (a_panel env) (16 * KLEN) (lane * 64 + k) (word_of_nat (lane + 1)) t;
        for_opt MAX_TILES (\<lambda>p. store_elem env (b_panel_at env p) (16 * KLEN) (lane * 64 + k) (word_of_nat (lane + 1 + p))) t }) t = Some t' \<and>
      staged env s (staged_upto env (Suc lane * 64)) t'"
      by (simp add: add.commute)
  qed
  then obtain m where m: "stage_operands env s = Some (set_mem m s)" "\<And>a. panel_byte env a \<Longrightarrow> in_sync (gt_sets env) m a"
    "\<And>a. a \<in> staged_upto env (d * 64) \<Longrightarrow> cpu_view (gt_sets env) m a = staged_value env a"
    by (auto simp: staged_def)
  have "a \<in> staged_upto env (d * 64)" if "operand_byte env d a" for a
  proof (cases "a_byte env d a")
    case True
    then obtain i where "a = unat (a_panel env) + i" "i < d * 64" by (auto simp: a_byte_def le_iff_add)
    then show ?thesis by (auto simp: staged_upto_def)
  next
    case False
    define k where "k = a - unat (b_panel env)"
    have k: "a = unat (b_panel env) + k" "k < 8192" "k mod 1024 < d * 64"
      using False that by (auto simp: operand_byte_def k_def)
    from k(1,2) have "a = unat (b_panel env) + 1024 * (k div 1024) + k mod 1024" "k div 1024 < 8" by simp_all
    with k(3) show ?thesis unfolding staged_upto_def by blast
  qed
  with m that operand_panel [OF assms(3)] show ?thesis by blast
qed

section \<open>What the accelerator computes\<close>

definition gt_accel :: "gt_env \<Rightarrow> accel_geom \<Rightarrow> bool" where
  "gt_accel env g \<longleftrightarrow> accel_env g (gemm0 env) \<and> g_dim g \<in> {4, 8} \<and> 64 \<le> g_maxK g"

text \<open>The statics hold the geometry.\<close>

definition statics_ok :: "accel_geom \<Rightarrow> gt_sys \<Rightarrow> bool" where
  "statics_ok g s \<longleftrightarrow> gt_dim s = g_dim g \<and> gt_k_len s = 64 \<and> unat (dim (info (data (dev0 s)))) = g_dim g"

abbreviation runner_tiles :: "gt_env \<Rightarrow> gt_sys \<Rightarrow> nat \<Rightarrow> gemm_tile list" where
  "runner_tiles env s n \<equiv> map (runner_tile env s) [0..<n]"

text \<open>The value \<^verbatim>\<open>check_results\<close> expects in byte \<open>k\<close> of tile \<open>p\<close>.\<close>

definition expected :: "nat \<Rightarrow> nat \<Rightarrow> nat \<Rightarrow> u8" where
  "expected d p k = word_of_nat ((k div d + 1) * (k mod d + 1 + p))"

lemma scast_small:
  assumes "n < 128"
  shows "(scast (word_of_nat n :: u8) :: s32) = word_of_nat n"
proof -
  have "sint (word_of_nat n :: u8) = int n" using assms by (simp add: signed_of_nat signed_take_bit_int_eq_self)
  then show ?thesis unfolding scast_eq by (simp only: of_int_of_nat_eq)
qed

lemma sum_list_const: "(\<Sum>k \<leftarrow> [0..<n]. c) = word_of_nat n * (c :: 'a::len word)"
  by (induction n) (simp_all add: algebra_simps)

lemma staged_product:
  assumes "layout_ok env" "p < 8" "i < d" "j < d" "d \<le> 8"
    and A: "\<And>k. k < 64 * d \<Longrightarrow> m (unat (a_panel env) + k) = staged_value env (unat (a_panel env) + k)"
    and B: "\<And>k. k < 64 * d \<Longrightarrow> m (unat (b_panel env) + 1024 * p + k) = staged_value env (unat (b_panel env) + 1024 * p + k)"
  shows "tile_product m (a_panel env) (b_panel_at env p) 64 i j = word_of_nat (2 ^ 6 * ((i + 1) * (j + 1 + p)))"
proof -
  have b: "unat (b_panel_at env p) = unat (b_panel env) + 1024 * p" by (rule layout_simps(2) [OF assms(1,2)])
  have no_wrap: "unat (x + word_of_nat (i * 64 + k)) = unat x + (i * 64 + k)" if "unat x + 1024 \<le> 4294967280" "i < d" "k < 64" for x :: u32 and i k
    using that assms(5) by (simp add: unat_word_ariths unat_of_nat)
  have x: "unat (a_panel env) + 1024 \<le> 4294967280" "unat (b_panel_at env p) + 1024 \<le> 4294967280"
    unfolding b using assms(1,2) by (simp_all add: layout_ok_def)
  have "scast (m (unat (a_panel env + word_of_nat (i * 64 + k)))) * scast (m (unat (b_panel_at env p + word_of_nat (j * 64 + k)))) =
      (word_of_nat (i + 1) * word_of_nat (j + 1 + p) :: s32)" if "k < 64" for k
  proof -
    have "i * 64 + k < 64 * d" "j * 64 + k < 64 * d" "i * 64 + k < 1024" "j * 64 + k < 1024" "(i * 64 + k) div 64 = i" "(j * 64 + k) div 64 = j"
      using that assms(3-5) by simp_all
    then have "m (unat (a_panel env) + (i * 64 + k)) = word_of_nat (i + 1)"
      "m (unat (b_panel env) + 1024 * p + (j * 64 + k)) = word_of_nat (j + 1 + p)"
      using A [of "i * 64 + k"] B [of "j * 64 + k"] staged_value_a [of "i * 64 + k" env] staged_value_b [OF assms(1,2), of "j * 64 + k"]
      by simp_all
    moreover have "i + 1 < 128" "j + 1 + p < 128" using assms(2-5) by simp_all
    ultimately show ?thesis
      unfolding no_wrap [OF x(1) assms(3) that] no_wrap [OF x(2) assms(4) that] b by (simp only: scast_small)
  qed
  then have "tile_product m (a_panel env) (b_panel_at env p) 64 i j = (\<Sum>k \<leftarrow> [0..<64]. word_of_nat (i + 1) * word_of_nat (j + 1 + p))"
    unfolding tile_product_def by (intro arg_cong [of _ _ sum_list] map_cong) (simp_all del: of_nat_Suc of_nat_add)
  also have "\<dots> = word_of_nat (2 ^ 6 * ((i + 1) * (j + 1 + p)))"
    unfolding sum_list_const of_nat_mult by simp
  finally show ?thesis .
qed

lemma tile_writes_int8:
  assumes "g_dim g \<in> {4, 8}"
  shows "tile_writes g ac dst 0 (out_ctrl_of True OUT_SHIFT) =
    map (\<lambda>n. (unat dst + n, requant 6 (ac (n div g_dim g) (n mod g_dim g)))) [0..<g_dim g * g_dim g]"
proof -
  have "out_ctrl_of True OUT_SHIFT = 0x106" by code_simp
  moreover have "bit (0x106 :: u32) 8" "unat (0x106 AND 0x1F :: u32) = 6" by code_simp+
  moreover have "int8Capable g" using assms by (auto simp: int8Capable_def)
  ultimately show ?thesis by (simp add: tile_writes_def Let_def)
qed

text \<open>A batch of the runner writes the requantised products, and nothing else whatever the operands are.\<close>

lemma runner_output_find:
  assumes lay: "layout_ok env" and acc: "gt_accel env g" and st: "statics_ok g s" and n: "0 < n" "n \<le> 8"
  shows "batch_output (gemm0 env) (runner_tiles env s n) 0 True OUT_SHIFT c a =
    (case find (\<lambda>p. unat (dest_buf env) + 256 * p \<le> a \<and> a < unat (dest_buf env) + 256 * p + g_dim g * g_dim g) [0..<n] of
       None \<Rightarrow> None
     | Some p \<Rightarrow> let k = a - (unat (dest_buf env) + 256 * p)
         in Some (requant 6 (tile_product c (a_panel env) (b_panel_at env p) 64 (k div g_dim g) (k mod g_dim g))))"
proof -
  let ?d = "g_dim g" and ?oc = "out_ctrl_of True OUT_SHIFT" and ?ts = "runner_tiles env s n"
  let ?v = "\<lambda>p k. requant 6 (tile_product c (a_panel env) (b_panel_at env p) 64 (k div ?d) (k mod ?d))"
  have d: "?d \<in> {4, 8}" "64 \<le> g_maxK g" "64 + 2 * (?d - 1) \<le> 256" using acc by (auto simp: gt_accel_def)
  obtain sc where "batch_output (gemm0 env) ?ts 0 True OUT_SHIFT c = accel_results g sc (map desc_of ?ts) 0 ?oc c"
    using acc unfolding gt_accel_def accel_env_def batch_output_def by blast
  also have "\<dots> = map_of (concat (rev (map (\<lambda>t. tile_writes g (tile_product c (a_panel env) (b_src t) 64) (dest t) 0 ?oc) ?ts)))"
  proof -
    have "\<not> b_only (hd ?ts)" "?ts \<noteq> []" using n(1) by (simp_all add: hd_map runner_tile_def)
    moreover have "\<forall>t \<in> set ?ts. unat (k_len t) = 64 \<and> panel_use t = panel_load t \<and> a_src t = a_panel env"
      using st by (auto simp: runner_tile_def statics_ok_def)
    ultimately show ?thesis
      unfolding accel_results_def using accel_batch_shared [of 64 g ?ts "a_panel env" c sc 0 ?oc "[]"] d(2,3) by simp
  qed
  also have "map (\<lambda>t. tile_writes g (tile_product c (a_panel env) (b_src t) 64) (dest t) 0 ?oc) ?ts =
      map (\<lambda>p. map (\<lambda>k. (unat (dest_buf env) + 256 * p + k, ?v p k)) [0..<?d * ?d]) [0..<n]"
  proof (unfold map_map, rule map_cong [OF refl])
    fix p assume "p \<in> set [0..<n]"
    then have "p < 8" using n(2) by simp
    then show "((\<lambda>t. tile_writes g (tile_product c (a_panel env) (b_src t) 64) (dest t) 0 ?oc) \<circ> runner_tile env s) p =
        map (\<lambda>k. (unat (dest_buf env) + 256 * p + k, ?v p k)) [0..<?d * ?d]"
      using layout_simps(3) [OF lay] by (simp add: runner_tile_def tile_writes_int8 [OF d(1)])
  qed
  finally have "batch_output (gemm0 env) ?ts 0 True OUT_SHIFT c a = map_of (concat (rev (map (\<lambda>p. map (\<lambda>k. (unat (dest_buf env) + 256 * p + k, ?v p k))
      [0..<?d * ?d]) [0..<n]))) a" by (rule fun_cong)
  also have "\<dots> = (case find (\<lambda>p. unat (dest_buf env) + 256 * p \<le> a \<and> a < unat (dest_buf env) + 256 * p + ?d * ?d) [0..<n] of
      None \<Rightarrow> None | Some p \<Rightarrow> Some (?v p (a - (unat (dest_buf env) + 256 * p))))"
    by (rule map_of_tiles) (use d(1) in auto)
  finally show ?thesis unfolding Let_def .
qed

lemma runner_output_none:
  assumes "layout_ok env" "gt_accel env g" "statics_ok g s" "0 < n" "n \<le> 8" "\<not> dest_byte env a"
  shows "batch_output (gemm0 env) (runner_tiles env s n) 0 True OUT_SHIFT c a = None"
proof -
  have "g_dim g * g_dim g \<le> 64" using assms(2) by (auto simp: gt_accel_def)
  then have "find (\<lambda>p. unat (dest_buf env) + 256 * p \<le> a \<and> a < unat (dest_buf env) + 256 * p + g_dim g * g_dim g) [0..<n] = None"
    using assms(5,6) by (auto simp: find_None_iff dest_byte_def)
  then show ?thesis unfolding runner_output_find [OF assms(1-5)] by simp
qed

text \<open>From staged operands the values are the expected ones.\<close>

lemma runner_output:
  assumes lay: "layout_ok env" and acc: "gt_accel env g" and st: "statics_ok g s" and n: "0 < n" "n \<le> 8" and p: "p < n" and k: "k < g_dim g * g_dim g"
    and mem: "\<And>a. a_byte env (g_dim g) a \<Longrightarrow> c a = staged_value env a"
      "\<And>k. k < 64 * g_dim g \<Longrightarrow> c (unat (b_panel env) + 1024 * p + k) = staged_value env (unat (b_panel env) + 1024 * p + k)"
  shows "batch_output (gemm0 env) (runner_tiles env s n) 0 True OUT_SHIFT c (unat (dest_buf env) + 256 * p + k) = Some (expected (g_dim g) p k)"
proof -
  let ?d = "g_dim g" and ?a = "unat (dest_buf env) + 256 * p + k"
  have d: "?d \<le> 8" "?d * ?d \<le> 64" "0 < ?d" using acc by (auto simp: gt_accel_def)
  have kd: "k div ?d < ?d" "k mod ?d < ?d" using k d(3) by (simp_all add: less_mult_imp_div_less)
  have f: "find (\<lambda>q. unat (dest_buf env) + 256 * q \<le> ?a \<and> ?a < unat (dest_buf env) + 256 * q + ?d * ?d) [0..<n] = Some p"
    using p k d(2) by (auto simp: find_Some_iff intro!: exI [of _ p])
  have "a_byte env ?d (unat (a_panel env) + x)" if "x < 64 * ?d" for x using that by (simp add: a_byte_def)
  then have "tile_product c (a_panel env) (b_panel_at env p) 64 (k div ?d) (k mod ?d) = word_of_nat (2 ^ 6 * ((k div ?d + 1) * (k mod ?d + 1 + p)))"
    using p n(2) mem kd d(1) by (intro staged_product [OF lay, of p _ ?d]) auto
  moreover have "(k div ?d + 1) * (k mod ?d + 1 + p) \<le> 8 * 15"
    using kd d(1) p n(2) by (intro mult_le_mono) linarith+
  ultimately have "requant 6 (tile_product c (a_panel env) (b_panel_at env p) 64 (k div ?d) (k mod ?d)) = expected ?d p k"
    using requant_exact [of "(k div ?d + 1) * (k mod ?d + 1 + p)" 6] by (simp only: expected_def)
  then show ?thesis unfolding runner_output_find [OF lay acc st n] f by simp
qed

section \<open>The batches of a run\<close>

text \<open>The operand bytes hold their staged values for the CPU, and are in sync.\<close>

definition operands_held :: "gt_env \<Rightarrow> accel_geom \<Rightarrow> dcsys \<Rightarrow> bool" where
  "operands_held env g m \<longleftrightarrow>
     (\<forall>a. operand_byte env (g_dim g) a \<longrightarrow> in_sync (gt_sets env) m a \<and> cpu_view (gt_sets env) m a = staged_value env a)"

definition a_clean :: "gt_env \<Rightarrow> accel_geom \<Rightarrow> dcsys \<Rightarrow> bool" where
  "a_clean env g m \<longleftrightarrow> (\<forall>a. a_byte env (g_dim g) a \<longrightarrow> \<not> dc_dirty_at (gt_sets env) m a)"

text \<open>The result bytes of the first \<open>n\<close> tiles: clean, and holding the expected values.\<close>

definition results_clean :: "gt_env \<Rightarrow> accel_geom \<Rightarrow> nat \<Rightarrow> dcsys \<Rightarrow> bool" where
  "results_clean env g n m \<longleftrightarrow>
     (\<forall>p < n. \<forall>k < g_dim g * g_dim g. \<not> dc_dirty_at (gt_sets env) m (unat (dest_buf env) + 256 * p + k))"

definition results_held :: "gt_env \<Rightarrow> accel_geom \<Rightarrow> nat \<Rightarrow> dcsys \<Rightarrow> bool" where
  "results_held env g n m \<longleftrightarrow> (\<forall>p < n. \<forall>k < g_dim g * g_dim g.
     in_sync (gt_sets env) m (unat (dest_buf env) + 256 * p + k) \<and>
     cpu_view (gt_sets env) m (unat (dest_buf env) + 256 * p + k) = expected (g_dim g) p k)"

lemma runner_tile_simps [simp]:
  "a_src (runner_tile env s p) = a_panel env" "b_src (runner_tile env s p) = b_panel_at env p"
  "dest (runner_tile env s p) = dest_tile env p" "src_coherent (runner_tile env s p)"
  "k_len (runner_tile env s p) = word_of_nat (gt_k_len s)"
  by (simp_all add: runner_tile_def)

lemma b_panel_nonzero: "layout_ok env \<Longrightarrow> p < 8 \<Longrightarrow> b_panel_at env p \<noteq> 0 \<and> dest_tile env p \<noteq> 0 \<and> a_panel env \<noteq> 0"
  using layout_simps(2,3) [of env p] unat_gt_0 [of "b_panel_at env p"] unat_gt_0 [of "dest_tile env p"] unat_gt_0 [of "a_panel env"]
  by (simp add: layout_ok_def)

lemma operand_size:
  assumes "statics_ok g s" "gt_accel env g"
  shows "unat (ucast (dim (info (data (dev0 s)))) * ucast (word_of_nat (gt_k_len s) :: u16) :: u32) = 64 * g_dim g"
    "unat (tile_bytes (dev0 s) True) = g_dim g * g_dim g"
proof -
  have "word_of_nat (unat (dim (info (data (dev0 s))))) = dim (info (data (dev0 s)))" by simp
  then have "dim (info (data (dev0 s))) = word_of_nat (g_dim g)" using assms(1) by (simp only: statics_ok_def)
  then show "unat (ucast (dim (info (data (dev0 s)))) * ucast (word_of_nat (gt_k_len s) :: u16) :: u32) = 64 * g_dim g"
    "unat (tile_bytes (dev0 s) True) = g_dim g * g_dim g"
    using assms by (auto simp: statics_ok_def gt_accel_def tile_bytes_def Let_def)
qed

lemma runner_ranges:
  assumes lay: "layout_ok env" and acc: "gt_accel env g" and st: "statics_ok g s" and n: "n \<le> 8"
  shows "ranges_ok (staged_ranges (dim (info (data (dev0 s)))) (runner_tiles env s n))"
    "ranges_ok (operand_ranges (dim (info (data (dev0 s)))) (runner_tiles env s n))"
    "ranges_ok (dest_ranges (tile_bytes (dev0 s) True) (runner_tiles env s n))"
    "a_byte env (g_dim g) a \<Longrightarrow> 0 < n \<Longrightarrow> covered (staged_ranges (dim (info (data (dev0 s)))) (runner_tiles env s n)) a"
    "p < n \<Longrightarrow> k < 64 * g_dim g \<Longrightarrow> operand_at (runner_tiles env s n) (dev0 s) (unat (b_panel env) + 1024 * p + k)"
    "p < n \<Longrightarrow> k < g_dim g * g_dim g \<Longrightarrow> dest_at (runner_tiles env s n) True (dev0 s) (unat (dest_buf env) + 256 * p + k)"
proof -
  let ?d = "g_dim g" and ?D = "dim (info (data (dev0 s)))" and ?ts = "runner_tiles env s n"
  let ?N = "ucast ?D * ucast (word_of_nat (gt_k_len s) :: u16) :: u32" and ?T = "tile_bytes (dev0 s) True"
  have N: "unat ?N = 64 * ?d" "unat ?T = ?d * ?d" by (rule operand_size [OF st acc])+
  have d: "64 * ?d \<le> 512" "?d * ?d \<le> 64" using acc by (auto simp: gt_accel_def)
  have nz: "b_panel_at env p \<noteq> 0 \<and> dest_tile env p \<noteq> 0 \<and> a_panel env \<noteq> 0" if "p < n" for p
    by (rule b_panel_nonzero [OF lay]) (use that n in simp)
  have pos: "unat (b_panel_at env p) = unat (b_panel env) + 1024 * p" "unat (dest_tile env p) = unat (dest_buf env) + 256 * p" if "p < n" for p
    using layout_simps(2,3) [OF lay, of p] that n by simp_all
  have S: "set (staged_ranges ?D ?ts) = {(a_panel env, ?N) |p. p < n} \<union> {(b_panel_at env p, ?N) |p. p < n}"
    using nz by (auto simp: staged_ranges_def)
  have O: "set (operand_ranges ?D ?ts) = {(b_panel_at env p, ?N) |p. p < n}"
    using nz by (auto simp: operand_ranges_def tile_operands_def)
  have E: "set (dest_ranges ?T ?ts) = {(dest_tile env p, ?T) |p. p < n}"
    using nz by (auto simp: dest_ranges_def image_iff)
  have B: "maint_range (b_panel_at env p) ?N" "maint_range (dest_tile env p) ?T" if "p < n" for p
    using lay d n that unfolding maint_range_def N pos [OF that] by (simp_all add: layout_ok_def)
  have A: "maint_range (a_panel env) ?N" using lay d unfolding maint_range_def N by (simp add: layout_ok_def)
  show "ranges_ok (staged_ranges ?D ?ts)" unfolding ranges_ok_def S using A B(1) by auto
  show "ranges_ok (operand_ranges ?D ?ts)" unfolding ranges_ok_def O using B(1) by auto
  show "ranges_ok (dest_ranges ?T ?ts)" unfolding ranges_ok_def E using B(2) by auto
  show "covered (staged_ranges ?D ?ts) a" if "a_byte env ?d a" "0 < n"
    unfolding covered_def S by (rule bexI [of _ "(a_panel env, ?N)"]) (use that N in \<open>auto simp: in_range_def a_byte_def\<close>)
  show "operand_at ?ts (dev0 s) (unat (b_panel env) + 1024 * p + k)" if "p < n" "k < 64 * ?d"
    unfolding operand_at_def covered_def O
    by (rule bexI [of _ "(b_panel_at env p, ?N)"]) (use that(2) N pos [OF that(1)] in \<open>simp add: in_range_def\<close>, use that(1) in blast)
  show "dest_at ?ts True (dev0 s) (unat (dest_buf env) + 256 * p + k)" if "p < n" "k < ?d * ?d"
    unfolding dest_at_def covered_def E
    by (rule bexI [of _ "(dest_tile env p, ?T)"]) (use that(2) N pos [OF that(1)] in \<open>simp add: in_range_def\<close>, use that(1) in blast)
qed

lemma operand_cases:
  assumes "layout_ok env" "operand_byte env d a" "d \<le> 16" "\<not> a_byte env d a"
  obtains p k where "p < 8" "k < 64 * d" "a = unat (b_panel env) + 1024 * p + k"
proof
  let ?o = "a - unat (b_panel env)"
  show "?o div 1024 < 8" "?o mod 1024 < 64 * d" "a = unat (b_panel env) + 1024 * (?o div 1024) + ?o mod 1024"
    using assms by (auto simp: operand_byte_def)
qed

lemma areas:
  assumes "layout_ok env"
  shows "panel_byte env a \<Longrightarrow> outside_driver (cfg (gemm0 env)) a \<and> off_line a (others env k) \<and> \<not> line_stored (waits env k) a"
    "dest_byte env a \<Longrightarrow> outside_driver (cfg (gemm0 env)) a \<and> off_line a (others env k) \<and> \<not> line_stored (waits env k) a"
    "panel_byte env a \<Longrightarrow> \<not> dest_byte env a"
  using assms by (auto simp: layout_ok_def)

lemma dest_byte_tile: "p < 8 \<Longrightarrow> k < 256 \<Longrightarrow> dest_byte env (unat (dest_buf env) + 256 * p + k)"
  by (simp add: dest_byte_def)

text \<open>
  A batch that finds the operands held and the A panel clean computes the expected results; the CPU reads them if the result lines were
  clean before, and in any case they are clean afterwards.
\<close>

lemma runner_batch:
  assumes lay: "layout_ok env" and acc: "gt_accel env g" and st: "statics_ok g s" and n: "0 < n" "n \<le> 8"
    and w: "completes (poll_mode (data d)) tmo (waits env t)"
    and inf: "info (data d) = info (data (dev0 s))" and idle: "batch_idle d"
    and held: "operands_held env g (mem d)" and ac: "a_clean env g (mem d)"
  obtains d' where "gemm_run_batch (gemm0 env) (waits env t) (runner_tiles env s n) 0 True OUT_SHIFT tmo d = Some (RC_OK, d')" "batch_idle d'"
    "setup_of d' = setup_of d" "operands_held env g (mem d')" "a_clean env g (mem d')" "results_clean env g n (mem d')"
    "results_clean env g n (mem d) \<Longrightarrow> results_held env g n (mem d')"
proof -
  let ?d = "g_dim g" and ?ts = "runner_tiles env s n" and ?E = "gemm0 env" and ?ns = "gt_sets env" and ?w = "waits env t"
  let ?D = "\<lambda>p k. unat (dest_buf env) + 256 * p + k" and ?R = "batch_output (gemm0 env) (runner_tiles env s n) 0 True OUT_SHIFT"
  have d: "?d \<le> 16" "?d * ?d \<le> 64" using acc by (auto simp: gt_accel_def)
  have tb: "tile_bytes d True = tile_bytes (dev0 s) True" using inf by (simp add: tile_bytes_def)
  note rr = runner_ranges [OF lay acc st n(2)]
  have ok: "batch_ok ?E ?ts 0 True d"
    using lay idle n rr(2,3) inf tb by (simp add: batch_ok_def layout_ok_def)
  have opat: "operand_at ?ts d = operand_at ?ts (dev0 s)" "dest_at ?ts True d = dest_at ?ts True (dev0 s)"
    using inf tb by (simp_all add: operand_at_def dest_at_def fun_eq_iff)
  have out: "outside_driver (cfg ?E) a" "\<not> line_stored ?w a" "\<not> stored ?w a" if "panel_byte env a \<or> dest_byte env a" for a
    using areas(1,2) [OF lay, of a t] that by (auto simp: line_stored_def stored_def)
  have none: "?R c a = None" if "panel_byte env a" for a c using runner_output_none [OF lay acc st n areas(3) [OF lay that]] .
  then have sett: "settled ?E ?w ?ts 0 True OUT_SHIFT a" if "panel_byte env a" for a using out(2) that by (simp add: settled_def)
  obtain M d' where run: "gemm_run_batch ?E ?w ?ts 0 True OUT_SHIFT tmo d = Some (RC_OK, d')" "batch_idle d'" "setup_of d' = setup_of d"
    and op: "\<forall>x a. outside_driver (cfg ?E) a \<and> operand_at ?ts d a \<and> in_sync ?ns (mem d) a \<and> settled ?E ?w ?ts 0 True OUT_SHIFT a \<longrightarrow>
      M x a = cpu_view ?ns (mem d) a"
    and cl: "\<forall>x a. outside_driver (cfg ?E) a \<and> \<not> dc_dirty_at ?ns (mem d) a \<and> settled ?E ?w ?ts 0 True OUT_SHIFT a \<longrightarrow> M x a = dram (mem d) a"
    and res: "\<forall>a v. outside_driver (cfg ?E) a \<and> dest_at ?ts True d a \<and> \<not> dc_dirty_at ?ns (mem d) a \<and> \<not> line_stored ?w a \<and> ?R (M a) a = Some v \<longrightarrow>
      cpu_view ?ns (mem d') a = v"
    and keep: "\<forall>a. outside_driver (cfg ?E) a \<and> in_sync ?ns (mem d) a \<and> \<not> stored ?w a \<and> ?R (M a) a = None \<longrightarrow>
      cpu_view ?ns (mem d') a = cpu_view ?ns (mem d) a"
    and clean: "\<forall>a. outside_driver (cfg ?E) a \<and> \<not> dc_dirty_at ?ns (mem d) a \<and> \<not> line_stored ?w a \<longrightarrow>
      \<not> dc_dirty_at ?ns (mem d') a \<and> (?R (M a) a = None \<longrightarrow> dram (mem d') a = dram (mem d) a)"
    and sync: "\<forall>a. outside_driver (cfg ?E) a \<and> in_sync ?ns (mem d) a \<and> \<not> stored ?w a \<and> ?R (M a) a = None \<longrightarrow> in_sync ?ns (mem d') a"
    and miss: "\<forall>a. outside_driver (cfg ?E) a \<and> dest_at ?ts True d a \<longrightarrow> \<not> dc_hit ?ns (mem d') a"
    using gemm_run_batch_coherent_aux [OF ok w, of OUT_SHIFT, folded gt_sets_def] by (elim exE conjE) (rule that; assumption)
  have mA: "M x a = staged_value env a" if "a_byte env ?d a" for x a
  proof -
    have o: "operand_byte env ?d a" using that by (simp add: operand_byte_def)
    note pb = operand_panel [OF d(1) o]
    have "\<not> dc_dirty_at ?ns (mem d) a" "in_sync ?ns (mem d) a" "cpu_view ?ns (mem d) a = staged_value env a"
      using held ac that o by (simp_all add: operands_held_def a_clean_def)
    moreover from this have "cpu_view ?ns (mem d) a = dram (mem d) a" by (cases "dc_hit ?ns (mem d) a") (simp_all add: in_sync_def cpu_view_def)
    ultimately show ?thesis using cl out(1) sett pb by metis
  qed
  have mB: "M x (unat (b_panel env) + 1024 * p + k) = staged_value env (unat (b_panel env) + 1024 * p + k)" if "p < n" "k < 64 * ?d" for x p k
  proof -
    have o: "operand_byte env ?d (unat (b_panel env) + 1024 * p + k)" using that n(2) d(1) by (simp add: operand_byte_def)
    then show ?thesis using op rr(5) [OF that] held out(1) sett operand_panel [OF d(1) o] opat(1) by (simp add: operands_held_def)
  qed
  have some: "?R (M x) (?D p k) = Some (expected ?d p k)" if "p < n" "k < ?d * ?d" for x p k
    by (rule runner_output [OF lay acc st n that]) (use mA mB [OF that(1)] in blast)+
  have dst: "outside_driver (cfg ?E) (?D p k)" "dest_at ?ts True d (?D p k)" "\<not> line_stored ?w (?D p k)" if "p < n" "k < ?d * ?d" for p k
    using out [of "?D p k"] dest_byte_tile [of p k env] rr(6) [OF that] opat(2) that n(2) d(2) by simp_all
  show ?thesis
  proof (rule that [OF run])
    show "operands_held env g (mem d')"
      using held keep sync none out operand_panel [OF d(1)] unfolding operands_held_def by metis
    show "a_clean env g (mem d')"
      using ac clean out operand_panel [OF d(1)] unfolding a_clean_def operand_byte_def by metis
    show "results_clean env g n (mem d')"
      using miss dst by (auto simp: results_clean_def dc_dirty_at_def)
    show "results_held env g n (mem d')" if "results_clean env g n (mem d)"
      using that miss dst res some unfolding results_held_def results_clean_def in_sync_def by metis
  qed
qed

section \<open>A run\<close>

text \<open>What the threads leave alone, and the state in which the submitting thread can start.\<close>

definition gt_frame :: "gt_sys \<Rightarrow> nat \<times> nat \<times> nat \<times> nat \<times> nat \<times> klog \<times> (gemm_info \<times> bool \<times> bool \<times> bool)" where
  "gt_frame s = (gt_dim s, gt_k_len s, gt_panels s, gemm_bad s, words_checked s, console s, setup_of (dev0 s))"

definition gt_ready :: "gt_env \<Rightarrow> accel_geom \<Rightarrow> gt_sys \<Rightarrow> bool" where
  "gt_ready env g s \<longleftrightarrow> statics_ok g s \<and> batch_idle (dev0 s) \<and> operands_held env g (mem (dev0 s))"

lemma gt_frame_statics: "gt_frame s' = gt_frame s \<Longrightarrow> statics_ok g s' = statics_ok g s"
  by (simp add: gt_frame_def statics_ok_def setup_of_def)

lemma worker_passes:
  "dev0 (for_up n (\<lambda>_. worker_pass) s) = dev0 s" "gt_frame (for_up n (\<lambda>_. worker_pass) s) = gt_frame s"
  "batch_timeout (for_up n (\<lambda>_. worker_pass) s) = batch_timeout s"
proof -
  have "dev0 (worker_pass t) = dev0 t \<and> gt_frame (worker_pass t) = gt_frame t \<and> batch_timeout (worker_pass t) = batch_timeout t" for t
    by (simp add: worker_pass_def Let_def gt_frame_def)
  then show "dev0 (for_up n (\<lambda>_. worker_pass) s) = dev0 s" "gt_frame (for_up n (\<lambda>_. worker_pass) s) = gt_frame s"
    "batch_timeout (for_up n (\<lambda>_. worker_pass) s) = batch_timeout s"
    by (induction n) simp_all
qed

lemma give_cpu_effect:
  "dev0 (give_cpu env s) = (dev0 s)\<lparr>mem := fold (dc_access (gt_sets env)) (others env (turn s)) (mem (dev0 s))\<rparr>"
  "gt_frame (give_cpu env s) = gt_frame s" "batch_timeout (give_cpu env s) = batch_timeout s"
  by (simp_all add: give_cpu_def Let_def worker_passes) (simp_all add: set_mem_def gt_frame_def setup_of_def)

context dcache_geometry
begin

lemma run_others:
  assumes "off_line a xs"
  shows "in_sync ns m a \<Longrightarrow> in_sync ns (fold (dc_access ns) xs m) a \<and> cpu_view ns (fold (dc_access ns) xs m) a = cpu_view ns m a"
    "\<not> dc_dirty_at ns m a \<Longrightarrow> \<not> dc_dirty_at ns (fold (dc_access ns) xs m) a"
  using run_view [of m a xs] run_clean [OF assms, of m] assms by (auto simp: off_line_def)

end

text \<open>Other threads' accesses change nothing of the program's data.\<close>

lemma others_effect:
  assumes "layout_ok env" "gt_accel env g" "n \<le> 8"
  shows "operands_held env g m \<Longrightarrow> operands_held env g (fold (dc_access (gt_sets env)) (others env k) m)"
    "a_clean env g m \<Longrightarrow> a_clean env g (fold (dc_access (gt_sets env)) (others env k) m)"
    "results_clean env g n m \<Longrightarrow> results_clean env g n (fold (dc_access (gt_sets env)) (others env k) m)"
proof -
  have geo: "dcache_geometry (gt_sets env)" by (rule dcache_geometry.intro) (rule layout_simps(1) [OF assms(1)])
  have d: "g_dim g \<le> 16" "g_dim g * g_dim g \<le> 64" using assms(2) by (auto simp: gt_accel_def)
  have off: "off_line a (others env k)" if "panel_byte env a \<or> dest_byte env a" for a using areas [OF assms(1)] that by blast
  note run = dcache_geometry.run_others [OF geo off] and op = operand_panel [OF d(1)]
  show "operands_held env g (fold (dc_access (gt_sets env)) (others env k) m)" if "operands_held env g m"
    using that run(1) op unfolding operands_held_def by simp
  show "a_clean env g (fold (dc_access (gt_sets env)) (others env k) m)" if "a_clean env g m"
    using that run(2) op unfolding a_clean_def operand_byte_def by blast
  show "results_clean env g n (fold (dc_access (gt_sets env)) (others env k) m)" if "results_clean env g n m"
    using that run(2) dest_byte_tile assms(3) d(2) unfolding results_clean_def by simp
qed

text \<open>A completion within half a second is in time for every way of waiting the sweep uses.\<close>

lemma completes_any:
  "completes False (K_MSEC 500) w \<Longrightarrow> tmo \<in> {K_MSEC 500, K_FOREVER} \<Longrightarrow> completes p tmo w"
  by (auto simp: completes_def in_time_def)

lemma batch_loop_run:
  assumes lay: "layout_ok env" and acc: "gt_accel env g" and st: "statics_ok g s0" and n: "0 < n" "n \<le> 8"
    and w: "\<And>k. completes False (K_MSEC 500) (waits env k)"
  shows "gt_ready env g s \<Longrightarrow> a_clean env g (mem (dev0 s)) \<Longrightarrow> info (data (dev0 s)) = info (data (dev0 s0)) \<Longrightarrow>
    batch_timeout s \<in> {K_MSEC 500, K_FOREVER} \<Longrightarrow>
    \<exists>s'. batch_loop env (runner_tiles env s0 n) r s = Some s' \<and> gt_frame s' = gt_frame s \<and> gt_ready env g s' \<and>
      (results_clean env g n (mem (dev0 s)) \<and> 1 \<le> r \<or> 2 \<le> r \<longrightarrow> results_held env g n (mem (dev0 s')))"
proof (induction r arbitrary: s)
  case 0
  then show ?case by simp
next
  case (Suc r)
  have s: "batch_idle (dev0 s)" "operands_held env g (mem (dev0 s))" "statics_ok g s" using Suc.prems(1) by (simp_all add: gt_ready_def)
  obtain d where d: "gemm_run_batch (gemm0 env) (waits env (turn s)) (runner_tiles env s0 n) 0 True OUT_SHIFT (batch_timeout s) (dev0 s) = Some (RC_OK, d)"
    "batch_idle d" "setup_of d = setup_of (dev0 s)" "operands_held env g (mem d)" "a_clean env g (mem d)" "results_clean env g n (mem d)"
    "results_clean env g n (mem (dev0 s)) \<Longrightarrow> results_held env g n (mem d)"
    by (rule runner_batch [OF lay acc st n completes_any [OF w Suc.prems(4)] Suc.prems(3) s(1,2) Suc.prems(2)]) (rule that; assumption)
  let ?v = "s\<lparr>dev0 := d, turn := turn s + 1\<rparr>"
  let ?u = "for_up (passes env (turn s)) (\<lambda>_. worker_pass) ?v"
  have fr: "gt_frame ?u = gt_frame s" using d(3) by (simp add: worker_passes(2)) (simp add: gt_frame_def)
  have u: "gt_ready env g ?u" "a_clean env g (mem (dev0 ?u))" "info (data (dev0 ?u)) = info (data (dev0 s0))"
    "batch_timeout ?u \<in> {K_MSEC 500, K_FOREVER}"
    using d gt_frame_statics [OF fr, of g] Suc.prems s(3) by (auto simp: gt_ready_def setup_of_def worker_passes)
  obtain s' where s': "batch_loop env (runner_tiles env s0 n) r ?u = Some s'" "gt_frame s' = gt_frame ?u" "gt_ready env g s'"
    "1 \<le> r \<Longrightarrow> results_held env g n (mem (dev0 s'))" "r = 0 \<Longrightarrow> s' = ?u"
    using Suc.IH [OF u] d(6) by (cases r) (auto simp: worker_passes(1))
  have "batch_loop env (runner_tiles env s0 n) (Suc r) s = Some s'" using d(1) s'(1) by (simp add: Let_def)
  with s' fr d(7) show ?case by (cases r) (auto simp: worker_passes(1))
qed

lemma check_elem_held:
  assumes lay: "layout_ok env" and acc: "gt_accel env g" and p: "p < 8" "i < g_dim g" "j < g_dim g" and s: "gt_dim s = g_dim g" "p < n"
    and held: "results_held env g n m" "operands_held env g m"
  shows "\<exists>m'. check_elem env p i j (set_mem m s) = Some (set_mem m' s) \<and> results_held env g n m' \<and> operands_held env g m'"
proof -
  let ?d = "g_dim g" and ?ns = "gt_sets env"
  let ?a = "unat (dest_buf env) + 256 * p + (i * ?d + j)"
  have "?d * ?d \<le> 64" using acc by (auto simp: gt_accel_def)
  moreover have idx: "i * ?d + j < ?d * ?d"
    using mult_le_mono1 [of "Suc i" ?d ?d] p(2,3) by simp
  ultimately have "i * ?d + j < 16 * 16" by simp
  note ns = layout_simps(1) [OF lay]
  have v: "cpu_view ?ns m ?a = word_of_nat ((i + 1) * (j + 1 + p))"
    using held(1) s(2) idx p(3) unfolding results_held_def expected_def by (simp del: of_nat_mult of_nat_add of_nat_Suc)
  have "dc_load8 ?ns ?a m = (word_of_nat ((i + 1) * (j + 1 + p)), dc_refill ?ns ?a m)"
    using fst_load8 [OF ns, of ?a m] snd_load8 [of ?ns ?a m] v by (metis prod.collapse)
  moreover have "unat (dest_tile env p) = unat (dest_buf env) + 256 * p" by (rule layout_simps(3) [OF lay p(1)])
  ultimately have "load_elem env (dest_tile env p) (16 * 16) (i * gt_dim (set_mem m s) + j) (set_mem m s) =
      Some (word_of_nat ((i + 1) * (j + 1 + p)), set_mem (dc_refill ?ns ?a m) s)"
    unfolding load_elem_def using \<open>i * ?d + j < 16 * 16\<close> s(1) by (simp only: set_mem_simps if_True Let_def prod.case)
  then have "check_elem env p i j (set_mem m s) = Some (set_mem (dc_refill ?ns ?a m) s)"
    unfolding check_elem_def Let_def by (simp del: of_nat_mult of_nat_add of_nat_Suc)
  moreover have "results_held env g n (dc_refill ?ns ?a m)" "operands_held env g (dc_refill ?ns ?a m)"
    using held view_refill [OF ns] in_sync_refill [OF ns] unfolding results_held_def operands_held_def by simp_all
  ultimately show ?thesis by blast
qed

lemma check_results_held:
  assumes lay: "layout_ok env" and acc: "gt_accel env g" and n: "n \<le> 8" and s: "gt_dim s = g_dim g"
    and held: "results_held env g n (mem (dev0 s))" "operands_held env g (mem (dev0 s))"
  shows "\<exists>m. check_results env n s = Some (set_mem m (s\<lparr>words_checked := words_checked s + n * g_dim g * g_dim g\<rparr>)) \<and> operands_held env g m"
proof -
  let ?s = "s\<lparr>words_checked := words_checked s + n * g_dim g * g_dim g\<rparr>"
  let ?P = "\<lambda>_ t. \<exists>m. t = set_mem m ?s \<and> results_held env g n m \<and> operands_held env g m"
  have 0: "?P 0 ?s" using held by (intro exI [of _ "mem (dev0 s)"]) (simp add: set_mem_def)
  have "\<exists>t. for_opt n (\<lambda>p. for_opt (g_dim g) (\<lambda>i. for_opt (g_dim g) (\<lambda>j. check_elem env p i j))) ?s = Some t \<and> ?P n t"
  proof (rule for_opt_induct, rule 0)
    fix p t assume p: "p < n" "?P p t"
    show "\<exists>t'. for_opt (g_dim g) (\<lambda>i. for_opt (g_dim g) (\<lambda>j. check_elem env p i j)) t = Some t' \<and> ?P (Suc p) t'"
    proof (rule for_opt_induct [where P = ?P], rule p)
      fix i u assume i: "i < g_dim g" "?P i u"
      show "\<exists>t'. for_opt (g_dim g) (\<lambda>j. check_elem env p i j) u = Some t' \<and> ?P (Suc i) t'"
      proof (rule for_opt_induct [where P = ?P], rule i)
        fix j v assume j: "j < g_dim g" "?P j v"
        then obtain m where m: "v = set_mem m ?s" "results_held env g n m" "operands_held env g m" by blast
        have "\<exists>m'. check_elem env p i j (set_mem m ?s) = Some (set_mem m' ?s) \<and> results_held env g n m' \<and> operands_held env g m'"
          by (rule check_elem_held [OF lay acc _ i(1) j(1) _ p(1) m(2,3)]) (use p(1) n s in simp_all)
        with m(1) show "\<exists>t'. check_elem env p i j v = Some t' \<and> ?P (Suc j) t'" by blast
      qed
    qed
  qed
  then show ?thesis unfolding check_results_def using s by auto
qed

lemma setup_idle: "batch_idle d \<Longrightarrow> setup_of (d\<lparr>mem := m\<rparr>) = setup_of d \<and> batch_idle (d\<lparr>mem := m\<rparr>)"
  by (simp add: setup_of_def batch_idle_def)

text \<open>One run of the submitting thread: it ends, no result is wrong, and the operands are still there.\<close>

lemma gemm_runner_run:
  assumes lay: "layout_ok env" and acc: "gt_accel env g" and n: "0 < n" "n \<le> 8" and w: "\<And>k. completes False (K_MSEC 500) (waits env k)"
    and ready: "gt_ready env g s" and tmo: "batch_timeout s \<in> {K_MSEC 500, K_FOREVER}"
  obtains s' where "gemm_runner env n s = Some s'" "gt_ready env g s'"
    "gt_frame s' = gt_frame (s\<lparr>words_checked := words_checked s + n * g_dim g * g_dim g\<rparr>)"
proof -
  let ?ts = "runner_tiles env s n"
  have st: "statics_ok g s" "batch_idle (dev0 s)" "operands_held env g (mem (dev0 s))" using ready by (simp_all add: gt_ready_def)
  have d: "g_dim g \<le> 16" using acc by (auto simp: gt_accel_def)
  note op = operand_panel [OF d] and rr = runner_ranges [OF lay acc st(1) n(2)]
  have c: "cache_cfg_ok (cfg (gemm0 env))" using lay by (simp add: layout_ok_def)
  have ne: "?ts \<noteq> []" using n(1) by simp
  obtain m where m: "gemm_flush_operands (gemm0 env) ?ts (dev0 s) = Some (RC_OK, (dev0 s)\<lparr>mem := m\<rparr>)"
    "\<And>a. outside_driver (cfg (gemm0 env)) a \<Longrightarrow> in_sync (gt_sets env) (mem (dev0 s)) a \<Longrightarrow>
      in_sync (gt_sets env) m a \<and> cpu_view (gt_sets env) m a = cpu_view (gt_sets env) (mem (dev0 s)) a"
    "\<And>a. outside_driver (cfg (gemm0 env)) a \<Longrightarrow> covered (staged_ranges (dim (info (data (dev0 s)))) ?ts) a \<Longrightarrow> \<not> dc_hit (gt_sets env) m a"
    by (rule flush_operands_effect [OF c rr(1) ne, folded gt_sets_def]) (rule that; assumption)
  have out: "outside_driver (cfg (gemm0 env)) a" if "operand_byte env (g_dim g) a" for a using areas(1) [OF lay op [OF that]] by blast
  let ?s = "s\<lparr>dev0 := (dev0 s)\<lparr>mem := m\<rparr>\<rparr>"
  have fr: "gt_frame ?s = gt_frame s" using st(2) by (simp add: gt_frame_def setup_idle)
  have "operands_held env g m" using st(3) m(2) out by (simp add: operands_held_def)
  then have r: "gt_ready env g ?s" using st setup_idle [OF st(2)] by (simp add: gt_ready_def statics_ok_def)
  have "a_clean env g m" using m(3) rr(4) n(1) out by (auto simp: a_clean_def operand_byte_def dc_dirty_at_def)
  then obtain s1 where s1: "batch_loop env ?ts BATCHES ?s = Some s1" "gt_frame s1 = gt_frame s" "gt_ready env g s1"
    "results_held env g n (mem (dev0 s1))"
    using batch_loop_run [OF lay acc st(1) n w r, of BATCHES] fr tmo by (auto simp: BATCHES_def)
  have "gt_dim s1 = g_dim g" "operands_held env g (mem (dev0 s1))" using s1(3) by (simp_all add: gt_ready_def statics_ok_def)
  from check_results_held [OF lay acc n(2) this(1) s1(4) this(2)] obtain m' where
    m': "check_results env n s1 = Some (set_mem m' (s1\<lparr>words_checked := words_checked s1 + n * g_dim g * g_dim g\<rparr>))" "operands_held env g m'"
    by blast
  let ?s' = "set_mem m' (s1\<lparr>words_checked := words_checked s1 + n * g_dim g * g_dim g\<rparr>)"
  have "gemm_runner env n s = Some ?s'" using m(1) s1(1) m'(1) by (simp add: gemm_runner_def)
  moreover have "gt_ready env g ?s'"
    using s1(3) m'(2) setup_idle [of "dev0 s1" m'] by (auto simp: gt_ready_def statics_ok_def set_mem_def)
  moreover have "gt_frame ?s' = gt_frame (s\<lparr>words_checked := words_checked s + n * g_dim g * g_dim g\<rparr>)"
    using s1(2,3) by (simp add: gt_frame_def set_mem_def setup_of_def)
  ultimately show ?thesis by (rule that)
qed

section \<open>The whole program\<close>

text \<open>The program's data without the console and the polling mode.\<close>

definition gt_data :: "gt_sys \<Rightarrow> nat \<times> nat \<times> nat \<times> nat \<times> nat" where
  "gt_data s = (gt_dim s, gt_k_len s, gt_panels s, gemm_bad s, words_checked s)"

text \<open>No line of the console reports an error.\<close>

definition no_errors :: "klog \<Rightarrow> bool" where
  "no_errors l \<longleftrightarrow> (\<forall>x \<in> set l. fst x \<noteq> mismatch_format \<and> fst x \<noteq> batch_fail_format \<and> fst x \<noteq> fail_format)"

lemma run_mode_run:
  assumes lay: "layout_ok env" and acc: "gt_accel env g" and n: "0 < n" "n \<le> 8" and w: "\<And>k. completes False (K_MSEC 500) (waits env k)"
    and ready: "gt_ready env g s" and tmo: "tmo \<in> {K_MSEC 500, K_FOREVER}"
  obtains r s' where "run_mode env poll n tmo s = Some (r, s')" "gt_ready env g s'" "console s' = console s"
    "gt_data s' = gt_data (s\<lparr>words_checked := words_checked s + n * g_dim g * g_dim g\<rparr>)"
proof -
  have idle: "\<not> locked (data (dev0 s))" using ready by (simp add: gt_ready_def batch_idle_def)
  let ?d = "gemm_reset_stats ((dev0 s)\<lparr>data := (data (dev0 s))\<lparr>poll_mode := poll, locked := False\<rparr>\<rparr>)"
  let ?s1 = "s\<lparr>batch_timeout := tmo, dev0 := ?d, work_run := True\<rparr>"
  have 1: "gemm_set_poll_mode poll (dev0 s) = Some ((dev0 s)\<lparr>data := (data (dev0 s))\<lparr>poll_mode := poll, locked := False\<rparr>\<rparr>)"
    using idle by (simp add: gemm_set_poll_mode_def k_mutex_lock_def k_mutex_unlock_def)
  obtain wb s2 where 2: "thread_cycles env ?s1 = (wb, s2)" by fastforce
  obtain t0 s3 where 3: "cycle_get env s2 = (t0, s3)" by fastforce
  have p: "gt_ready env g s3 \<and> console s3 = console s \<and> gt_data s3 = gt_data s \<and> batch_timeout s3 = tmo"
    using 2 3 ready idle by (auto simp: thread_cycles_def cycle_get_def k_cycle_get_32_def Let_def gt_ready_def statics_ok_def batch_idle_def
        gemm_reset_stats_def gt_data_def split: if_splits)
  then have "gt_ready env g s3" "batch_timeout s3 \<in> {K_MSEC 500, K_FOREVER}" using tmo by simp_all
  then obtain s4 where 4: "gemm_runner env n s3 = Some s4" "gt_ready env g s4"
    "gt_frame s4 = gt_frame (s3\<lparr>words_checked := words_checked s3 + n * g_dim g * g_dim g\<rparr>)"
    using gemm_runner_run [OF lay acc n w] by metis
  obtain t1 s5 where 5: "cycle_get env s4 = (t1, s5)" by fastforce
  obtain g0 s6 where 6: "thread_cycles env s5 = (g0, s6)" by fastforce
  obtain w0 s7 where 7: "thread_cycles env s6 = (w0, s7)" by fastforce
  let ?s' = "s7\<lparr>work_run := False\<rparr>"
  have q: "gt_ready env g ?s' \<and> console ?s' = console s4 \<and> gt_data ?s' = gt_data s4"
    using 5 6 7 4(2) by (auto simp: thread_cycles_def cycle_get_def k_cycle_get_32_def Let_def gt_ready_def statics_ok_def batch_idle_def
        gt_data_def split: if_splits)
  have "console s4 = console s" "gt_data s4 = gt_data (s\<lparr>words_checked := words_checked s + n * g_dim g * g_dim g\<rparr>)"
    using 4(3) p by (simp_all add: gt_frame_def gt_data_def)
  moreover have "\<exists>r. run_mode env poll n tmo s = Some (r, ?s')"
    using 1 2 3 4(1) 5 6 7 by (simp add: run_mode_def Let_def)
  ultimately show ?thesis using that q by metis
qed

lemma printk_simps [simp]:
  "gt_ready env g (printk f xs s) = gt_ready env g s" "gt_data (printk f xs s) = gt_data s"
  "console (printk f xs s) = console s @ [(f, xs)]"
  by (simp_all add: printk_def gt_ready_def statics_ok_def gt_data_def)

lemma no_errors_simps [simp]:
  "no_errors []" "no_errors (l @ l') = (no_errors l \<and> no_errors l')"
  "no_errors ((f, xs) # l) = (f \<noteq> mismatch_format \<and> f \<noteq> batch_fail_format \<and> f \<noteq> fail_format \<and> no_errors l)"
  by (auto simp: no_errors_def)

lemmas error_formats = mismatch_format_def batch_fail_format_def fail_format_def newline_def

lemma report_row_effect:
  "gt_ready env g (report_row n md r s) = gt_ready env g s" "gt_data (report_row n md r s) = gt_data s"
  "no_errors (console (report_row n md r s)) = no_errors (console s)"
  by (simp_all add: report_row_def Let_def error_formats)

lemma judge_effect:
  "gt_ready env g (snd (judge env' p i f s)) = gt_ready env g s" "gt_data (snd (judge env' p i f s)) = gt_data s"
  "no_errors (console (snd (judge env' p i f s))) = no_errors (console s)"
  by (simp_all add: judge_def Let_def error_formats)

lemma sweep_point_run:
  assumes lay: "layout_ok env" and acc: "gt_accel env g" and n: "0 < n" "n \<le> 8" and w: "\<And>k. completes False (K_MSEC 500) (waits env k)"
    and ready: "gt_ready env g s" "no_errors (console s)"
  obtains c' s' where "sweep_point env n (c, s) = Some (c', s')" "gt_ready env g s'" "no_errors (console s')"
    "gt_data s' = gt_data (s\<lparr>words_checked := words_checked s + 3 * n * g_dim g * g_dim g\<rparr>)"
proof -
  note run = run_mode_run [OF lay acc n w]
  obtain r1 s1 where 1: "run_mode env True n (K_MSEC 500) s = Some (r1, s1)" "gt_ready env g s1" "console s1 = console s"
    "gt_data s1 = gt_data (s\<lparr>words_checked := words_checked s + n * g_dim g * g_dim g\<rparr>)"
    using run [OF ready(1)] by (metis insertCI)
  obtain r2 s2 where 2: "run_mode env False n (K_MSEC 500) s1 = Some (r2, s2)" "gt_ready env g s2" "console s2 = console s1"
    "gt_data s2 = gt_data (s1\<lparr>words_checked := words_checked s1 + n * g_dim g * g_dim g\<rparr>)"
    using run [OF 1(2)] by (metis insertCI)
  obtain r3 s3 where 3: "run_mode env False n K_FOREVER s2 = Some (r3, s3)" "gt_ready env g s3" "console s3 = console s2"
    "gt_data s3 = gt_data (s2\<lparr>words_checked := words_checked s2 + n * g_dim g * g_dim g\<rparr>)"
    using run [OF 2(2)] by (metis insertCI)
  let ?t = "report_row n ''irq/forever'' r3 (report_row n ''irq/500ms'' r2 (report_row n ''poll'' r1 s3))"
  obtain win s' where j: "judge env r1 r2 r3 ?t = (win, s')" by fastforce
  have "gt_ready env g s'" "no_errors (console s')" "gt_data s' = gt_data s3"
    using judge_effect(1) [of env g env r1 r2 r3 ?t] judge_effect(2,3) [of env r1 r2 r3 ?t] 3(2) 1(3) 2(3) 3(3) ready(2) unfolding j by (simp_all add: report_row_effect)
  moreover have "gt_data s3 = gt_data (s\<lparr>words_checked := words_checked s + 3 * n * g_dim g * g_dim g\<rparr>)"
    using 1(4) 2(4) 3(4) by (simp add: gt_data_def)
  moreover have "sweep_point env n (c, s) = Some (if win \<and> c = 0 then n else c, s')"
    using 1(1) 2(1) 3(1) j by (simp add: sweep_point_def Let_def)
  ultimately show ?thesis using that by metis
qed

lemma sweep_run:
  assumes lay: "layout_ok env" and acc: "gt_accel env g" and w: "\<And>k. completes False (K_MSEC 500) (waits env k)"
  shows "\<forall>n \<in> set ns. 0 < n \<and> n \<le> 8 \<Longrightarrow> gt_ready env g s \<Longrightarrow> no_errors (console s) \<Longrightarrow>
    \<exists>c' s'. sweep env ns (c, s) = Some (c', s') \<and> gt_ready env g s' \<and> no_errors (console s') \<and>
      gt_data s' = gt_data (s\<lparr>words_checked := words_checked s + 3 * sum_list ns * g_dim g * g_dim g\<rparr>)"
proof (induction ns arbitrary: c s)
  case (Cons n ns)
  from Cons.prems have n: "0 < n" "n \<le> 8" by simp_all
  obtain c1 s1 where 1: "sweep_point env n (c, s) = Some (c1, s1)" "gt_ready env g s1" "no_errors (console s1)"
    "gt_data s1 = gt_data (s\<lparr>words_checked := words_checked s + 3 * n * g_dim g * g_dim g\<rparr>)"
    by (rule sweep_point_run [OF lay acc n w Cons.prems(2,3), of c]) (rule that; assumption)
  from Cons.IH [of s1 c1] 1(2,3) Cons.prems(1) obtain c' s' where "sweep env ns (c1, s1) = Some (c', s')" "gt_ready env g s'"
    "no_errors (console s')" "gt_data s' = gt_data (s1\<lparr>words_checked := words_checked s1 + 3 * sum_list ns * g_dim g * g_dim g\<rparr>)"
    by auto
  with 1(1,4) show ?case by (simp add: gt_data_def algebra_simps)
qed simp

text \<open>The geometry an initialised driver reports is the accelerator's.\<close>

definition gt_geometry :: "gt_env \<Rightarrow> accel_geom \<Rightarrow> bool" where
  "gt_geometry env g \<longleftrightarrow> info_of (info_reg (gemm0 env)) = \<lparr>dim = word_of_nat (g_dim g), max_k = word_of_nat (g_maxK g), panels = word_of_nat (g_panels g)\<rparr> \<and>
     g_maxK g < 256"

lemma verdict_effect:
  "gt_ready env g (verdict env' c s) = gt_ready env g s" "gt_data (verdict env' c s) = gt_data s"
  "no_errors (console (verdict env' c s)) = no_errors (console s)"
  by (simp_all add: verdict_def Let_def error_formats)

lemma dump_threads_effect:
  "gt_data (dump_threads env s) = gt_data s \<and> (\<exists>l. console (dump_threads env s) = console s @ l \<and> no_errors l)"
proof -
  have one: "gt_data (dump_thread env x t) = gt_data t \<and> (\<exists>l. console (dump_thread env x t) = console t @ l \<and> no_errors l)" for x t
    by (cases x) (auto simp: dump_thread_def thread_cycles_def error_formats gt_data_def printk_def)
  have "gt_data (fold (dump_thread env) xs t) = gt_data t \<and> (\<exists>l. console (fold (dump_thread env) xs t) = console t @ l \<and> no_errors l)" for xs t
  proof (induction xs arbitrary: t)
    case (Cons x xs)
    from one [of x t] Cons [of "dump_thread env x t"] show ?case by (auto simp del: no_errors_simps(3))
  qed simp
  from this [of "thread_table env" "printk (newline @ ''--- every thread the kernel knows ---'' @ newline) [] s"]
  show ?thesis by (auto simp: dump_threads_def error_formats)
qed

lemma baseline_effect:
  assumes "layout_ok env" "gt_accel env g" "gt_ready env g s"
  shows "gt_ready env g (baseline_run env s)" "gt_data (baseline_run env s) = gt_data s"
    "no_errors (console (baseline_run env s)) = no_errors (console s)"
proof -
  let ?s = "s\<lparr>work_acc := 1, work_done := 0, work_polls := 0, work_run := True\<rparr>"
  obtain t0 s1 where 1: "cycle_get env ?s = (t0, s1)" by fastforce
  have r1: "gt_ready env g s1" "gt_data s1 = gt_data s" "console s1 = console s"
    using 1 assms(3) by (auto simp: cycle_get_def k_cycle_get_32_def Let_def gt_ready_def statics_ok_def batch_idle_def gt_data_def)
  have fr: "gt_frame (give_cpu env s1) = gt_frame s1" by (rule give_cpu_effect(2))
  have r2: "gt_ready env g (give_cpu env s1)"
    using r1(1) others_effect(1) [OF assms(1,2), of 0] gt_frame_statics [OF fr, of g]
    by (simp add: gt_ready_def give_cpu_effect(1) batch_idle_def)
  obtain t1 s2 where 2: "cycle_get env (give_cpu env s1) = (t1, s2)" by fastforce
  have r3: "gt_ready env g (s2\<lparr>work_run := False\<rparr>)" "gt_data (s2\<lparr>work_run := False\<rparr>) = gt_data s" "console (s2\<lparr>work_run := False\<rparr>) = console s"
    using 2 r2 fr r1 by (auto simp: cycle_get_def k_cycle_get_32_def Let_def gt_ready_def statics_ok_def batch_idle_def gt_data_def gt_frame_def)
  show "gt_ready env g (baseline_run env s)" "gt_data (baseline_run env s) = gt_data s"
    "no_errors (console (baseline_run env s)) = no_errors (console s)"
    using r3 1 2 by (simp_all add: baseline_run_def Let_def error_formats)
qed

text \<open>
  C4. The accelerator benchmark as a whole: with the driver initialised, arrays placed apart, operand lines that only the CPU has
  written, an accelerator of dimension four or eight that holds at least 64 deep operands, and batches that all
  complete within half a second, the program runs to its end however it waits and however the accesses of the other threads are interleaved with
  the accelerator's reads and writes during the waits, as long as no other thread stores to a line of its arrays. It checks 45
  tiles, finds every result word correct, and reports no error. Stale result lines in the
  cache at the start do no harm, because every batch is run sixteen times.
\<close>

theorem gemm_threads_passes:
  assumes "layout_ok env" "gt_accel env g" "gt_geometry env g" "device_is_ready env" "\<And>k. completes False (K_MSEC 500) (waits env k)"
    and "gemm_reachable (gemm0 env) (dev0 s)" "\<And>a. panel_byte env a \<Longrightarrow> in_sync (gt_sets env) (mem (dev0 s)) a"
    and "gemm_bad s = 0" "words_checked s = 0" "console s = []"
  shows "\<exists>s' pre post. gemm_threads_main env s = Some s' \<and> gemm_bad s' = 0 \<and> words_checked s' = 45 * (g_dim g * g_dim g) \<and>
    console s' = pre @ [(pass_format, [KD (int (45 * (g_dim g * g_dim g)))])] @ post \<and> no_errors (console s')"
proof -
  have inf: "batch_idle (dev0 s)" "info (data (dev0 s)) = \<lparr>dim = word_of_nat (g_dim g), max_k = word_of_nat (g_maxK g), panels = word_of_nat (g_panels g)\<rparr>"
    using gemm_reachable_ready_aux [OF assms(6)] assms(3) by (simp_all add: gt_geometry_def)
  have d: "g_dim g \<in> {4, 8}" "64 \<le> g_maxK g" "g_maxK g < 256" using assms(2,3) by (simp_all add: gt_accel_def gt_geometry_def)
  then have u: "unat (word_of_nat (g_dim g) :: u8) = g_dim g" "unat (word_of_nat (g_maxK g) :: u8) = g_maxK g"
    by (auto simp: unat_of_nat)
  let ?s1 = "read_geometry (printk (newline @ ''=== accelerator as an OS device ==='' @ newline) [] s)"
  have s1: "gt_dim ?s1 = g_dim g" "gt_k_len ?s1 = 64" "dev0 ?s1 = dev0 s" "gemm_bad ?s1 = 0" "words_checked ?s1 = 0" "no_errors (console ?s1)"
    using u d assms(8-10) by (auto simp: read_geometry_def Let_def gemm_get_info_def inf(2) KLEN_def printk_def error_formats)
  have d16: "g_dim g \<le> 16" using d(1) by auto
  have sync: "in_sync (gt_sets env) (mem (dev0 ?s1)) a" if "panel_byte env a" for a using assms(7) [OF that] s1(3) by simp
  obtain m where m: "stage_operands env ?s1 = Some (set_mem m ?s1)" "\<And>a. operand_byte env (g_dim g) a \<Longrightarrow> in_sync (gt_sets env) m a"
    "\<And>a. operand_byte env (g_dim g) a \<Longrightarrow> cpu_view (gt_sets env) m a = staged_value env a"
    by (rule stage_operands_staged [OF assms(1) s1(1) d16 s1(2) sync]) (assumption | (rule that; assumption))+
  let ?s2 = "set_mem m ?s1"
  have "gt_ready env g ?s2"
    using m(2,3) s1 inf u setup_idle [OF inf(1)] by (simp add: gt_ready_def statics_ok_def operands_held_def set_mem_def)
  note base = baseline_effect [OF assms(1,2) this]
  let ?s3 = "report_header (printk (newline @ ''--- %d batches per point, interrupt vs polling, swept ---'' @ newline) [KD (int BATCHES)] (baseline_run env ?s2))"
  have r3: "gt_ready env g ?s3" "no_errors (console ?s3)" "gt_data ?s3 = gt_data ?s2"
    using base s1(6) by (simp_all add: report_header_def error_formats)
  obtain c s4 where s4: "sweep env tile_sweep (0, ?s3) = Some (c, s4)" "no_errors (console s4)"
    "gt_data s4 = gt_data (?s3\<lparr>words_checked := words_checked ?s3 + 3 * sum_list tile_sweep * g_dim g * g_dim g\<rparr>)"
    using sweep_run [OF assms(1,2,5), of tile_sweep ?s3 0] r3(1,2) by (auto simp: tile_sweep_def)
  have w: "gemm_bad s4 = 0" "words_checked s4 = 45 * (g_dim g * g_dim g)"
    using s4(3) r3(3) s1(4,5) by (simp_all add: gt_data_def tile_sweep_def)
  let ?s5 = "verdict env c s4"
  have v: "gemm_bad ?s5 = 0" "words_checked ?s5 = 45 * (g_dim g * g_dim g)" "no_errors (console ?s5)"
    using verdict_effect(2,3) [of env c s4] w s4(2) by (simp_all add: gt_data_def)
  let ?pass = "(pass_format, [KD (int (45 * (g_dim g * g_dim g)))])"
  have p: "result_line ?s5 = printk pass_format [KD (int (45 * (g_dim g * g_dim g)))] ?s5" using v by (simp add: result_line_def)
  obtain l where l: "console (dump_threads env (result_line ?s5)) = console ?s5 @ [?pass] @ l" "no_errors l"
    "gt_data (dump_threads env (result_line ?s5)) = gt_data ?s5"
    using dump_threads_effect [of env "result_line ?s5"] unfolding p by auto
  let ?s6 = "printk (''=== done ==='' @ newline) [] (dump_threads env (result_line ?s5))"
  have "gemm_threads_main env s = Some ?s6" using assms(4) m(1) s4(1) by (simp add: gemm_threads_main_def Let_def)
  moreover have "gemm_bad ?s6 = 0" "words_checked ?s6 = 45 * (g_dim g * g_dim g)" using l(3) v by (simp_all add: gt_data_def printk_def)
  moreover have "console ?s6 = console ?s5 @ [?pass] @ (l @ [(''=== done ==='' @ newline, [])])" using l(1) by simp
  moreover have "no_errors (console ?s6)" using l(1,2) v(3) by (simp add: error_formats pass_format_def)
  ultimately show ?thesis by blast
qed

definition demo_geom :: accel_geom where
  "demo_geom = \<lparr>g_dim = 8, g_maxK = 64, g_panels = 4\<rparr>"

text \<open>
  Another thread reads and stores elsewhere and reads a result line too early, operands are fetched one after the other, the results of the even bytes come
  before those of the odd ones, and the interrupt arrives in the fifth millisecond.
\<close>

definition demo_gt_wait :: wait where
  "demo_gt_wait = \<lparr>before_look = [Fetch even, Cpu (Load 0x00184000)],
     during = (\<lambda>k. if k = 4 then [Drain odd, Irq, Cpu (Load 0x00190000)] else [Cpu (Store 0x00190000 9), Fetch odd, Drain even, Cpu (Load 0x00184010)])\<rparr>"

lemma demo_gt_sched:
  "x \<in> sched demo_gt_wait \<Longrightarrow> x \<in> {Fetch even, Cpu (Load 0x00184000), Drain odd, Irq, Cpu (Load 0x00190000), Cpu (Store 0x00190000 9),
     Fetch odd, Drain even, Cpu (Load 0x00184010)}"
  "completes False (K_MSEC 500) demo_gt_wait"
  by (auto simp: sched_def demo_gt_wait_def completes_def in_time_def split: if_splits)

definition demo_gt_env :: gt_env where
  "demo_gt_env =
     \<lparr>gemm0 = \<lparr>cfg = board_cfg, ticks = word_of_nat, info_reg = 0x00044008,
        results = accel_results demo_geom \<lparr>aMem = (\<lambda>_ _. 0), bMem = (\<lambda>_ _ _. 0),
          arr = \<lparr>arr_busy = False, arr_done = False, arr_t = 0, pes = (\<lambda>_ _. \<lparr>pe_a = 0, pe_b = 0, pe_sum = 0\<rparr>)\<rparr>\<rparr>\<rparr>,
      a_panel = 0x00180000, b_panel = 0x00181000, dest_buf = 0x00184000, device_is_ready = True,
      CONFIG_THREAD_RUNTIME_STATS = True, CONFIG_THREAD_MONITOR = False, 
      waits = (\<lambda>k. if even k then early_wait else demo_gt_wait),
      passes = id, others = (\<lambda>k. [Store 0x00190000 1, Load 0x00190400]), execution_cycles = (\<lambda>k. word_of_nat (1000 * k)), thread_table = []\<rparr>"

definition demo_gt :: gt_sys where
  "demo_gt =
     \<lparr>dev0 = snd (gemm_init (gemm0 demo_gt_env) (demo_gemm\<lparr>mem := cold_cache\<rparr>)), work_done = 0, work_polls = 0, work_sink = 0,
      work_run = False, work_acc = 0, gt_dim = 0, gt_k_len = 0, gt_panels = 0, gemm_bad = 0, words_checked = 0,
      batch_timeout = K_FOREVER, turn = 0, reads = 0, console = []\<rparr>"

theorem gemm_threads_passes_witness:
  "\<exists>s' pre post. gemm_threads_main demo_gt_env demo_gt = Some s' \<and> gemm_bad s' = 0 \<and> words_checked s' = 2880 \<and>
     console s' = pre @ [(pass_format, [KD 2880])] @ post"
proof -
  have lay: "layout_ok demo_gt_env"
  proof -
    have line: "a div 16 \<noteq> 0x00200000 div 16 \<and> a div 16 \<noteq> 0x00190000 div 16 \<and> a div 16 \<noteq> 0x00190400 div 16"
      if "a < 0x00184800" for a :: nat
      using div_le_mono [OF less_imp_le [OF that], of 16] by auto
    moreover have "\<not> line_stored (waits demo_gt_env k) a" if "a < 0x00184800" for a k
    proof
      assume "line_stored (waits demo_gt_env k) a"
      then obtain b v where b: "b div 16 = a div 16" "Cpu (Store b v) \<in> sched (waits demo_gt_env k)" by (auto simp: line_stored_def)
      then have "b = 0x00190000" using demo_gt_sched(1) by (fastforce simp: demo_gt_env_def demo_sched split: if_splits)
      with b(1) line [OF that] show False by simp
    qed
    ultimately show ?thesis
      using board_cfg_ok by (auto simp: layout_ok_def demo_gt_env_def panel_byte_def dest_byte_def outside_driver_def board_cfg_def)
  qed
  have acc: "gt_accel demo_gt_env demo_geom" "gt_geometry demo_gt_env demo_geom"
    by (auto simp: gt_accel_def accel_env_def demo_gt_env_def demo_geom_def gt_geometry_def info_of_def)
  have reach: "gemm_reachable (gemm0 demo_gt_env) (dev0 demo_gt)"
    by (rule gemm_reachable.init [of "demo_gemm\<lparr>mem := cold_cache\<rparr>" _ "fst (gemm_init (gemm0 demo_gt_env) (demo_gemm\<lparr>mem := cold_cache\<rparr>))"])
      (simp_all add: demo_gemm_def demo_gt_def)
  have mem: "mem (dev0 demo_gt) = cold_cache" by (simp add: demo_gt_def gemm_init_def Let_def)
  have "in_sync (gt_sets demo_gt_env) (mem (dev0 demo_gt)) a" for a unfolding mem by (simp add: in_sync_def dc_hit_def cold_cache_def)
  moreover have "device_is_ready demo_gt_env" "completes False (K_MSEC 500) (waits demo_gt_env k)" for k
    by (simp_all add: demo_gt_env_def demo_completes(1) demo_gt_sched(2))
  moreover have "gemm_bad demo_gt = 0" "words_checked demo_gt = 0" "console demo_gt = []" by (simp_all add: demo_gt_def)
  ultimately have "\<exists>s' pre post. gemm_threads_main demo_gt_env demo_gt = Some s' \<and> gemm_bad s' = 0 \<and>
      words_checked s' = 45 * (g_dim demo_geom * g_dim demo_geom) \<and>
      console s' = pre @ [(pass_format, [KD (int (45 * (g_dim demo_geom * g_dim demo_geom)))])] @ post \<and> no_errors (console s')"
    by (intro gemm_threads_passes [OF lay acc _ _ reach]) simp_all
  moreover have "45 * (g_dim demo_geom * g_dim demo_geom) = 2880" by (simp add: demo_geom_def)
  ultimately show ?thesis by (metis of_nat_numeral)
qed

section \<open>Where the check does not fit the hardware\<close>

text \<open>
  The expected values assume that the shift divides the depth out. On an accelerator that holds fewer than 64 deep operands the
  program runs with that smaller depth, and the second word of the first tile is then
  requantised to a value the check calls wrong.
\<close>

theorem short_depth_wrong:
  assumes "kl \<in> {16, 32}" "d \<in> {4, 8, 16}"
  shows "requant (unat OUT_SHIFT) (word_of_nat (kl * ((0 + 1) * (1 + 1 + 0)))) \<noteq> expected d 0 1"
proof -
  have "requant (unat OUT_SHIFT) 32 = 1" "requant (unat OUT_SHIFT) 64 = 1" "expected 4 0 1 = 2" "expected 8 0 1 = 2" "expected 16 0 1 = 2"
    by code_simp+
  with assms show ?thesis by auto
qed

text \<open>On an array of dimension 16 the last word of the eighth tile saturates, where the check expects the wrapped product.\<close>

theorem wide_array_wrong: "requant (unat OUT_SHIFT) (word_of_nat (64 * ((15 + 1) * (15 + 1 + 7)))) \<noteq> expected 16 7 255"
  by code_simp

section \<open>The verdict\<close>

text \<open>
  A point of the sweep counts as a win for interrupts exactly when the build can measure threads and either the better of the two
  interrupt-driven runs is no slower per batch than polling, or the worker gained more cycles than the
  slower run cost; the differences printed never wrap around.
\<close>

theorem judge_win:
  "fst (judge env pr ir fr s) \<longleftrightarrow> CONFIG_THREAD_RUNTIME_STATS env \<and>
     (let best = (if wall fr < wall ir then fr else ir)
      in unat (wall best) div 16 \<le> unat (wall pr) div 16 \<or>
         unat (wall best) div 16 < unat (wall pr) div 16 + unat (worker_ran best) div 16)"
proof -
  have *: "i - p < w \<longleftrightarrow> unat i < unat p + unat w" if "\<not> i \<le> p" for i p w :: u32
    using that by (simp add: word_less_nat_alt word_le_nat_alt unat_sub) linarith
  show ?thesis
    by (auto simp: judge_def Let_def BATCHES_def * word_le_nat_alt unat_div)
qed

end
