(* ===== verification/DcacheRtl.thy ===== *)
theory DcacheRtl
  imports Dcache
begin

text \<open>
  The data cache of \<^verbatim>\<open>src/dcache_bram.v\<close> clock by clock: the state machine, the array outputs that are registered one
  clock ahead from a speculated address, the check of that speculation and the bypass from a store to the next load.
  The arrays and the memory behind the cache are the state \<open>dcsys\<close> of \<^verbatim>\<open>Dcache\<close>, so the theorems relate the clocked cache
  to the access-level one: whatever the schedule, what the CPU has been served is what a plain memory would have
  answered, and every request is served once memory answers.

  Arrays and lines are functions from the byte offset to the byte; lane \<open>b\<close> of a word is its byte \<open>b\<close>. The output of an array that is written at the address
  it is read at in the same clock is undefined on both targets; it is an input of the model (\<open>rdw_data\<close>, \<open>rdw_tagv\<close>),
  for the bytes that are written. The memory's answer is the line at the requested address.
\<close>

section \<open>Requests, inputs and registers\<close>

type_synonym lanes = "nat \<Rightarrow> u8"

definition lane :: "u32 \<Rightarrow> lanes" where
  "lane w b = ucast (drop_bit (8 * b) w)"

record dc_req =
  rq_write :: bool
  rq_addr :: nat
  rq_wdata :: u32
  rq_wmask :: "4 word"

record dc_in =
  in_rst :: bool
  cpu_req_valid :: bool
  cpu_req :: dc_req
  a_idx :: nat
  in_mem_ready :: bool
  rdw_data :: "nat \<Rightarrow> u8"
  rdw_tagv :: "bool \<times> nat"

datatype dc_fsm = S_INIT | S_IDLE | S_CAP | S_WB | S_FILL | S_RECHECK

record dc_hw =
  arrays :: dcsys
  dc_state :: dc_fsm
  sweep_cnt :: nat
  miss_idx :: nat
  miss_tag :: nat
  wb_tag :: nat
  wb_line :: "nat \<Rightarrow> u8"
  q_tagv :: "bool \<times> nat"
  q_data :: "nat \<Rightarrow> u8"
  q_a_idx :: nat
  byp_v :: bool
  byp_word :: nat
  byp_be :: "4 word"
  byp_data :: u32

section \<open>Combinational signals\<close>

definition m_bank :: "nat \<Rightarrow> nat" where
  "m_bank a = a div 4 mod 4"

definition spec_ok :: "nat \<Rightarrow> dc_in \<Rightarrow> dc_hw \<Rightarrow> bool" where
  "spec_ok ns i h \<longleftrightarrow> q_a_idx h = m_idx ns (rq_addr (cpu_req i))"

definition hw_hit :: "nat \<Rightarrow> dc_in \<Rightarrow> dc_hw \<Rightarrow> bool" where
  "hw_hit ns i h \<longleftrightarrow> fst (q_tagv h) \<and> snd (q_tagv h) = m_tag ns (rq_addr (cpu_req i)) \<and> spec_ok ns i h"

definition cpu_ready :: "nat \<Rightarrow> dc_in \<Rightarrow> dc_hw \<Rightarrow> bool" where
  "cpu_ready ns i h \<longleftrightarrow> dc_state h = S_IDLE \<and> cpu_req_valid i \<and> hw_hit ns i h"

definition wr_hit :: "nat \<Rightarrow> dc_in \<Rightarrow> dc_hw \<Rightarrow> bool" where
  "wr_hit ns i h \<longleftrightarrow> dc_state h = S_IDLE \<and> cpu_req_valid i \<and> rq_write (cpu_req i) \<and> hw_hit ns i h"

definition fill_en :: "dc_in \<Rightarrow> dc_hw \<Rightarrow> bool" where
  "fill_en i h \<longleftrightarrow> dc_state h = S_FILL \<and> in_mem_ready i"

definition init_en :: "dc_hw \<Rightarrow> bool" where
  "init_en h \<longleftrightarrow> dc_state h = S_INIT"

definition waddr :: "nat \<Rightarrow> dc_in \<Rightarrow> dc_hw \<Rightarrow> nat" where
  "waddr ns i h = (if fill_en i h then miss_idx h else m_idx ns (rq_addr (cpu_req i)))"

definition mem_req_write :: "dc_hw \<Rightarrow> bool" where
  "mem_req_write h \<longleftrightarrow> dc_state h = S_WB"

definition mem_req_addr :: "nat \<Rightarrow> dc_hw \<Rightarrow> nat" where
  "mem_req_addr ns h = (if dc_state h = S_WB then line_addr ns (wb_tag h) (miss_idx h)
                        else line_addr ns (miss_tag h) (miss_idx h))"

definition mem_rline :: "nat \<Rightarrow> dc_hw \<Rightarrow> nat \<Rightarrow> u8" where
  "mem_rline ns h k = dram (arrays h) (mem_req_addr ns h + k)"

text \<open>Byte \<open>k\<close> of a line is lane \<open>k mod 4\<close> of bank \<open>k div 4\<close>.\<close>

definition be :: "nat \<Rightarrow> dc_in \<Rightarrow> dc_hw \<Rightarrow> nat \<Rightarrow> bool" where
  "be ns i h k \<longleftrightarrow> (if fill_en i h then True
     else wr_hit ns i h \<and> m_bank (rq_addr (cpu_req i)) = k div 4 \<and> bit (rq_wmask (cpu_req i)) (k mod 4))"

definition wd :: "nat \<Rightarrow> dc_in \<Rightarrow> dc_hw \<Rightarrow> nat \<Rightarrow> u8" where
  "wd ns i h k = (if fill_en i h then mem_rline ns h k else lane (rq_wdata (cpu_req i)) (k mod 4))"

definition tagv_waddr :: "dc_hw \<Rightarrow> nat" where
  "tagv_waddr h = (if init_en h then sweep_cnt h else miss_idx h)"

definition tagv_wdata :: "dc_hw \<Rightarrow> bool \<times> nat" where
  "tagv_wdata h = (if init_en h then (False, 0) else (True, miss_tag h))"

definition cpu_rdata :: "dc_in \<Rightarrow> dc_hw \<Rightarrow> lanes" where
  "cpu_rdata i h b = (if byp_v h \<and> byp_word h = m_bank (rq_addr (cpu_req i)) \<and> bit (byp_be h) b then lane (byp_data h) b
                      else q_data h (4 * m_bank (rq_addr (cpu_req i)) + b))"

definition wb_needed :: "nat \<Rightarrow> dc_in \<Rightarrow> dc_hw \<Rightarrow> bool" where
  "wb_needed ns i h \<longleftrightarrow> fst (q_tagv h) \<and> dc_dirty (arrays h) (m_idx ns (rq_addr (cpu_req i)))"

section \<open>One clock\<close>

text \<open>The arrays at the clock edge, and the memory, which takes a line when it acknowledges a write.\<close>

definition arrays_clock :: "nat \<Rightarrow> dc_in \<Rightarrow> dc_hw \<Rightarrow> dcsys" where
  "arrays_clock ns i h = (let s = arrays h; tagv_we = (fill_en i h \<or> init_en h) in
     s\<lparr>dc_data := (dc_data s)(waddr ns i h :=
          (\<lambda>k. if be ns i h k then wd ns i h k else dc_data s (waddr ns i h) k)),
       dc_valid := (if tagv_we then (dc_valid s)(tagv_waddr h := fst (tagv_wdata h)) else dc_valid s),
       dc_tag := (if tagv_we then (dc_tag s)(tagv_waddr h := snd (tagv_wdata h)) else dc_tag s),
       dc_dirty := (if fill_en i h then (dc_dirty s)(miss_idx h := False)
          else if wr_hit ns i h then (dc_dirty s)(m_idx ns (rq_addr (cpu_req i)) := True) else dc_dirty s),
       dram := (if mem_req_write h \<and> in_mem_ready i then write_line (mem_req_addr ns h) (wb_line h) (dram s)
          else dram s)\<rparr>)"

text \<open>The registered outputs of the arrays and the bypass registers.\<close>

definition outputs_clock :: "nat \<Rightarrow> dc_in \<Rightarrow> dc_hw \<Rightarrow> dc_hw" where
  "outputs_clock ns i h = h\<lparr>
     q_data := (\<lambda>k. if be ns i h k \<and> waddr ns i h = a_idx i then rdw_data i k
                    else dc_data (arrays h) (a_idx i) k),
     q_tagv := (if (fill_en i h \<or> init_en h) \<and> tagv_waddr h = a_idx i then rdw_tagv i
                else (dc_valid (arrays h) (a_idx i), dc_tag (arrays h) (a_idx i))),
     q_a_idx := a_idx i,
     byp_v := (\<not> in_rst i \<and> wr_hit ns i h \<and> \<not> fill_en i h \<and> m_idx ns (rq_addr (cpu_req i)) = a_idx i),
     byp_word := (if in_rst i then byp_word h else m_bank (rq_addr (cpu_req i))),
     byp_be := (if in_rst i then byp_be h else rq_wmask (cpu_req i)),
     byp_data := (if in_rst i then byp_data h else rq_wdata (cpu_req i))\<rparr>"

text \<open>The state machine; \<open>h'\<close> is the state with the other registers already clocked.\<close>

definition fsm_clock :: "nat \<Rightarrow> dc_in \<Rightarrow> dc_hw \<Rightarrow> dc_hw \<Rightarrow> dc_hw" where
  "fsm_clock ns i h h' =
     (if in_rst i then h'\<lparr>dc_state := S_INIT, sweep_cnt := 0, miss_idx := 0, miss_tag := 0\<rparr>
      else case dc_state h of
        S_INIT \<Rightarrow> h'\<lparr>sweep_cnt := (sweep_cnt h + 1) mod ns,
                    dc_state := (if sweep_cnt h = ns - 1 then S_RECHECK else S_INIT)\<rparr>
      | S_IDLE \<Rightarrow>
          (if cpu_req_valid i \<and> \<not> hw_hit ns i h
           then if \<not> spec_ok ns i h then h'\<lparr>dc_state := S_RECHECK\<rparr>
                else h'\<lparr>miss_idx := m_idx ns (rq_addr (cpu_req i)), miss_tag := m_tag ns (rq_addr (cpu_req i)),
                        dc_state := S_CAP\<rparr>
           else h')
      | S_CAP \<Rightarrow> h'\<lparr>wb_line := q_data h, wb_tag := snd (q_tagv h),
                   dc_state := (if wb_needed ns i h then S_WB else S_FILL)\<rparr>
      | S_WB \<Rightarrow> if in_mem_ready i then h'\<lparr>dc_state := S_FILL\<rparr> else h'
      | S_FILL \<Rightarrow> if in_mem_ready i then h'\<lparr>dc_state := S_RECHECK\<rparr> else h'
      | S_RECHECK \<Rightarrow> h'\<lparr>dc_state := S_IDLE\<rparr>)"

definition dc_clock :: "nat \<Rightarrow> dc_in \<Rightarrow> dc_hw \<Rightarrow> dc_hw" where
  "dc_clock ns i h = fsm_clock ns i h ((outputs_clock ns i h)\<lparr>arrays := arrays_clock ns i h\<rparr>)"

section \<open>The contract with the pipeline\<close>

text \<open>
  While a request is not served \<^verbatim>\<open>global_mem_stall\<close> freezes the pipeline: the next clock presents the same request, and
  the speculated address is the present one (\<open>dc_addr_next\<close> of \<^verbatim>\<open>cpu.v\<close>). In every other clock the next request
  and the speculated address are arbitrary. A run records each request with the data the CPU took.
\<close>

definition dmem_stall :: "nat \<Rightarrow> dc_in \<Rightarrow> dc_hw \<Rightarrow> bool" where
  "dmem_stall ns i h \<longleftrightarrow> cpu_req_valid i \<and> \<not> cpu_ready ns i h"

definition offered :: "nat \<Rightarrow> dc_req option \<Rightarrow> dc_in \<Rightarrow> dc_hw \<Rightarrow> bool" where
  "offered ns p i h \<longleftrightarrow> \<not> in_rst i \<and> (case p of None \<Rightarrow> True | Some r \<Rightarrow> cpu_req_valid i \<and> cpu_req i = r) \<and>
     (dmem_stall ns i h \<longrightarrow> a_idx i = m_idx ns (rq_addr (cpu_req i)))"

definition held_req :: "nat \<Rightarrow> dc_in \<Rightarrow> dc_hw \<Rightarrow> dc_req option" where
  "held_req ns i h = (if dmem_stall ns i h then Some (cpu_req i) else None)"

definition taken :: "nat \<Rightarrow> dc_in \<Rightarrow> dc_hw \<Rightarrow> (dc_req \<times> lanes) list" where
  "taken ns i h = (if cpu_ready ns i h then [(cpu_req i, cpu_rdata i h)] else [])"

inductive dc_run :: "nat \<Rightarrow> dc_hw \<Rightarrow> (dc_req \<times> lanes) list \<Rightarrow> dc_req option \<Rightarrow> dc_hw \<Rightarrow> bool" for ns h0 where
  start: "dc_run ns h0 [] None h0"
| clock: "dc_run ns h0 log p h \<Longrightarrow> offered ns p i h \<Longrightarrow>
    dc_run ns h0 (log @ taken ns i h) (held_req ns i h) (dc_clock ns i h)"

definition after_reset :: "dc_hw \<Rightarrow> bool" where
  "after_reset h \<longleftrightarrow> dc_state h = S_INIT \<and> sweep_cnt h = 0 \<and> \<not> byp_v h"

section \<open>The access-level cache and the plain memory\<close>

definition dc_word_access :: "nat \<Rightarrow> dc_req \<Rightarrow> dcsys \<Rightarrow> dcsys" where
  "dc_word_access ns r s = (let s = dc_refill ns (rq_addr r) s; j = m_idx ns (rq_addr r) in
     if rq_write r
     then s\<lparr>dc_data := (dc_data s)(j := (\<lambda>k. if m_bank (rq_addr r) = k div 4 \<and> bit (rq_wmask r) (k mod 4)
                                            then lane (rq_wdata r) (k mod 4) else dc_data s j k)),
            dc_dirty := (dc_dirty s)(j := True)\<rparr>
     else s)"

definition mem_access :: "dc_req \<Rightarrow> (nat \<Rightarrow> u8) \<Rightarrow> nat \<Rightarrow> u8" where
  "mem_access r m a = (if rq_write r \<and> a div 4 = rq_addr r div 4 \<and> bit (rq_wmask r) (a mod 4)
                       then lane (rq_wdata r) (a mod 4) else m a)"

definition mem_word :: "(nat \<Rightarrow> u8) \<Rightarrow> nat \<Rightarrow> lanes" where
  "mem_word m a b = m (a div 4 * 4 + b)"

text \<open>Every request of the log was answered with the word at its address, after the stores before it.\<close>

fun answered_by :: "(nat \<Rightarrow> u8) \<Rightarrow> (dc_req \<times> lanes) list \<Rightarrow> bool" where
  "answered_by m [] \<longleftrightarrow> True"
| "answered_by m ((r, d) # xs) \<longleftrightarrow> (\<forall>b \<in> {..<4}. d b = mem_word m (rq_addr r) b) \<and> answered_by (mem_access r m) xs"

section \<open>A word access at the access level\<close>

lemma same_word_iff: "a div 16 = b div 16 \<and> m_bank b = a mod 16 div 4 \<longleftrightarrow> a div 4 = b div (4 :: nat)"
proof -
  have "a mod 16 div 4 = a div 4 mod 4" "a div 16 = a div 4 div 4" "b div 16 = b div 4 div 4"
    by (simp_all add: div_mult2_eq [symmetric] mod_mult2_eq [of a 4 4, simplified])
  then show ?thesis unfolding m_bank_def using mod_div_eq [of "b div 4" 4 "a div 4"] by metis
qed

lemma refill_idem [simp]: "0 < ns \<Longrightarrow> dc_refill ns a (dc_refill ns a s) = dc_refill ns a s"
  by (simp add: dc_refill_def [of ns a "dc_refill ns a s"] hit_refill)

lemma refill_hit: "dc_hit ns s a \<Longrightarrow> dc_refill ns a s = s"
  by (simp add: dc_refill_def)

lemma word_access_refill [simp]: "0 < ns \<Longrightarrow> dc_word_access ns r (dc_refill ns (rq_addr r) s) = dc_word_access ns r s"
  by (simp add: dc_word_access_def)

lemma hit_word_access: "dc_hit ns (dc_word_access ns r s) a = dc_hit ns (dc_refill ns (rq_addr r) s) a"
  by (simp add: dc_word_access_def Let_def dc_hit_def)

lemma dram_word_access: "dram (dc_word_access ns r s) = dram (dc_refill ns (rq_addr r) s)"
  by (simp add: dc_word_access_def Let_def)

lemma view_word_access:
  assumes ns: "0 < ns" and sync: "in_sync ns s a"
  shows "cpu_view ns (dc_word_access ns r s) a = mem_access r (cpu_view ns s) a"
proof -
  let ?s = "dc_refill ns (rq_addr r) s"
  have view: "cpu_view ns ?s a = cpu_view ns s a" by (rule view_refill [OF assms])
  have hit: "dc_hit ns ?s (rq_addr r)" using ns by (simp add: hit_refill)
  have line: "m_idx ns a = m_idx ns (rq_addr r) \<and> dc_hit ns ?s a \<longleftrightarrow> a div 16 = rq_addr r div 16"
    using ns same_line_iff [of ns a "rq_addr r"] by (auto simp: hit_refill)
  show ?thesis
  proof (cases "dc_hit ns ?s a \<and> m_idx ns a = m_idx ns (rq_addr r)")
    case True
    then have "a div 16 = rq_addr r div 16" using line by blast
    then have word: "m_bank (rq_addr r) = a mod 16 div 4 \<longleftrightarrow> a div 4 = rq_addr r div 4"
      using same_word_iff [of a "rq_addr r"] by blast
    have "a mod 16 mod 4 = a mod 4" by (simp add: mod_mod_cancel)
    with True word view show ?thesis
      by (auto simp: cpu_view_def [of ns "dc_word_access ns r s"] hit_word_access mem_access_def)
        (auto simp: dc_word_access_def Let_def cpu_view_def [of ns ?s] split: if_splits)
  next
    case False
    then have "a div 4 \<noteq> rq_addr r div 4"
      using line same_word_iff [of a "rq_addr r"] by blast
    moreover have "cpu_view ns (dc_word_access ns r s) a = cpu_view ns ?s a"
      using False by (auto simp: cpu_view_def hit_word_access dram_word_access)
        (auto simp: dc_word_access_def Let_def)
    ultimately show ?thesis by (simp add: mem_access_def view)
  qed
qed

lemma in_sync_word_access:
  assumes ns: "0 < ns" and sync: "in_sync ns s a"
  shows "in_sync ns (dc_word_access ns r s) a"
proof -
  let ?s = "dc_refill ns (rq_addr r) s"
  have "in_sync ns ?s a" by (rule in_sync_refill [OF assms])
  moreover have "cpu_view ns (dc_word_access ns r s) a = cpu_view ns ?s a"
    if "m_idx ns a \<noteq> m_idx ns (rq_addr r) \<or> \<not> rq_write r"
    using that by (auto simp: cpu_view_def hit_word_access dram_word_access)
      (auto simp: dc_word_access_def Let_def)
  moreover have "dc_dirty_at ns (dc_word_access ns r s) a \<longleftrightarrow>
      dc_hit ns ?s a \<and> (rq_write r \<and> m_idx ns a = m_idx ns (rq_addr r) \<or> dc_dirty_at ns ?s a)"
    by (auto simp: dc_dirty_at_def hit_word_access) (auto simp: dc_word_access_def Let_def split: if_splits)
  ultimately show ?thesis
    by (auto simp: in_sync_def hit_word_access dram_word_access)
qed

section \<open>The invariant of the clocked cache\<close>

text \<open>
  The output registers hold the arrays at the address they were read at, up to the bytes the bypass supplies.
\<close>

definition q_fresh :: "dc_hw \<Rightarrow> bool" where
  "q_fresh h \<longleftrightarrow> q_tagv h = (dc_valid (arrays h) (q_a_idx h), dc_tag (arrays h) (q_a_idx h)) \<and>
     (\<forall>k. dc_data (arrays h) (q_a_idx h) k =
        (if byp_v h \<and> byp_word h = k div 4 \<and> bit (byp_be h) (k mod 4) then lane (byp_data h) (k mod 4) else q_data h k))"

text \<open>\<open>A\<close> is the access-level cache after the requests served so far.\<close>

definition resolved :: "nat \<Rightarrow> dcsys \<Rightarrow> dc_req option \<Rightarrow> dc_hw \<Rightarrow> bool" where
  "resolved ns A p h \<longleftrightarrow> arrays h = A \<or> (\<exists>r. p = Some r \<and> arrays h = dc_refill ns (rq_addr r) A)"

definition missing :: "nat \<Rightarrow> dcsys \<Rightarrow> dc_req option \<Rightarrow> dc_hw \<Rightarrow> bool" where
  "missing ns A p h \<longleftrightarrow> (\<exists>r. p = Some r \<and> miss_idx h = m_idx ns (rq_addr r) \<and>
     miss_tag h = m_tag ns (rq_addr r) \<and> \<not> dc_hit ns A (rq_addr r))"

definition dc_ok :: "nat \<Rightarrow> dcsys \<Rightarrow> dc_req option \<Rightarrow> dc_hw \<Rightarrow> bool" where
  "dc_ok ns A p h \<longleftrightarrow> (case dc_state h of
     S_INIT \<Rightarrow> False
   | S_RECHECK \<Rightarrow> resolved ns A p h
   | S_IDLE \<Rightarrow> resolved ns A p h \<and> q_fresh h
   | S_CAP \<Rightarrow> missing ns A p h \<and> arrays h = A \<and> q_fresh h \<and> \<not> byp_v h \<and> q_a_idx h = miss_idx h
   | S_WB \<Rightarrow> missing ns A p h \<and> arrays h = A \<and> dc_valid A (miss_idx h) \<and> dc_dirty A (miss_idx h) \<and>
       wb_line h = dc_data A (miss_idx h) \<and> wb_tag h = dc_tag A (miss_idx h)
   | S_FILL \<Rightarrow> missing ns A p h \<and> arrays h = dc_writeback ns (miss_idx h) A)"

lemma clock_arrays [simp]: "arrays (dc_clock ns i h) = arrays_clock ns i h"
  by (simp add: dc_clock_def fsm_clock_def split: dc_fsm.split)

lemma clock_registers [simp]:
  "q_tagv (dc_clock ns i h) = q_tagv (outputs_clock ns i h)"
  "q_data (dc_clock ns i h) = q_data (outputs_clock ns i h)"
  "q_a_idx (dc_clock ns i h) = a_idx i"
  "byp_v (dc_clock ns i h) = byp_v (outputs_clock ns i h)"
  "byp_word (dc_clock ns i h) = byp_word (outputs_clock ns i h)"
  "byp_be (dc_clock ns i h) = byp_be (outputs_clock ns i h)"
  "byp_data (dc_clock ns i h) = byp_data (outputs_clock ns i h)"
  by (cases "dc_state h"; simp add: dc_clock_def fsm_clock_def outputs_clock_def)+

lemma reset_init: "in_rst i \<Longrightarrow> after_reset (dc_clock ns i h)"
  by (simp add: after_reset_def outputs_clock_def) (simp add: dc_clock_def fsm_clock_def)

text \<open>Away from the clocks that write the tags, the output registers are fresh after every clock.\<close>

lemma fresh_clock: "\<not> in_rst i \<Longrightarrow> \<not> fill_en i h \<Longrightarrow> \<not> init_en h \<Longrightarrow> q_fresh (dc_clock ns i h)"
  by (auto simp: q_fresh_def outputs_clock_def arrays_clock_def Let_def be_def wd_def waddr_def wr_hit_def)

lemma arrays_clock_same: "\<not> fill_en i h \<Longrightarrow> \<not> init_en h \<Longrightarrow> \<not> wr_hit ns i h \<Longrightarrow> \<not> (mem_req_write h \<and> in_mem_ready i) \<Longrightarrow>
    arrays_clock ns i h = arrays h"
  by (cases "mem_req_write h"; cases "in_mem_ready i"; simp add: arrays_clock_def Let_def be_def)

lemma arrays_clock_store: "wr_hit ns i h \<Longrightarrow> dc_hit ns (arrays h) (rq_addr (cpu_req i)) \<Longrightarrow>
    arrays_clock ns i h = dc_word_access ns (cpu_req i) (arrays h)"
  by (auto simp: arrays_clock_def Let_def be_def [abs_def] wd_def [abs_def] waddr_def wr_hit_def fill_en_def init_en_def
      mem_req_write_def dc_word_access_def refill_hit cong: if_cong)

lemma arrays_clock_wb: "dc_state h = S_WB \<Longrightarrow> in_mem_ready i \<Longrightarrow> dc_valid (arrays h) (miss_idx h) \<Longrightarrow>
    dc_dirty (arrays h) (miss_idx h) \<Longrightarrow> wb_line h = dc_data (arrays h) (miss_idx h) \<Longrightarrow>
    wb_tag h = dc_tag (arrays h) (miss_idx h) \<Longrightarrow>
    arrays_clock ns i h = dc_writeback ns (miss_idx h) (arrays h)"
  by (simp add: arrays_clock_def Let_def be_def wr_hit_def fill_en_def init_en_def mem_req_write_def
      dc_writeback_def mem_req_addr_def)

lemma arrays_clock_fill: "dc_state h = S_FILL \<Longrightarrow> in_mem_ready i \<Longrightarrow>
    arrays_clock ns i h = dc_fill ns (miss_tag h) (miss_idx h) (arrays h)"
  by (simp add: arrays_clock_def Let_def be_def wd_def waddr_def fill_en_def init_en_def mem_req_write_def
      tagv_waddr_def tagv_wdata_def dc_fill_def mem_rline_def [abs_def] mem_req_addr_def)

text \<open>With fresh outputs the cache sees a hit exactly when the speculation holds and the arrays have the line.\<close>

lemma fresh_hit: "q_fresh h \<Longrightarrow> hw_hit ns i h \<longleftrightarrow> spec_ok ns i h \<and> dc_hit ns (arrays h) (rq_addr (cpu_req i))"
  by (auto simp: q_fresh_def hw_hit_def spec_ok_def dc_hit_def)

lemma fresh_rdata: "q_fresh h \<Longrightarrow> hw_hit ns i h \<Longrightarrow> b < 4 \<Longrightarrow>
    cpu_rdata i h b = dc_data (arrays h) (m_idx ns (rq_addr (cpu_req i))) (4 * m_bank (rq_addr (cpu_req i)) + b)"
  by (simp add: q_fresh_def hw_hit_def spec_ok_def cpu_rdata_def)

section \<open>Every clock keeps the invariant\<close>

definition next_abs :: "nat \<Rightarrow> dc_in \<Rightarrow> dc_hw \<Rightarrow> dcsys \<Rightarrow> dcsys" where
  "next_abs ns i h A = (if cpu_ready ns i h then dc_word_access ns (cpu_req i) A else A)"

lemma clock_state: "\<not> in_rst i \<Longrightarrow> dc_state (dc_clock ns i h) = (case dc_state h of
    S_INIT \<Rightarrow> if sweep_cnt h = ns - 1 then S_RECHECK else S_INIT
  | S_IDLE \<Rightarrow> if cpu_req_valid i \<and> \<not> hw_hit ns i h then if spec_ok ns i h then S_CAP else S_RECHECK else S_IDLE
  | S_CAP \<Rightarrow> if wb_needed ns i h then S_WB else S_FILL
  | S_WB \<Rightarrow> if in_mem_ready i then S_FILL else S_WB
  | S_FILL \<Rightarrow> if in_mem_ready i then S_RECHECK else S_FILL
  | S_RECHECK \<Rightarrow> S_IDLE)"
  by (auto simp: dc_clock_def fsm_clock_def outputs_clock_def split: dc_fsm.split)

lemma clock_miss: "\<not> in_rst i \<Longrightarrow> dc_state h \<noteq> S_IDLE \<Longrightarrow>
    miss_idx (dc_clock ns i h) = miss_idx h \<and> miss_tag (dc_clock ns i h) = miss_tag h"
  by (auto simp: dc_clock_def fsm_clock_def outputs_clock_def split: dc_fsm.split)

lemma clock_wb: "\<not> in_rst i \<Longrightarrow> dc_state h \<noteq> S_CAP \<Longrightarrow>
    wb_line (dc_clock ns i h) = wb_line h \<and> wb_tag (dc_clock ns i h) = wb_tag h"
  by (auto simp: dc_clock_def fsm_clock_def outputs_clock_def split: dc_fsm.split)

lemma not_idle: "dc_state h \<noteq> S_IDLE \<Longrightarrow>
    \<not> cpu_ready ns i h \<and> \<not> wr_hit ns i h \<and> next_abs ns i h A = A \<and> taken ns i h = [] \<and>
    (cpu_req_valid i \<longrightarrow> held_req ns i h = Some (cpu_req i) \<and> dmem_stall ns i h)"
  by (simp add: cpu_ready_def wr_hit_def next_abs_def taken_def held_req_def dmem_stall_def)

text \<open>Serving a request: the arrays follow the access-level cache.\<close>

lemma step_idle_ready:
  assumes ns: "0 < ns" and ok: "dc_ok ns A p h" and off: "offered ns p i h" and rdy: "cpu_ready ns i h"
  shows "dc_ok ns (next_abs ns i h A) (held_req ns i h) (dc_clock ns i h)"
proof -
  have st: "dc_state h = S_IDLE" "cpu_req_valid i" "hw_hit ns i h" and rst: "\<not> in_rst i"
    using rdy off by (auto simp: cpu_ready_def offered_def)
  then have res: "resolved ns A p h" and fresh: "q_fresh h" using ok by (auto simp: dc_ok_def)
  then have hit: "dc_hit ns (arrays h) (rq_addr (cpu_req i))" using st fresh_hit by blast
  have acc: "dc_word_access ns (cpu_req i) (arrays h) = dc_word_access ns (cpu_req i) A"
    using res off ns by (auto simp: resolved_def offered_def)
  have "arrays_clock ns i h = dc_word_access ns (cpu_req i) (arrays h)"
  proof (cases "rq_write (cpu_req i)")
    case True
    with st hit show ?thesis by (simp add: arrays_clock_store wr_hit_def)
  next
    case False
    with st have "arrays_clock ns i h = arrays h"
      by (intro arrays_clock_same) (simp_all add: wr_hit_def fill_en_def init_en_def mem_req_write_def)
    with False hit show ?thesis by (simp add: dc_word_access_def refill_hit)
  qed
  with acc rdy st rst show ?thesis
    by (simp add: dc_ok_def clock_state resolved_def next_abs_def fresh_clock fill_en_def init_en_def)
qed

lemma step_idle_stall:
  assumes ns: "0 < ns" and ok: "dc_ok ns A p h" and off: "offered ns p i h" and st: "dc_state h = S_IDLE"
    and rdy: "\<not> cpu_ready ns i h"
  shows "dc_ok ns (next_abs ns i h A) (held_req ns i h) (dc_clock ns i h)"
proof -
  have rst: "\<not> in_rst i" using off by (simp add: offered_def)
  have res: "resolved ns A p h" and fresh: "q_fresh h" using ok st by (auto simp: dc_ok_def)
  have arr: "arrays_clock ns i h = arrays h"
    using st rdy by (intro arrays_clock_same)
      (simp_all add: wr_hit_def cpu_ready_def fill_en_def init_en_def mem_req_write_def)
  have fresh': "q_fresh (dc_clock ns i h)" using st rst by (simp add: fresh_clock fill_en_def init_en_def)
  have A: "next_abs ns i h A = A" using rdy by (simp add: next_abs_def)
  show ?thesis
  proof (cases "cpu_req_valid i")
    case False
    then have "held_req ns i h = None" "p = None"
      using off by (auto simp: held_req_def dmem_stall_def offered_def split: option.splits)
    with False res st rst arr A fresh' show ?thesis by (simp add: dc_ok_def clock_state resolved_def)
  next
    case True
    with st rdy have miss: "\<not> hw_hit ns i h" and stall: "dmem_stall ns i h"
      by (simp_all add: cpu_ready_def dmem_stall_def)
    have pend: "held_req ns i h = Some (cpu_req i)" using stall by (simp add: held_req_def)
    have res': "resolved ns A (Some (cpu_req i)) h"
      using res off by (auto simp: resolved_def offered_def)
    show ?thesis
    proof (cases "spec_ok ns i h")
      case False
      with True st rst miss res' arr A pend show ?thesis
        by (simp add: dc_ok_def clock_state resolved_def)
    next
      case spec: True
      with miss fresh have nohit: "\<not> dc_hit ns (arrays h) (rq_addr (cpu_req i))" by (simp add: fresh_hit)
      with res' ns have AA: "arrays h = A" by (auto simp: resolved_def hit_refill)
      have reg: "miss_idx (dc_clock ns i h) = m_idx ns (rq_addr (cpu_req i))"
        "miss_tag (dc_clock ns i h) = m_tag ns (rq_addr (cpu_req i))"
        using True st rst miss spec by (simp_all add: dc_clock_def fsm_clock_def)
      have "a_idx i = m_idx ns (rq_addr (cpu_req i))" using off stall by (simp add: offered_def)
      moreover have "\<not> byp_v (dc_clock ns i h)" using miss by (simp add: outputs_clock_def wr_hit_def)
      moreover have "dc_state (dc_clock ns i h) = S_CAP" using True st rst miss spec by (simp add: clock_state)
      ultimately show ?thesis using reg nohit AA arr A pend fresh'
        by (simp add: dc_ok_def missing_def)
    qed
  qed
qed

lemma step_miss:
  assumes ns: "0 < ns" and ok: "dc_ok ns A p h" and off: "offered ns p i h"
    and st: "dc_state h = S_CAP \<or> dc_state h = S_WB \<or> dc_state h = S_FILL"
  shows "dc_ok ns (next_abs ns i h A) (held_req ns i h) (dc_clock ns i h)"
proof -
  have miss: "missing ns A p h" using ok st by (auto simp: dc_ok_def)
  then obtain r where p: "p = Some r" by (auto simp: missing_def)
  with off have r: "cpu_req_valid i" "cpu_req i = r" and rst: "\<not> in_rst i" by (auto simp: offered_def)
  have ni: "dc_state h \<noteq> S_IDLE" using st by auto
  have pend: "held_req ns i h = p" and A: "next_abs ns i h A = A" and wr: "\<not> wr_hit ns i h"
    using not_idle [OF ni, of ns i A] r p by simp_all
  have idx: "miss_idx h = m_idx ns (rq_addr r)" "miss_tag h = m_tag ns (rq_addr r)"
    and nohit: "\<not> dc_hit ns A (rq_addr r)"
    using miss p by (auto simp: missing_def)
  have miss': "missing ns A p (dc_clock ns i h)"
    using miss clock_miss [OF rst ni, of ns] by (simp add: missing_def)
  have same: "arrays_clock ns i h = arrays h" if "dc_state h \<noteq> S_CAP \<longrightarrow> \<not> in_mem_ready i"
    using that st wr by (intro arrays_clock_same) (auto simp: fill_en_def init_en_def mem_req_write_def)
  note simps = dc_ok_def clock_state [OF rst] clock_miss [OF rst ni] miss' pend A
  consider "dc_state h = S_CAP" | "dc_state h = S_WB" | "dc_state h = S_FILL" using st by blast
  then show ?thesis
  proof cases
    case 1
    with ok have AA: "arrays h = A" and fresh: "q_fresh h" "\<not> byp_v h" "q_a_idx h = miss_idx h"
      by (auto simp: dc_ok_def)
    have reg: "wb_line (dc_clock ns i h) = q_data h" "wb_tag (dc_clock ns i h) = snd (q_tagv h)"
      using 1 rst by (simp_all add: dc_clock_def fsm_clock_def)
    have "q_tagv h = (dc_valid A (miss_idx h), dc_tag A (miss_idx h))" "q_data h = dc_data A (miss_idx h)"
      using fresh AA by (auto simp: q_fresh_def)
    with 1 same AA idx r reg show ?thesis
      by (auto simp: simps wb_needed_def dc_writeback_def)
  next
    case 2
    with ok have wb: "arrays h = A" "dc_valid A (miss_idx h)" "dc_dirty A (miss_idx h)"
      "wb_line h = dc_data A (miss_idx h)" "wb_tag h = dc_tag A (miss_idx h)"
      by (auto simp: dc_ok_def)
    show ?thesis
    proof (cases "in_mem_ready i")
      case True
      with 2 wb have "arrays_clock ns i h = dc_writeback ns (miss_idx h) A"
        by (simp add: arrays_clock_wb)
      with 2 True show ?thesis by (simp add: simps)
    next
      case False
      with 2 same wb clock_wb [OF rst, of h ns] show ?thesis by (simp add: simps)
    qed
  next
    case 3
    with ok have wb: "arrays h = dc_writeback ns (miss_idx h) A" by (simp add: dc_ok_def)
    show ?thesis
    proof (cases "in_mem_ready i")
      case True
      with 3 wb idx nohit have "arrays_clock ns i h = dc_refill ns (rq_addr r) A"
        by (simp add: arrays_clock_fill dc_refill_def)
      with 3 True p show ?thesis by (simp add: simps resolved_def)
    next
      case False
      with 3 same wb show ?thesis by (simp add: simps)
    qed
  qed
qed

lemma step_recheck:
  assumes ok: "dc_ok ns A p h" and off: "offered ns p i h" and st: "dc_state h = S_RECHECK"
  shows "dc_ok ns (next_abs ns i h A) (held_req ns i h) (dc_clock ns i h)"
proof -
  have rst: "\<not> in_rst i" using off by (simp add: offered_def)
  have ni: "dc_state h \<noteq> S_IDLE" using st by simp
  have arr: "arrays_clock ns i h = arrays h"
    using not_idle [OF ni, of ns i] st
    by (intro arrays_clock_same) (auto simp: fill_en_def init_en_def mem_req_write_def)
  have "resolved ns A p h" using ok st by (simp add: dc_ok_def)
  then have "resolved ns A (held_req ns i h) (dc_clock ns i h)"
    using not_idle [OF ni, of ns i] off by (auto simp: resolved_def arr offered_def)
  then show ?thesis
    using not_idle [OF ni, of ns i A] st rst
    by (simp add: dc_ok_def clock_state fresh_clock fill_en_def init_en_def)
qed

lemma step_ok:
  assumes "0 < ns" and "dc_ok ns A p h" and "offered ns p i h"
  shows "dc_ok ns (next_abs ns i h A) (held_req ns i h) (dc_clock ns i h)"
proof (cases "dc_state h")
  case S_INIT
  with assms(2) show ?thesis by (simp add: dc_ok_def)
next
  case S_IDLE
  then show ?thesis using assms step_idle_ready step_idle_stall by blast
next
  case S_RECHECK
  then show ?thesis using assms step_recheck by blast
qed (use assms step_miss in blast)+

section \<open>The sweep after reset and the invariant of a run\<close>

definition mem_after :: "(nat \<Rightarrow> u8) \<Rightarrow> (dc_req \<times> lanes) list \<Rightarrow> nat \<Rightarrow> u8" where
  "mem_after m log = fold (\<lambda>x. mem_access (fst x)) log m"

definition abs_after :: "nat \<Rightarrow> dcsys \<Rightarrow> (dc_req \<times> lanes) list \<Rightarrow> dcsys" where
  "abs_after ns A log = fold (\<lambda>x. dc_word_access ns (fst x)) log A"

definition empty_cache :: "nat \<Rightarrow> dcsys \<Rightarrow> bool" where
  "empty_cache ns A \<longleftrightarrow> (\<forall>j \<in> {..<ns}. \<not> dc_valid A j)"

lemma answered_append:
  "answered_by m (xs @ [(r, d)]) \<longleftrightarrow>
   answered_by m xs \<and> (\<forall>b \<in> {..<4}. d b = mem_word (mem_after m xs) (rq_addr r) b)"
  by (induction m xs rule: answered_by.induct) (auto simp: mem_after_def)

lemma empty_view: "0 < ns \<Longrightarrow> empty_cache ns A \<Longrightarrow> cpu_view ns A = dram A \<and> in_sync ns A a"
  by (auto simp: empty_cache_def cpu_view_def in_sync_def dc_hit_def fun_eq_iff)

lemma abs_after_view:
  assumes "0 < ns" and "\<And>a. in_sync ns A a"
  shows "cpu_view ns (abs_after ns A log) = mem_after (cpu_view ns A) log \<and> (\<forall>a. in_sync ns (abs_after ns A log) a)"
  using assms(2) unfolding abs_after_def mem_after_def
proof (induction log arbitrary: A)
  case (Cons x log)
  have "cpu_view ns (dc_word_access ns (fst x) A) = mem_access (fst x) (cpu_view ns A)"
    using Cons.prems assms(1) by (auto simp: view_word_access)
  with Cons.IH [of "dc_word_access ns (fst x) A"] Cons.prems assms(1) show ?case
    by (simp add: in_sync_word_access)
qed auto

lemma word_offset:
  assumes "b < 4"
  shows "4 * m_bank a + b = (a div 4 * 4 + b) mod 16" and "m_idx ns (a div 4 * 4 + b) = m_idx ns a"
    and "m_tag ns (a div 4 * 4 + b) = m_tag ns a"
proof -
  have d: "(a div 4 * 4 + b) div 4 = a div 4" using assms by simp
  have "(a div 4 * 4 + b) mod (4 * 4) = 4 * ((a div 4 * 4 + b) div 4 mod 4) + (a div 4 * 4 + b) mod 4"
    by (rule mod_mult2_eq)
  with assms d show "4 * m_bank a + b = (a div 4 * 4 + b) mod 16" by (simp add: m_bank_def)
  have "(a div 4 * 4 + b) div 4 div 4 = a div 4 div 4" using d by simp
  then have "(a div 4 * 4 + b) div 16 = a div 16" by (simp add: div_mult2_eq [symmetric])
  then show "m_idx ns (a div 4 * 4 + b) = m_idx ns a" "m_tag ns (a div 4 * 4 + b) = m_tag ns a"
    by (simp_all add: m_idx_def m_tag_def)
qed

text \<open>The data the CPU takes is the word it would see in the access-level cache.\<close>

lemma ready_rdata:
  assumes ns: "0 < ns" and ok: "dc_ok ns A p h" and off: "offered ns p i h" and rdy: "cpu_ready ns i h"
    and sync: "\<And>a. in_sync ns A a" and b: "b < 4"
  shows "cpu_rdata i h b = mem_word (cpu_view ns A) (rq_addr (cpu_req i)) b"
proof -
  let ?a = "rq_addr (cpu_req i) div 4 * 4 + b"
  have st: "dc_state h = S_IDLE" "hw_hit ns i h" using rdy by (auto simp: cpu_ready_def)
  then have res: "resolved ns A p h" and fresh: "q_fresh h" using ok by (auto simp: dc_ok_def)
  then have "dc_hit ns (arrays h) ?a" using st fresh_hit by (simp add: dc_hit_def word_offset [OF b])
  then have "cpu_rdata i h b = cpu_view ns (arrays h) ?a"
    using fresh_rdata [OF fresh st(2) b] by (simp add: cpu_view_def word_offset [OF b])
  moreover have "cpu_view ns (arrays h) ?a = cpu_view ns A ?a"
    using res sync ns by (auto simp: resolved_def view_refill)
  ultimately show ?thesis by (simp add: mem_word_def)
qed

definition sweeping :: "nat \<Rightarrow> (nat \<Rightarrow> u8) \<Rightarrow> dc_hw \<Rightarrow> bool" where
  "sweeping ns m h \<longleftrightarrow> dc_state h = S_INIT \<and> sweep_cnt h < ns \<and> empty_cache (sweep_cnt h) (arrays h) \<and>
     dram (arrays h) = m"

lemma arrays_clock_init: "dc_state h = S_INIT \<Longrightarrow> arrays_clock ns i h =
    (arrays h)\<lparr>dc_valid := (dc_valid (arrays h))(sweep_cnt h := False), dc_tag := (dc_tag (arrays h))(sweep_cnt h := 0)\<rparr>"
  by (simp add: arrays_clock_def Let_def be_def wr_hit_def fill_en_def init_en_def mem_req_write_def
      tagv_waddr_def tagv_wdata_def)

lemma step_init:
  assumes "sweeping ns m h" and "\<not> in_rst i"
  shows "if sweep_cnt h = ns - 1
         then dc_state (dc_clock ns i h) = S_RECHECK \<and> empty_cache ns (arrays (dc_clock ns i h)) \<and>
           dram (arrays (dc_clock ns i h)) = m
         else sweeping ns m (dc_clock ns i h) \<and> sweep_cnt (dc_clock ns i h) = sweep_cnt h + 1"
proof -
  have st: "dc_state h = S_INIT" "sweep_cnt h < ns" "empty_cache (sweep_cnt h) (arrays h)" "dram (arrays h) = m"
    using assms by (auto simp: sweeping_def)
  have "empty_cache (sweep_cnt h + 1) (arrays_clock ns i h)"
    using st by (auto simp: empty_cache_def arrays_clock_init less_Suc_eq)
  moreover have "dram (arrays_clock ns i h) = m" using st by (simp add: arrays_clock_init)
  moreover have "sweep_cnt (dc_clock ns i h) = (sweep_cnt h + 1) mod ns"
    using st assms(2) by (simp add: dc_clock_def fsm_clock_def)
  ultimately show ?thesis using st assms(2) by (auto simp: sweeping_def clock_state)
qed

definition dc_inv :: "nat \<Rightarrow> (nat \<Rightarrow> u8) \<Rightarrow> (dc_req \<times> lanes) list \<Rightarrow> dc_req option \<Rightarrow> dc_hw \<Rightarrow> bool" where
  "dc_inv ns m log p h \<longleftrightarrow> sweeping ns m h \<and> log = [] \<or>
     answered_by m log \<and>
     (\<exists>A. empty_cache ns A \<and> dram A = m \<and> dc_ok ns (abs_after ns A log) p h)"

lemma dc_inv_step:
  assumes ns: "0 < ns" and inv: "dc_inv ns m log p h" and off: "offered ns p i h"
  shows "dc_inv ns m (log @ taken ns i h) (held_req ns i h) (dc_clock ns i h)"
proof (cases "sweeping ns m h \<and> log = []")
  case True
  then have "taken ns i h = []" using not_idle [of h ns i] by (simp add: sweeping_def)
  with True step_init [of ns m h i] off show ?thesis
    by (auto simp: dc_inv_def offered_def dc_ok_def resolved_def abs_after_def split: if_splits)
next
  case False
  then obtain A where A: "empty_cache ns A" "dram A = m" "dc_ok ns (abs_after ns A log) p h"
    and ans: "answered_by m log"
    using inv by (auto simp: dc_inv_def)
  have view: "cpu_view ns (abs_after ns A log) = mem_after m log" "\<And>a. in_sync ns (abs_after ns A log) a"
    using abs_after_view [OF ns, of A log] empty_view [OF ns A(1)] A(2) by auto
  have "abs_after ns A (log @ taken ns i h) = next_abs ns i h (abs_after ns A log)"
    by (simp add: abs_after_def taken_def next_abs_def)
  with step_ok [OF ns A(3) off] have "dc_ok ns (abs_after ns A (log @ taken ns i h)) (held_req ns i h) (dc_clock ns i h)"
    by simp
  moreover have "answered_by m (log @ taken ns i h)"
    using ans ready_rdata [OF ns A(3) off _ view(2)] by (auto simp: taken_def answered_append view)
  ultimately show ?thesis using A by (auto simp: dc_inv_def)
qed

lemma run_inv:
  assumes "0 < ns" and "after_reset h0" and "dc_run ns h0 log p h"
  shows "dc_inv ns (dram (arrays h0)) log p h"
  using assms(3)
proof (induction rule: dc_run.induct)
  case start
  then show ?case using assms by (simp add: dc_inv_def sweeping_def after_reset_def empty_cache_def)
next
  case (clock log p h i)
  then show ?case using dc_inv_step [OF assms(1)] by blast
qed

section \<open>Every request is served\<close>

text \<open>
  The number of clocks, not counting those spent waiting for memory, that a request at address \<open>a\<close> still needs.
\<close>

definition dc_rank :: "nat \<Rightarrow> nat \<Rightarrow> dc_hw \<Rightarrow> nat" where
  "dc_rank ns a h = (let hit = dc_hit ns (arrays h) a in case dc_state h of
     S_INIT \<Rightarrow> ns - sweep_cnt h + 6
   | S_IDLE \<Rightarrow> if q_a_idx h = m_idx ns a then if hit then 0 else 5 else if hit then 2 else 7
   | S_CAP \<Rightarrow> 4
   | S_WB \<Rightarrow> 3
   | S_FILL \<Rightarrow> 2
   | S_RECHECK \<Rightarrow> if hit then 1 else 6)"

lemma rank_bound: "dc_rank ns a h \<le> (if dc_state h = S_INIT then ns + 6 else 7)"
  by (simp add: dc_rank_def Let_def split: dc_fsm.split)

lemma rank_step_init:
  assumes "sweeping ns m h" and "offered ns p i h"
  shows "dc_rank ns a (dc_clock ns i h) < dc_rank ns a h"
  using step_init [OF assms(1), of i] assms
  by (auto simp: dc_rank_def Let_def sweeping_def offered_def split: if_splits)

lemma rank_step:
  assumes ns: "0 < ns" and ok: "dc_ok ns A p h" and off: "offered ns p i h" and stall: "dmem_stall ns i h"
  shows "dc_rank ns (rq_addr (cpu_req i)) (dc_clock ns i h) \<le> dc_rank ns (rq_addr (cpu_req i)) h"
    and "in_mem_ready i \<Longrightarrow> dc_rank ns (rq_addr (cpu_req i)) (dc_clock ns i h) < dc_rank ns (rq_addr (cpu_req i)) h"
proof -
  have rst: "\<not> in_rst i" and v: "cpu_req_valid i" and idx: "a_idx i = m_idx ns (rq_addr (cpu_req i))"
    using off stall by (auto simp: offered_def dmem_stall_def)
  have nr: "\<not> cpu_ready ns i h" using stall by (simp add: dmem_stall_def)
  then have wr: "\<not> wr_hit ns i h" by (auto simp: wr_hit_def cpu_ready_def)
  have same: "arrays_clock ns i h = arrays h" if "dc_state h = S_IDLE \<or> dc_state h = S_RECHECK"
    using that wr by (intro arrays_clock_same) (auto simp: fill_en_def init_en_def mem_req_write_def)
  have fill: "dc_hit ns (arrays_clock ns i h) (rq_addr (cpu_req i))" if "dc_state h = S_FILL" "in_mem_ready i"
    using that ok off ns
    by (auto simp: arrays_clock_fill dc_ok_def missing_def offered_def hit_fill)
  have q: "q_a_idx (dc_clock ns i h) = m_idx ns (rq_addr (cpu_req i))" using idx by simp
  show "dc_rank ns (rq_addr (cpu_req i)) (dc_clock ns i h) \<le> dc_rank ns (rq_addr (cpu_req i)) h"
    and "in_mem_ready i \<Longrightarrow> dc_rank ns (rq_addr (cpu_req i)) (dc_clock ns i h) < dc_rank ns (rq_addr (cpu_req i)) h"
    using ok nr v same fill q fresh_hit [of h ns i]
    by (auto simp: dc_rank_def Let_def clock_state [OF rst] spec_ok_def dc_ok_def cpu_ready_def hw_hit_def
        split: dc_fsm.splits if_splits)
qed

text \<open>The answers in a sequence of clocks, and when the sequence keeps the contract of the pipeline.\<close>

fun dc_log :: "nat \<Rightarrow> dc_in list \<Rightarrow> dc_hw \<Rightarrow> (dc_req \<times> lanes) list" where
  "dc_log ns [] h = []"
| "dc_log ns (i # is) h = taken ns i h @ dc_log ns is (dc_clock ns i h)"

fun sched_ok :: "nat \<Rightarrow> dc_in list \<Rightarrow> dc_req option \<Rightarrow> dc_hw \<Rightarrow> bool" where
  "sched_ok ns [] p h \<longleftrightarrow> True"
| "sched_ok ns (i # is) p h \<longleftrightarrow> offered ns p i h \<and> sched_ok ns is (held_req ns i h) (dc_clock ns i h)"

lemma run_sched:
  "dc_run ns h0 log p h \<Longrightarrow> sched_ok ns is p h \<Longrightarrow>
   \<exists>p'. dc_run ns h0 (log @ dc_log ns is h) p' (fold (dc_clock ns) is h)"
proof (induction "is" arbitrary: log p h)
  case (Cons i "is")
  then have "dc_run ns h0 (log @ taken ns i h) (held_req ns i h) (dc_clock ns i h)"
    by (auto intro: dc_run.clock)
  from Cons.IH [OF this] Cons.prems show ?case by simp
qed auto

definition presents :: "nat \<Rightarrow> dc_req \<Rightarrow> dc_in \<Rightarrow> bool" where
  "presents ns r i \<longleftrightarrow> \<not> in_rst i \<and> cpu_req_valid i \<and> cpu_req i = r \<and> a_idx i = m_idx ns (rq_addr r)"

lemma presents_offered: "presents ns r i \<Longrightarrow> p = None \<or> p = Some r \<Longrightarrow> offered ns p i h"
  by (auto simp: presents_def offered_def)

lemma held_served:
  assumes ns: "0 < ns"
  shows "dc_inv ns m log p h \<Longrightarrow> p = None \<or> p = Some r \<Longrightarrow> \<forall>i \<in> set is. presents ns r i \<Longrightarrow>
    dc_rank ns (rq_addr r) h < length (filter in_mem_ready is) \<Longrightarrow>
    \<exists>d rest. dc_log ns is h = (r, d) # rest \<and> (\<forall>b \<in> {..<4}. d b = mem_word (mem_after m log) (rq_addr r) b)"
proof (induction "is" arbitrary: p h)
  case (Cons i "is")
  have pr: "presents ns r i" and off: "offered ns p i h" using Cons.prems presents_offered by auto
  then have r: "cpu_req_valid i" "cpu_req i = r" by (auto simp: presents_def)
  have inv: "dc_inv ns m (log @ taken ns i h) (held_req ns i h) (dc_clock ns i h)"
    by (rule dc_inv_step [OF ns Cons.prems(1) off])
  show ?case
  proof (cases "cpu_ready ns i h")
    case True
    then have t: "taken ns i h = [(r, cpu_rdata i h)]" using r by (simp add: taken_def)
    with inv have "answered_by m (log @ [(r, cpu_rdata i h)])" by (auto simp: dc_inv_def)
    with t show ?thesis by (simp add: answered_append)
  next
    case False
    then have t: "taken ns i h = []" "held_req ns i h = Some r" and stall: "dmem_stall ns i h"
      using r by (auto simp: taken_def held_req_def dmem_stall_def)
    have le: "dc_rank ns (rq_addr r) (dc_clock ns i h) \<le> dc_rank ns (rq_addr r) h"
      "in_mem_ready i \<Longrightarrow> dc_rank ns (rq_addr r) (dc_clock ns i h) < dc_rank ns (rq_addr r) h"
      using Cons.prems(1) rank_step [OF ns _ off stall] rank_step_init [OF _ off] r
      by (auto simp: dc_inv_def intro: less_imp_le)
    have "dc_rank ns (rq_addr r) (dc_clock ns i h) < length (filter in_mem_ready is)"
      using Cons.prems(4) le by (cases "in_mem_ready i") auto
    with Cons.IH [of "Some r" "dc_clock ns i h"] Cons.prems inv t show ?thesis by simp
  qed
qed simp

section \<open>Loads and stores of bytes, halfwords and words\<close>

text \<open>
  \<^verbatim>\<open>partial_store.v\<close> replicates the datum over the word and enables its lanes; \<^verbatim>\<open>partial_load.v\<close> selects the
  lanes of the word read and extends them. \<open>f\<close> is the size field of the instruction.
\<close>

definition partial_store :: "nat \<Rightarrow> nat \<Rightarrow> u32 \<Rightarrow> bool \<Rightarrow> 4 word \<times> u32" where
  "partial_store f a d mem_rw =
     (let sb = word_cat (ucast d :: 8 word) (word_cat (ucast d :: 8 word) (word_cat (ucast d :: 8 word) (ucast d :: 8 word) :: 16 word) :: 24 word);
          sh = word_cat (ucast d :: 16 word) (ucast d :: 16 word);
          sh_mask = (if odd (a div 2) then 12 else 3);
          sb_mask = push_bit (a mod 4) 1;
          (temp, data_to_mem) = (if f = 0 then (sb_mask, sb) else if f = 1 then (sh_mask, sh) else (15, d))
      in (if mem_rw then temp else 0, data_to_mem))"

definition word_of :: "lanes \<Rightarrow> u32" where
  "word_of f = word_cat (f 3) (word_cat (f 2) (word_cat (f 1) (f 0) :: 16 word) :: 24 word)"

definition partial_load :: "nat \<Rightarrow> nat \<Rightarrow> u32 \<Rightarrow> u32" where
  "partial_load sel a w =
     (let byte_sel = (ucast (drop_bit (8 * (a mod 4)) w) :: 8 word);
          half_sel = (if odd (a div 2) then ucast (drop_bit 16 w) else ucast w :: 16 word)
      in if sel = 0 then scast byte_sel
         else if sel = 1 then scast half_sel
         else if sel = 2 then w
         else if sel = 4 then ucast byte_sel
         else if sel = 5 then ucast half_sel
         else 0)"

definition store_req :: "nat \<Rightarrow> nat \<Rightarrow> u32 \<Rightarrow> dc_req" where
  "store_req f a d = \<lparr>rq_write = True, rq_addr = a, rq_wdata = snd (partial_store f a d True),
                     rq_wmask = fst (partial_store f a d True)\<rparr>"

definition load_req :: "nat \<Rightarrow> u32 \<Rightarrow> dc_req" where
  "load_req a d = \<lparr>rq_write = False, rq_addr = a, rq_wdata = d, rq_wmask = 0\<rparr>"

lemma less4: "b < 4 \<longleftrightarrow> b = 0 \<or> b = 1 \<or> b = 2 \<or> b = (3 :: nat)"
  by auto

lemma lane_bit: "bit (lane w b) n \<longleftrightarrow> n < 8 \<and> bit w (8 * b + n)"
  by (auto simp: lane_def bit_simps)

lemma lane_word_of: "b < 4 \<Longrightarrow> lane (word_of f) b = f b"
  unfolding less4 by (rule bit_word_eqI) (auto simp: lane_bit word_of_def bit_simps)

lemma bit_word_of: "bit (word_of f) n \<longleftrightarrow> n < 32 \<and> bit (f (n div 8)) (n mod 8)"
proof -
  have "n div 8 = q \<and> n mod 8 = n - 8 * q" if "8 * q \<le> n" "n < 8 * q + 8" for q
    using that by (auto simp: div_nat_eqI modulo_nat_def)
  from this [of 0] this [of 1] this [of 2] this [of 3] show ?thesis
    by (auto simp: word_of_def bit_simps not_less)
qed

lemma word_of_lane: "word_of (lane w) = w"
  by (rule bit_word_eqI) (auto simp: bit_word_of lane_bit)

lemma store_lanes:
  assumes "b < 4"
  shows "lane (snd (partial_store 0 a d True)) b = lane d 0"
    and "lane (snd (partial_store 1 a d True)) b = lane d (b mod 2)"
    and "lane (snd (partial_store 2 a d True)) b = lane d b"
    and "bit (fst (partial_store 0 a d True)) b \<longleftrightarrow> b = a mod 4"
    and "bit (fst (partial_store 1 a d True)) b \<longleftrightarrow> b div 2 = a div 2 mod 2"
    and "bit (fst (partial_store 2 a d True)) b"
proof -
  show "lane (snd (partial_store 0 a d True)) b = lane d 0"
    using assms unfolding less4 by (intro bit_word_eqI) (auto simp: lane_bit partial_store_def bit_simps)
  show "lane (snd (partial_store 1 a d True)) b = lane d (b mod 2)"
    using assms unfolding less4 by (intro bit_word_eqI) (auto simp: lane_bit partial_store_def bit_simps)
  show "lane (snd (partial_store 2 a d True)) b = lane d b"
    by (simp add: partial_store_def)
  show "bit (fst (partial_store 0 a d True)) b \<longleftrightarrow> b = a mod 4"
    using assms by (auto simp: partial_store_def bit_simps)
  show "bit (fst (partial_store 1 a d True)) b \<longleftrightarrow> b div 2 = a div 2 mod 2"
    using assms unfolding less4 by (cases "odd (a div 2)") (auto simp: partial_store_def bit_numeral_rec odd_iff_mod_2_eq_one)
  show "bit (fst (partial_store 2 a d True)) b"
    using assms unfolding less4 by (auto simp: partial_store_def bit_numeral_rec)
qed

lemma lane_stored:
  assumes "b < 4"
  shows "lane (word_of (mem_word (mem_access (store_req f a d) m) a)) b =
    (if bit (fst (partial_store f a d True)) b then lane (snd (partial_store f a d True)) b else mem_word m a b)"
proof -
  have "(a div 4 * 4 + b) div 4 = a div 4" "(a div 4 * 4 + b) mod 4 = b" using assms by simp_all
  then show ?thesis by (simp add: lane_word_of assms mem_word_def mem_access_def store_req_def)
qed

text \<open>
  A load reads back what a store of the same size wrote, extended by its sign or by zeros, whatever the address.
\<close>

theorem load_after_store:
  fixes a :: nat and d :: u32 and m :: "nat \<Rightarrow> u8"
  defines "stored f \<equiv> word_of (mem_word (mem_access (store_req f a d) m) a)"
  shows "partial_load 0 a (stored 0) = scast (ucast d :: 8 word)" "partial_load 4 a (stored 0) = ucast (ucast d :: 8 word)"
    and "partial_load 1 a (stored 1) = scast (ucast d :: 16 word)" "partial_load 5 a (stored 1) = ucast (ucast d :: 16 word)"
    and "partial_load 2 a (stored 2) = d"
proof -
  have "lane (stored 0) (a mod 4) = lane d 0"
    unfolding stored_def by (subst lane_stored) (simp_all add: store_lanes)
  then show "partial_load 0 a (stored 0) = scast (ucast d :: 8 word)" "partial_load 4 a (stored 0) = ucast (ucast d :: 8 word)"
    by (simp_all add: partial_load_def lane_def)
  define h where "h = a div 2 mod 2"
  have h: "h < 2" by (simp add: h_def)
  have half: "lane (stored 1) (2 * h + e) = lane d e" if "e < 2" for e
  proof -
    have b: "2 * h + e < 4" "(2 * h + e) div 2 = a div 2 mod 2" "(2 * h + e) mod 2 = e"
      using that h by (simp_all add: h_def)
    with lane_stored [OF b(1), of 1 a d m] store_lanes(2,5) [OF b(1), of a d] show ?thesis
      by (simp add: stored_def)
  qed
  have split: "bit (stored 1) (16 * h + n) = bit d n" if "n < 16" for n
  proof (cases "n < 8")
    case True
    with arg_cong [OF half [of 0], of "\<lambda>w. bit w n"] show ?thesis by (simp add: lane_bit)
  next
    case False
    have "8 * (2 * h + 1) + (n - 8) = 16 * h + n" "n - 8 < 8" using False that by simp_all
    with False that arg_cong [OF half [of 1], of "\<lambda>w. bit w (n - 8)"] show ?thesis by (simp add: lane_bit)
  qed
  have sel: "(if odd (a div 2) then ucast (drop_bit 16 (stored 1)) else ucast (stored 1)) = (ucast d :: 16 word)"
    using split by (intro bit_word_eqI) (auto simp: h_def odd_iff_mod_2_eq_one bit_simps)
  show "partial_load 1 a (stored 1) = scast (ucast d :: 16 word)" "partial_load 5 a (stored 1) = ucast (ucast d :: 16 word)"
    unfolding partial_load_def Let_def sel by simp_all
  have "lane (stored 2) b = lane d b" if "b < 4" for b
    using lane_stored [OF that, of 2 a d m] store_lanes(3,6) [OF that, of a d] by (simp add: stored_def)
  then have "word_of (lane (stored 2)) = word_of (lane d)" by (simp add: word_of_def)
  then show "partial_load 2 a (stored 2) = d"
    unfolding word_of_lane by (simp add: partial_load_def)
qed

text \<open>Byte accesses are the ones of \<^verbatim>\<open>Dcache\<close>, on which the cache driver is verified.\<close>

lemma byte_store_access: "dc_word_access ns (store_req 0 a d) s = dc_store8 ns a (ucast d) s"
proof -
  have off: "m_bank a = k div 4 \<and> bit (fst (partial_store 0 a d True)) (k mod 4) \<longleftrightarrow> k = a mod 16" for k
  proof -
    have "a mod (4 * 4) = 4 * (a div 4 mod 4) + a mod 4" by (rule mod_mult2_eq)
    then have "k = a mod 16 \<longleftrightarrow> k div 4 = a div 4 mod 4 \<and> k mod 4 = a mod 4"
      by (auto simp: mod_mod_cancel) (metis mult_div_mod_eq)
    then show ?thesis by (auto simp: store_lanes m_bank_def)
  qed
  have "(\<lambda>k. if m_bank a = k div 4 \<and> bit (fst (partial_store 0 a d True)) (k mod 4)
         then lane (snd (partial_store 0 a d True)) (k mod 4) else g k) = g(a mod 16 := ucast d)" for g
    using off store_lanes(1) [of _ a d] by (auto simp: lane_def)
  then show ?thesis
    by (simp add: dc_word_access_def dc_store8_def store_req_def Let_def cong: if_cong)
qed

lemma byte_load_access: "dc_word_access ns (load_req a d) s = snd (dc_load8 ns a s)"
  by (simp add: dc_word_access_def load_req_def snd_load8)

fun byte_req :: "access \<Rightarrow> dc_req" where
  "byte_req (Load a) = load_req a 0"
| "byte_req (Store a v) = store_req 0 a (ucast v)"

lemma byte_req_access: "dc_word_access ns (byte_req x) s = dc_access ns x s"
proof -
  have "ucast (ucast v :: u32) = v" for v :: u8
    by (rule bit_word_eqI) (simp add: bit_simps)
  then show ?thesis by (cases x) (simp_all add: byte_load_access byte_store_access)
qed

section \<open>Correctness\<close>

lemma run_quiet:
  assumes "dc_inv ns m log None h" and "dc_state h = S_IDLE"
  shows "\<exists>A. empty_cache ns A \<and> dram A = m \<and> arrays h = abs_after ns A log"
  using assms by (auto simp: dc_inv_def sweeping_def dc_ok_def resolved_def)

text \<open>A request whose line is resident and whose address was speculated is served in its first clock.\<close>

lemma hit_no_stall:
  assumes "dc_ok ns A p h" and "dc_state h = S_IDLE" and "q_a_idx h = m_idx ns (rq_addr (cpu_req i))"
    and "dc_hit ns (arrays h) (rq_addr (cpu_req i))"
  shows "\<not> dmem_stall ns i h"
  using assms by (simp add: dmem_stall_def cpu_ready_def fresh_hit spec_ok_def dc_ok_def)

text \<open>After byte accesses the state between requests is the one the cache driver is verified on.\<close>

theorem byte_run:
  assumes "0 < ns" and "after_reset h0" and "dc_run ns h0 log None h" and "dc_state h = S_IDLE"
    and "map fst log = map byte_req xs"
  shows "\<exists>A. empty_cache ns A \<and> dram A = dram (arrays h0) \<and> arrays h = fold (dc_access ns) xs A"
proof -
  have "abs_after ns A log = fold (dc_access ns) xs A" for A
  proof -
    have "abs_after ns A log = fold (dc_word_access ns) (map fst log) A" by (simp add: abs_after_def fold_map comp_def)
    also have "\<dots> = fold (dc_access ns) xs A"
      unfolding assms(5) by (simp add: fold_map comp_def byte_req_access [abs_def])
    finally show ?thesis .
  qed
  then show ?thesis using run_quiet [OF run_inv [OF assms(1-3)] assms(4)] by auto
qed

text \<open>
  C6. Take any run of the cache after a reset: any requests, any speculated addresses between stalls, any memory delays, and
  whatever the arrays put out when a byte is read while it is written. Every load has been answered with the bytes a plain memory would hold after
  the stores before it, and between requests the arrays and the memory are those of the
  access-level cache after the same accesses, started empty.
\<close>

theorem dcache_refines:
  assumes "0 < ns" and "after_reset h0" and "dc_run ns h0 log p h"
  shows "answered_by (dram (arrays h0)) log \<and>
    (p = None \<and> dc_state h = S_IDLE \<longrightarrow>
       cpu_view ns (arrays h) = mem_after (dram (arrays h0)) log \<and>
       (\<exists>A. empty_cache ns A \<and> dram A = dram (arrays h0) \<and> arrays h = abs_after ns A log))"
proof (intro conjI impI)
  note inv = run_inv [OF assms]
  then show "answered_by (dram (arrays h0)) log" by (auto simp: dc_inv_def)
  assume quiet: "p = None \<and> dc_state h = S_IDLE"
  then obtain A where A: "empty_cache ns A" "dram A = dram (arrays h0)" "arrays h = abs_after ns A log"
    using run_quiet inv by blast
  then show "\<exists>A. empty_cache ns A \<and> dram A = dram (arrays h0) \<and> arrays h = abs_after ns A log" by blast
  show "cpu_view ns (arrays h) = mem_after (dram (arrays h0)) log"
    using A abs_after_view [OF assms(1), of A log] empty_view [OF assms(1) A(1)] by simp
qed

text \<open>
  The run of the witness: a cache of two sets whose arrays hold rubbish after reset is swept, misses on a byte store,
  fetches the line, stores, and in the next clock loads the stored word while the array's output is undefined for the stored byte; a
  load of the other line of the set then evicts the dirty line.
\<close>

definition wit_h0 :: dc_hw where
  "wit_h0 = \<lparr>arrays = \<lparr>dc_valid = (\<lambda>_. True), dc_tag = (\<lambda>_. 0), dc_dirty = (\<lambda>_. True), dc_data = (\<lambda>_ _. 99),
     dram = (\<lambda>a. word_of_nat a)\<rparr>, dc_state = S_INIT, sweep_cnt = 0, miss_idx = 0, miss_tag = 0, wb_tag = 0,
     wb_line = (\<lambda>_. 0), q_tagv = (True, 0), q_data = (\<lambda>_. 99), q_a_idx = 0, byp_v = False, byp_word = 0,
     byp_be = 0, byp_data = 0\<rparr>"

definition wit_in :: "dc_req \<Rightarrow> dc_in" where
  "wit_in r = \<lparr>in_rst = False, cpu_req_valid = True, cpu_req = r, a_idx = 0, in_mem_ready = True,
     rdw_data = (\<lambda>_. 170), rdw_tagv = (False, 1)\<rparr>"

definition wit_is :: "dc_in list" where
  "wit_is = replicate 8 (wit_in (store_req 0 5 7)) @ [wit_in (load_req 4 0)] @ replicate 6 (wit_in (load_req 36 0))"

lemma sched_run: "sched_ok ns is None h0 \<Longrightarrow> \<exists>p. dc_run ns h0 (dc_log ns is h0) p (fold (dc_clock ns) is h0)"
  using run_sched [OF dc_run.start, of ns "is" h0] by simp

theorem dcache_refines_witness:
  "answered_by (\<lambda>a. word_of_nat a) (dc_log 2 wit_is wit_h0) \<and>
   map (\<lambda>x. map (snd x) [0..<4]) (dc_log 2 wit_is wit_h0) = [[4, 5, 6, 7], [4, 7, 6, 7], [36, 37, 38, 39]]"
proof
  have "sched_ok 2 wit_is None wit_h0" by code_simp
  then obtain p where "dc_run 2 wit_h0 (dc_log 2 wit_is wit_h0) p (fold (dc_clock 2) wit_is wit_h0)"
    using sched_run by blast
  then show "answered_by (\<lambda>a. word_of_nat a) (dc_log 2 wit_is wit_h0)"
    using dcache_refines [of 2 wit_h0] by (auto simp: wit_h0_def after_reset_def)
  show "map (\<lambda>x. map (snd x) [0..<4]) (dc_log 2 wit_is wit_h0) = [[4, 5, 6, 7], [4, 7, 6, 7], [36, 37, 38, 39]]"
    by code_simp
qed

text \<open>
  C40. No request waits for ever: a request that the pipeline holds is answered, with the word of the plain memory, before the
  memory has been ready in eight clocks, or in the number of sets and seven more during the sweep after reset.
\<close>

theorem dcache_serves:
  assumes "0 < ns" and "after_reset h0" and "dc_run ns h0 log p h" and "p = None \<or> p = Some r"
    and "\<forall>i \<in> set is. presents ns r i"
    and "(if dc_state h = S_INIT then ns + 7 else 8) \<le> length (filter in_mem_ready is)"
  shows "\<exists>d rest. dc_log ns is h = (r, d) # rest \<and>
    (\<forall>b \<in> {..<4}. d b = mem_word (mem_after (dram (arrays h0)) log) (rq_addr r) b)"
proof (rule held_served [OF assms(1) run_inv [OF assms(1-3)] assms(4,5)])
  show "dc_rank ns (rq_addr r) h < length (filter in_mem_ready is)"
    using rank_bound [of ns "rq_addr r" h] assms(6) by (auto split: if_splits)
qed

theorem dcache_serves_witness:
  "\<exists>d rest. dc_log 2 (replicate 9 (wit_in (load_req 36 0))) wit_h0 = (load_req 36 0, d) # rest \<and>
    (\<forall>b \<in> {..<4}. d b = word_of_nat (36 + b))"
  using dcache_serves [of 2 wit_h0 "[]" None wit_h0 "load_req 36 0" "replicate 9 (wit_in (load_req 36 0))"]
  by (simp add: dc_run.start wit_h0_def after_reset_def presents_def wit_in_def load_req_def m_idx_def mem_after_def mem_word_def)

end
