(* ===== verification/Execute.thy ===== *)
theory Execute
  imports Prelude "HOL-Library.Signed_Division"
begin

text \<open>
  The arithmetic of the processor's execute stage: \<^verbatim>\<open>src/alu.v\<close>, the divider \<^verbatim>\<open>src/div_unit.v\<close> that takes one
  bit per clock, and the logic of \<^verbatim>\<open>src/cpu.v\<close> that holds the pipeline until a quotient is ready. A run of instructions through the stage gives
  each of them the result the instruction set prescribes.
\<close>

section \<open>The ALU\<close>

type_synonym alu_op = "5 word"

definition u32_signed :: "bool \<Rightarrow> u32 \<Rightarrow> 33 word" where
  "u32_signed s a = (if s \<and> bit a 31 then set_bit 32 (ucast a) else ucast a)"

text \<open>\<^verbatim>\<open>mul_res\<close>, the signed product of the extended operands in 66 bits.\<close>

definition mul_res :: "alu_op \<Rightarrow> u32 \<Rightarrow> u32 \<Rightarrow> 66 word" where
  "mul_res alu_sel a b =
     (let mul_a_signed = (alu_sel = 8 \<or> alu_sel = 9 \<or> alu_sel = 10);
          mul_b_signed = (alu_sel = 8 \<or> alu_sel = 9)
      in scast (u32_signed mul_a_signed a) * scast (u32_signed mul_b_signed b))"

definition alu :: "alu_op \<Rightarrow> u32 \<Rightarrow> u32 \<Rightarrow> u32" where
  "alu alu_sel a b =
     (let shamt = unat (take_bit 5 b) in
      if alu_sel = 0 then a + b
      else if alu_sel = 1 then push_bit shamt a
      else if alu_sel = 2 then (if a <s b then 1 else 0)
      else if alu_sel = 3 then (if a < b then 1 else 0)
      else if alu_sel = 4 then a XOR b
      else if alu_sel = 5 then drop_bit shamt a
      else if alu_sel = 6 then a OR b
      else if alu_sel = 7 then a AND b
      else if alu_sel = 8 then ucast (mul_res alu_sel a b)
      else if alu_sel = 9 \<or> alu_sel = 10 \<or> alu_sel = 11 then ucast (drop_bit 32 (mul_res alu_sel a b))
      else if alu_sel = 12 then a - b
      else if alu_sel = 13 then signed_drop_bit shamt a
      else if alu_sel = 15 then b
      else if alu_sel = 20 then push_bit 1 a + b
      else if alu_sel = 21 then push_bit 2 a + b
      else if alu_sel = 22 then push_bit 3 a + b
      else a + b)"

section \<open>The divider\<close>

record div_unit =
  div_busy :: bool
  div_done :: bool
  quotient :: u32
  remainder :: u32
  count :: nat
  divisor_abs :: u32
  rq :: "64 word"
  neg_q :: bool
  neg_r :: bool

definition abs_of :: "bool \<Rightarrow> u32 \<Rightarrow> u32" where
  "abs_of is_signed a = (if is_signed \<and> bit a 31 then NOT a + 1 else a)"

definition rq_next :: "u32 \<Rightarrow> 64 word \<Rightarrow> 64 word" where
  "rq_next d r =
     (let rq_shifted = push_bit 1 r;
          trial33 = (ucast (drop_bit 32 rq_shifted) - ucast d :: 33 word)
      in if bit trial33 32 then rq_shifted
         else push_bit 32 (ucast (take_bit 32 trial33)) OR (take_bit 32 rq_shifted OR 1))"

definition div_unit_clock :: "bool \<Rightarrow> u32 \<Rightarrow> u32 \<Rightarrow> bool \<Rightarrow> div_unit \<Rightarrow> div_unit" where
  "div_unit_clock start a b is_signed u =
     (let u' = u\<lparr>div_done := False\<rparr> in
      if start \<and> \<not> div_busy u \<and> \<not> div_done u
      then if b = 0 then u'\<lparr>quotient := 0xFFFFFFFF, remainder := a, div_done := True\<rparr>
           else if is_signed \<and> a = 0x80000000 \<and> b = 0xFFFFFFFF
           then u'\<lparr>quotient := 0x80000000, remainder := 0, div_done := True\<rparr>
           else u'\<lparr>rq := ucast (abs_of is_signed a), divisor_abs := abs_of is_signed b,
                   neg_q := is_signed \<and> (bit a 31 \<noteq> bit b 31), neg_r := is_signed \<and> bit a 31, count := 0, div_busy := True\<rparr>
      else if div_busy u
      then (let r = rq_next (divisor_abs u) (rq u); u' = u'\<lparr>rq := r\<rparr>;
                q = (ucast r :: u32); m = (ucast (drop_bit 32 r) :: u32)
            in if count u = 31
               then u'\<lparr>div_busy := False, div_done := True, quotient := (if neg_q u then NOT q + 1 else q),
                       remainder := (if neg_r u then NOT m + 1 else m)\<rparr>
               else u'\<lparr>count := count u + 1\<rparr>)
      else u')"

section \<open>Restoring division\<close>

text \<open>The register pair after \<open>k\<close> steps of dividing \<open>A\<close> by \<open>B\<close>: remainder so far, the rest of the dividend, quotient so far.\<close>

definition rq_value :: "nat \<Rightarrow> nat \<Rightarrow> nat \<Rightarrow> nat" where
  "rq_value A B k = (A div 2 ^ (32 - k) mod B) * 2 ^ 32 + (A mod 2 ^ (32 - k)) * 2 ^ k + A div 2 ^ (32 - k) div B"

lemma double_div_mod:
  fixes h B b :: nat
  assumes "0 < B" "b < 2"
  shows "(2 * h + b) div B = 2 * (h div B) + (if 2 * (h mod B) + b < B then 0 else 1)"
    "(2 * h + b) mod B = 2 * (h mod B) + b - (if 2 * (h mod B) + b < B then 0 else B)"
proof -
  let ?s = "2 * (h mod B) + b"
  have "2 * h = 2 * (h div B * B + h mod B)" by simp
  then have e: "2 * h + b = 2 * (h div B) * B + ?s" by (simp only: distrib_left mult.assoc add.assoc)
  have s: "?s < 2 * B" using mod_less_divisor [OF assms(1), of h] assms(2) by linarith
  have "?s div B = (if ?s < B then 0 else 1)" "?s mod B = ?s - (if ?s < B then 0 else B)"
    using s assms(1) by (auto simp: not_less le_div_geq le_mod_geq)
  then show "(2 * h + b) div B = 2 * (h div B) + (if ?s < B then 0 else 1)"
    "(2 * h + b) mod B = ?s - (if ?s < B then 0 else B)"
    unfolding e using assms(1) by (simp_all add: div_add1_eq [of "2 * (h div B) * B"] mult.commute mult.assoc)
qed

lemma rq_value_bound:
  fixes A B k :: nat
  assumes "A < 2 ^ 32" "k \<le> 32"
  shows "(A mod 2 ^ (32 - k)) * 2 ^ k + A div 2 ^ (32 - k) div B < 2 ^ 32" "A div 2 ^ (32 - k) mod B < 2 ^ k"
proof -
  have p: "2 ^ (32 - k) * 2 ^ k = (2 :: nat) ^ 32" using assms(2) by (simp flip: power_add)
  have x: "A div 2 ^ (32 - k) < 2 ^ k" using assms(1) p by (simp add: div_less_iff_less_mult mult.commute)
  then show "A div 2 ^ (32 - k) mod B < 2 ^ k" by (rule le_less_trans [OF mod_less_eq_dividend])
  have "(A mod 2 ^ (32 - k) + 1) * 2 ^ k \<le> 2 ^ (32 - k) * 2 ^ k" by (intro mult_le_mono1) (simp add: Suc_le_eq)
  moreover have "A div 2 ^ (32 - k) div B < 2 ^ k" using x by (rule le_less_trans [OF div_le_dividend])
  ultimately show "(A mod 2 ^ (32 - k)) * 2 ^ k + A div 2 ^ (32 - k) div B < 2 ^ 32" unfolding p by (simp add: algebra_simps)
qed

lemma next_prefix:
  fixes A k :: nat
  assumes "k < 32"
  shows "A div 2 ^ (31 - k) = 2 * (A div 2 ^ (32 - k)) + A div 2 ^ (31 - k) mod 2"
proof -
  have "2 ^ (32 - k) = 2 * (2 :: nat) ^ (31 - k)" using assms by (simp flip: power_Suc add: Suc_diff_le)
  then show ?thesis by (simp add: div_mult2_eq mult.commute [of 2])
qed

text \<open>One step on numbers: shift, then subtract the divisor from the upper half if it fits and set the new quotient bit.\<close>

lemma rq_value_step:
  fixes A B k :: nat
  assumes "k < 32" "0 < B"
  defines "s \<equiv> 2 * rq_value A B k"
  shows "s = (2 * (A div 2 ^ (32 - k) mod B) + A div 2 ^ (31 - k) mod 2) * 2 ^ 32 + (A mod 2 ^ (31 - k)) * 2 ^ Suc k + 2 * (A div 2 ^ (32 - k) div B)"
    "rq_value A B (Suc k) = (if 2 * (A div 2 ^ (32 - k) mod B) + A div 2 ^ (31 - k) mod 2 < B then s else s - B * 2 ^ 32 + 1)"
proof -
  define x y where "x = A div 2 ^ (31 - k)" and "y = A mod 2 ^ (31 - k)"
  have p: "2 ^ (32 - k) = 2 * (2 :: nat) ^ (31 - k)" using assms(1) by (simp flip: power_Suc add: Suc_diff_le)
  have h: "A div 2 ^ (32 - k) = x div 2" by (simp add: p x_def div_mult2_eq mult.commute [of 2])
  have r: "A mod 2 ^ (32 - k) = x mod 2 * 2 ^ (31 - k) + y"
    by (simp add: p x_def y_def mod_mult2_eq mult.commute [of 2])
  have e: "2 ^ (31 - k) * 2 ^ Suc k = (2 :: nat) ^ 32" using assms(1) by (simp flip: power_add)
  show s: "s = (2 * (A div 2 ^ (32 - k) mod B) + A div 2 ^ (31 - k) mod 2) * 2 ^ 32 + (A mod 2 ^ (31 - k)) * 2 ^ Suc k + 2 * (A div 2 ^ (32 - k) div B)"
  proof -
    have "s = 2 * (x div 2 mod B) * 2 ^ 32 + 2 * ((x mod 2 * 2 ^ (31 - k) + y) * 2 ^ k) + 2 * (x div 2 div B)"
      by (simp add: s_def rq_value_def h r)
    also have "2 * ((x mod 2 * 2 ^ (31 - k) + y) * 2 ^ k) = x mod 2 * (2 ^ (31 - k) * 2 ^ Suc k) + y * 2 ^ Suc k"
      by (simp add: algebra_simps)
    finally show ?thesis unfolding e h x_def [symmetric] y_def [symmetric] by (simp add: algebra_simps)
  qed
  show "rq_value A B (Suc k) = (if 2 * (A div 2 ^ (32 - k) mod B) + A div 2 ^ (31 - k) mod 2 < B then s else s - B * 2 ^ 32 + 1)"
  proof -
    have x: "x = 2 * (x div 2) + x mod 2" by simp
    have "rq_value A B (Suc k) = (x mod B) * 2 ^ 32 + y * 2 ^ Suc k + x div B"
      using assms(1) by (simp add: rq_value_def x_def y_def)
    also have "x div B = 2 * (x div 2 div B) + (if 2 * (x div 2 mod B) + x mod 2 < B then 0 else 1)"
      by (subst x) (rule double_div_mod [OF assms(2)], simp)
    also have "x mod B = 2 * (x div 2 mod B) + x mod 2 - (if 2 * (x div 2 mod B) + x mod 2 < B then 0 else B)"
      by (subst x) (rule double_div_mod [OF assms(2)], simp)
    finally show ?thesis unfolding s h x_def [symmetric] y_def [symmetric]
      by (auto simp: not_less diff_mult_distrib) linarith
  qed
qed

lemma bit_32_33: "bit w 32 \<longleftrightarrow> 2 ^ 32 \<le> unat w" for w :: "33 word"
proof -
  have "unat w < 2 ^ 33" using unsigned_less [of w, where 'a = nat] by simp
  then have "unat w div 2 ^ 32 = (if 2 ^ 32 \<le> unat w then 1 else 0)"
    by (auto simp: div_nat_eqI not_le)
  moreover have "bit w 32 \<longleftrightarrow> odd (unat w div 2 ^ 32)" using bit_unsigned_iff [of w 32, where 'a = nat] by (simp add: bit_iff_odd)
  ultimately show ?thesis by simp
qed

lemma take_bit_unat: "take_bit n w = word_of_nat (unat w mod 2 ^ n)" for w :: "'a::len word"
proof -
  have "take_bit n w = take_bit n (word_of_nat (unat w))" by simp
  also have "\<dots> = word_of_nat (take_bit n (unat w))" by (simp only: take_bit_of_nat)
  finally show ?thesis by (simp only: take_bit_eq_mod)
qed

lemma unat_join:
  fixes w :: "64 word" and x :: nat
  assumes "even w" "x * 2 ^ 32 + unat w mod 2 ^ 32 + 1 < 2 ^ 64"
  shows "unat (push_bit 32 (word_of_nat x) OR (take_bit 32 w OR 1)) = x * 2 ^ 32 + unat w mod 2 ^ 32 + 1"
proof -
  let ?h = "push_bit 32 (word_of_nat x) :: 64 word" and ?l = "take_bit 32 w" and ?n = "x * 2 ^ 32 + unat w mod 2 ^ 32 + 1"
  have "?h AND (?l OR 1) = 0" by (rule bit_word_eqI) (auto simp: bit_simps)
  then have "?h OR (?l OR 1) = ?h + (?l OR 1)" by (simp add: disjunctive_add_eq_or)
  moreover have "?l OR 1 = ?l + 1" using assms(1) by (simp add: or_one_eq even_take_bit_eq)
  moreover have "?h = word_of_nat (x * 2 ^ 32)" by (simp add: push_bit_eq_mult)
  ultimately have "?h OR (?l OR 1) = word_of_nat (x * 2 ^ 32) + (word_of_nat (unat w mod 2 ^ 32) + 1)" by (simp only: take_bit_unat)
  then have "?h OR (?l OR 1) = word_of_nat ?n" by simp
  then show ?thesis using assms(2) by (simp only: unsigned_of_nat) (simp add: take_bit_nat_eq_self)
qed

lemma rq_next_value:
  assumes "unat r = rq_value A (unat d) k" "A < 2 ^ 32" "k < 32" "d \<noteq> 0"
  shows "unat (rq_next d r) = rq_value A (unat d) (Suc k)"
proof -
  define B hi lo where "B = unat d" and "hi = 2 * (A div 2 ^ (32 - k) mod B) + A div 2 ^ (31 - k) mod 2"
    and "lo = (A mod 2 ^ (31 - k)) * 2 ^ Suc k + 2 * (A div 2 ^ (32 - k) div B)"
  have B: "0 < B" "B < 2 ^ 32" using assms(4) unsigned_less [of d, where 'a = nat] by (auto simp: B_def unat_gt_0)
  have step: "2 * unat r = hi * 2 ^ 32 + lo" "rq_value A B (Suc k) = (if hi < B then 2 * unat r else 2 * unat r - B * 2 ^ 32 + 1)"
    using rq_value_step [OF assms(3) B(1), of A] by (simp_all add: assms(1) B_def hi_def lo_def)
  have hi: "hi < 2 ^ 32"
  proof -
    have "A div 2 ^ (32 - k) mod B < 2 ^ k" using rq_value_bound(2) [OF assms(2)] assms(3) by simp
    moreover have "(2 :: nat) ^ k \<le> 2 ^ 31" using assms(3) by (intro power_increasing) simp_all
    ultimately show ?thesis unfolding hi_def by simp
  qed
  have lo: "lo + (if hi < B then 0 else 1) < 2 ^ 32"
    using rq_value_bound(1) [OF assms(2), of "Suc k" B] assms(3)
      double_div_mod(1) [OF B(1), of "A div 2 ^ (31 - k) mod 2" "A div 2 ^ (32 - k)", folded next_prefix [OF assms(3)] hi_def]
    by (simp add: lo_def)
  have sh: "unat (push_bit 1 r) = hi * 2 ^ 32 + lo"
    unfolding unsigned_push_bit_eq using hi lo step(1) by (simp add: take_bit_nat_eq_self mult.commute split: if_splits)
  have h33: "unat (ucast (drop_bit 32 (push_bit 1 r)) :: 33 word) = hi"
    unfolding unsigned_ucast_eq unsigned_drop_bit_eq sh using hi lo
    by (simp add: drop_bit_eq_div take_bit_nat_eq_self split: if_splits)
  have d33: "unat (ucast d :: 33 word) = B" using B(2) by (simp add: unsigned_ucast_eq take_bit_nat_eq_self B_def)
  let ?t = "ucast (drop_bit 32 (push_bit 1 r)) - ucast d :: 33 word"
  have t: "unat ?t = (if B \<le> hi then hi - B else hi + 2 ^ 33 - B)"
    unfolding unat_sub_if' h33 d33 by simp
  show ?thesis
  proof (cases "hi < B")
    case True
    then have "bit ?t 32" using t B(2) by (simp add: bit_32_33)
    then have "rq_next d r = push_bit 1 r" by (simp add: rq_next_def Let_def)
    then show ?thesis using True step sh by (simp add: B_def [symmetric])
  next
    case False
    then have n: "\<not> bit ?t 32" using t hi by (simp add: bit_32_33)
    have "unat (take_bit 32 ?t) = hi - B"
      unfolding unsigned_take_bit_eq t using False hi by (simp add: take_bit_nat_eq_self)
    moreover have "ucast (take_bit 32 ?t) = (word_of_nat (unat (take_bit 32 ?t)) :: 64 word)" by (simp only: of_nat_unat)
    ultimately have "rq_next d r = push_bit 32 (word_of_nat (hi - B)) OR (take_bit 32 (push_bit 1 r) OR 1)"
      using n by (simp add: rq_next_def Let_def)
    moreover have "(hi * 2 ^ 32 + lo) mod 2 ^ 32 = lo" using lo False by simp
    ultimately show ?thesis
      using unat_join [of "push_bit 1 r" "hi - B", unfolded sh] False hi lo step by (simp add: B_def [symmetric] diff_mult_distrib)
  qed
qed

section \<open>The results of the instruction set\<close>

text \<open>
  Quotient and remainder of the instruction set: division truncates, a division by zero gives all ones and the dividend, and the one
  quotient that does not fit wraps around.
\<close>

definition rv_div :: "bool \<Rightarrow> u32 \<Rightarrow> u32 \<Rightarrow> u32" where
  "rv_div is_signed a b = (if b = 0 then - 1 else if is_signed then word_of_int (sint a sdiv sint b) else a div b)"

definition rv_rem :: "bool \<Rightarrow> u32 \<Rightarrow> u32 \<Rightarrow> u32" where
  "rv_rem is_signed a b = (if b = 0 then a else if is_signed then word_of_int (sint a smod sint b) else a mod b)"

lemma sint_cases: "sint a = (if bit a 31 then uint a - 2 ^ 32 else uint a)" for a :: u32
proof -
  have "take_bit 32 (uint a) = uint a" using uint_lt2p [of a] by (intro take_bit_int_eq_self) simp_all
  then show ?thesis using signed_take_bit_eq_take_bit_minus [of 31 "uint a"] by (simp add: sint_uint bit_uint_iff)
qed

lemma negative_iff: "bit a 31 \<longleftrightarrow> sint a < 0" for a :: u32
  using uint_lt2p [of a] by (simp add: sint_cases)

lemma not_plus_1: "NOT a + 1 = - a" for a :: "'a::len word"
  by (simp add: minus_eq_not_plus_1)

lemma uint_uminus: "a \<noteq> 0 \<Longrightarrow> uint (- a) = 2 ^ 32 - uint a" for a :: u32
  using uint_sub_if' [of 0 a] by (auto simp: uint_0_iff)

lemma abs_of_value: "uint (abs_of s a) = (if s then \<bar>sint a\<bar> else uint a)"
proof -
  have "uint a < 2 ^ 32" using uint_lt2p [of a] by simp
  moreover have "bit a 31 \<Longrightarrow> a \<noteq> 0" by auto
  ultimately show ?thesis by (auto simp: abs_of_def not_plus_1 uint_uminus sint_cases)
qed

lemma abs_of_0: "abs_of s b = 0 \<longleftrightarrow> b = 0"
  by (auto simp: abs_of_def not_plus_1)

text \<open>A magnitude with its sign is the quotient or the remainder.\<close>

lemma signed_quotient:
  assumes "uint q = uint (abs_of s a) div uint (abs_of s b)" "b \<noteq> 0"
  shows "(if s \<and> bit a 31 \<noteq> bit b 31 then NOT q + 1 else q) = rv_div s a b"
proof -
  have q: "q = word_of_int (uint (abs_of s a) div uint (abs_of s b))" using assms(1) by (simp flip: assms(1))
  show ?thesis
  proof (cases s)
    case True
    have "q = word_of_int (\<bar>sint a\<bar> div \<bar>sint b\<bar>)" using q True by (simp only: abs_of_value if_True)
    moreover have "sint a sdiv sint b = (if bit a 31 \<noteq> bit b 31 then - (\<bar>sint a\<bar> div \<bar>sint b\<bar>) else \<bar>sint a\<bar> div \<bar>sint b\<bar>)"
      by (auto simp: signed_divide_int_def sgn_if negative_iff)
    ultimately show ?thesis using True assms(2) by (simp add: rv_div_def not_plus_1)
  next
    case False
    then show ?thesis using q assms(2) by (simp add: rv_div_def abs_of_value word_div_def)
  qed
qed

lemma signed_remainder:
  assumes "uint m = uint (abs_of s a) mod uint (abs_of s b)" "b \<noteq> 0"
  shows "(if s \<and> bit a 31 then NOT m + 1 else m) = rv_rem s a b"
proof -
  have m: "m = word_of_int (uint (abs_of s a) mod uint (abs_of s b))" by (simp flip: assms(1))
  show ?thesis
  proof (cases s)
    case True
    have "m = word_of_int (\<bar>sint a\<bar> mod \<bar>sint b\<bar>)" using m True by (simp only: abs_of_value if_True)
    moreover have "sint a smod sint b = (if bit a 31 then - (\<bar>sint a\<bar> mod \<bar>sint b\<bar>) else \<bar>sint a\<bar> mod \<bar>sint b\<bar>)"
      by (auto simp: signed_modulo_int_def sgn_if negative_iff)
    ultimately show ?thesis using True assms(2) by (simp add: rv_rem_def not_plus_1)
  next
    case False
    then show ?thesis using m assms(2) by (simp add: rv_rem_def abs_of_value word_mod_def)
  qed
qed

section \<open>A division\<close>

definition dividing :: "bool \<Rightarrow> u32 \<Rightarrow> u32 \<Rightarrow> nat \<Rightarrow> div_unit \<Rightarrow> bool" where
  "dividing s a b k u \<longleftrightarrow> div_busy u \<and> \<not> div_done u \<and> count u = k \<and> divisor_abs u = abs_of s b \<and> abs_of s b \<noteq> 0 \<and>
     unat (rq u) = rq_value (unat (abs_of s a)) (unat (abs_of s b)) k \<and>
     neg_q u = (s \<and> bit a 31 \<noteq> bit b 31) \<and> neg_r u = (s \<and> bit a 31)"

definition divided :: "bool \<Rightarrow> u32 \<Rightarrow> u32 \<Rightarrow> div_unit \<Rightarrow> bool" where
  "divided s a b u \<longleftrightarrow> \<not> div_busy u \<and> quotient u = rv_div s a b \<and> remainder u = rv_rem s a b"

lemma div_starts:
  assumes "\<not> div_busy u" "\<not> div_done u"
  shows "dividing s a b 0 (div_unit_clock True a b s u) \<or>
    divided s a b (div_unit_clock True a b s u) \<and> div_done (div_unit_clock True a b s u)"
proof -
  have wrap: "rv_div True 0x80000000 0xFFFFFFFF = 0x80000000" "rv_rem True 0x80000000 0xFFFFFFFF = 0"
    by (simp_all add: rv_div_def rv_rem_def signed_divide_int_def signed_modulo_int_def)
  have zero: "rv_div s a 0 = 0xFFFFFFFF" "rv_rem s a 0 = a" by (simp_all add: rv_div_def rv_rem_def)
  have "unat (abs_of s a) < 2 ^ 32" using unsigned_less [of "abs_of s a", where 'a = nat] by simp
  then have "unat (ucast (abs_of s a) :: 64 word) = rq_value (unat (abs_of s a)) (unat (abs_of s b)) 0"
    by (simp add: rq_value_def unsigned_ucast_eq take_bit_nat_eq_self)
  then show ?thesis
    using assms wrap zero by (auto simp: div_unit_clock_def dividing_def divided_def abs_of_0 Let_def)
qed

lemma div_step:
  assumes "dividing s a b k u" "k < 31"
  shows "dividing s a b (Suc k) (div_unit_clock st x y z u)"
  using assms rq_next_value [of "rq u" "unat (abs_of s a)" "abs_of s b" k] unsigned_less [of "abs_of s a", where 'a = nat]
  by (simp add: dividing_def div_unit_clock_def Let_def)

lemma div_last:
  assumes "dividing s a b 31 u"
  shows "divided s a b (div_unit_clock st x y z u)" "div_done (div_unit_clock st x y z u)"
proof -
  define A B r where "A = unat (abs_of s a)" and "B = unat (abs_of s b)" and "r = rq_next (divisor_abs u) (rq u)"
  have A: "A < 2 ^ 32" using unsigned_less [of "abs_of s a", where 'a = nat] by (simp add: A_def)
  have d: "div_busy u" "count u = 31" "abs_of s b \<noteq> 0" "neg_q u = (s \<and> bit a 31 \<noteq> bit b 31)" "neg_r u = (s \<and> bit a 31)"
    using assms by (simp_all add: dividing_def)
  have "unat r = rq_value A B 32"
    using assms A rq_next_value [of "rq u" A "abs_of s b" 31] by (simp add: dividing_def A_def B_def r_def)
  then have r: "unat r = (A mod B) * 2 ^ 32 + A div B" by (simp add: rq_value_def)
  have "A div B < 2 ^ 32" "A mod B < 2 ^ 32" using A div_le_dividend [of A B] mod_less_eq_dividend [of A B] by linarith+
  then have "unat (ucast r :: u32) = A div B" "unat (ucast (drop_bit 32 r) :: u32) = A mod B"
    unfolding unsigned_ucast_eq unsigned_drop_bit_eq r by (simp_all add: drop_bit_eq_div take_bit_eq_mod)
  then have "uint (ucast r :: u32) = uint (abs_of s a) div uint (abs_of s b)"
    "uint (ucast (drop_bit 32 r) :: u32) = uint (abs_of s a) mod uint (abs_of s b)"
    by (simp_all only: A_def B_def uint_nat zdiv_int zmod_int)
  note qm = signed_quotient [OF this(1)] signed_remainder [OF this(2)]
  have "quotient (div_unit_clock st x y z u) = (if neg_q u then NOT (ucast r) + 1 else ucast r)"
    "remainder (div_unit_clock st x y z u) = (if neg_r u then NOT (ucast (drop_bit 32 r)) + 1 else ucast (drop_bit 32 r))"
    and stop: "\<not> div_busy (div_unit_clock st x y z u)" "div_done (div_unit_clock st x y z u)"
    using d(1,2) by (simp_all add: div_unit_clock_def Let_def r_def)
  then show "divided s a b (div_unit_clock st x y z u)" "div_done (div_unit_clock st x y z u)"
    unfolding divided_def d(4,5) using qm d(3) abs_of_0 by simp_all
qed

section \<open>The execute stage\<close>

record ex_op =
  id_ex_alu_sel :: alu_op
  alu_a :: u32
  alu_b :: u32

record ex_stage =
  divu :: div_unit
  div_result_ready :: bool

definition is_div_op :: "alu_op \<Rightarrow> bool" where "is_div_op sel \<longleftrightarrow> drop_bit 2 sel = 4"
definition div_is_signed :: "alu_op \<Rightarrow> bool" where "div_is_signed sel \<longleftrightarrow> \<not> bit sel 0"
definition div_want_rem :: "alu_op \<Rightarrow> bool" where "div_want_rem sel \<longleftrightarrow> bit sel 1"

definition div_stall :: "ex_op \<Rightarrow> ex_stage \<Rightarrow> bool" where
  "div_stall i x \<longleftrightarrow> is_div_op (id_ex_alu_sel i) \<and> \<not> div_result_ready x"

definition ex_result :: "ex_op \<Rightarrow> ex_stage \<Rightarrow> u32" where
  "ex_result i x =
     (if is_div_op (id_ex_alu_sel i)
      then if div_want_rem (id_ex_alu_sel i) then remainder (divu x) else quotient (divu x)
      else alu (id_ex_alu_sel i) (alu_a i) (alu_b i))"

text \<open>A clock edge with the instruction \<open>i\<close> in the stage and the pipeline held or not.\<close>

definition ex_clock :: "bool \<Rightarrow> ex_op \<Rightarrow> ex_stage \<Rightarrow> ex_stage" where
  "ex_clock global_mem_stall i x =
     (let u = divu x;
          div_start = (is_div_op (id_ex_alu_sel i) \<and> \<not> div_busy u \<and> \<not> div_done u \<and> \<not> div_result_ready x)
      in \<lparr>divu = div_unit_clock div_start (alu_a i) (alu_b i) (div_is_signed (id_ex_alu_sel i)) u,
          div_result_ready = (if div_done u then True
            else if div_result_ready x \<and> \<not> global_mem_stall then False else div_result_ready x)\<rparr>)"

text \<open>
  Instructions going through the stage: \<open>other\<close> says in which cycles something else holds the pipeline; an instruction leaves in the first
  cycle in which nothing does, with its result.
\<close>

record pipe =
  ex :: ex_stage
  todo :: "ex_op list"
  results :: "u32 list"
  clk :: nat

definition pipe_clock :: "(nat \<Rightarrow> bool) \<Rightarrow> pipe \<Rightarrow> pipe" where
  "pipe_clock other p =
     (case todo p of
        [] \<Rightarrow> p\<lparr>clk := Suc (clk p)\<rparr>
      | i # is \<Rightarrow>
          (let global_mem_stall = (other (clk p) \<or> div_stall i (ex p));
               p' = p\<lparr>ex := ex_clock global_mem_stall i (ex p), clk := Suc (clk p)\<rparr>
           in if global_mem_stall then p' else p'\<lparr>todo := is, results := results p @ [ex_result i (ex p)]\<rparr>))"

definition ex_fresh :: "ex_stage \<Rightarrow> bool" where
  "ex_fresh x \<longleftrightarrow> \<not> div_busy (divu x) \<and> \<not> div_done (divu x) \<and> \<not> div_result_ready x"

text \<open>
  What the instruction set prescribes for an operation, as arithmetic on the integers the operands stand for. The logical operations are
  given by the binary digits of the operands.
\<close>

definition digit :: "int \<Rightarrow> nat \<Rightarrow> bool" where "digit z n \<longleftrightarrow> z div 2 ^ n mod 2 = 1"

definition bitwise :: "(bool \<Rightarrow> bool \<Rightarrow> bool) \<Rightarrow> u32 \<Rightarrow> u32 \<Rightarrow> u32" where
  "bitwise f a b = word_of_int (\<Sum>n \<leftarrow> [0..<32]. if f (digit (uint a) n) (digit (uint b) n) then 2 ^ n else 0)"

definition rv_result :: "ex_op \<Rightarrow> u32" where
  "rv_result i = (let sel = id_ex_alu_sel i; a = alu_a i; b = alu_b i; s = unat b mod 32 in
     if sel = 1 then word_of_int (uint a * 2 ^ s)
     else if sel = 2 then of_bool (sint a < sint b)
     else if sel = 3 then of_bool (uint a < uint b)
     else if sel = 4 then bitwise (\<lambda>x y. x = (\<not> y)) a b
     else if sel = 5 then word_of_int (uint a div 2 ^ s)
     else if sel = 6 then bitwise (\<or>) a b
     else if sel = 7 then bitwise (\<and>) a b
     else if sel = 8 then word_of_int (sint a * sint b)
     else if sel = 9 then word_of_int (sint a * sint b div 2 ^ 32)
     else if sel = 10 then word_of_int (sint a * uint b div 2 ^ 32)
     else if sel = 11 then word_of_int (uint a * uint b div 2 ^ 32)
     else if sel = 12 then word_of_int (uint a - uint b)
     else if sel = 13 then word_of_int (sint a div 2 ^ s)
     else if sel = 15 then b
     else if sel = 16 then rv_div True a b
     else if sel = 17 then rv_div False a b
     else if sel = 18 then rv_rem True a b
     else if sel = 19 then rv_rem False a b
     else if sel = 20 then word_of_int (2 * uint a + uint b)
     else if sel = 21 then word_of_int (4 * uint a + uint b)
     else if sel = 22 then word_of_int (8 * uint a + uint b)
     else word_of_int (uint a + uint b))"

lemma digit_bit: "digit (uint a) n = bit a n"
proof -
  have "digit (uint a) n = bit (uint a) n" by (simp add: digit_def bit_iff_odd odd_iff_mod_2_eq_one)
  then show ?thesis by (auto simp: bit_uint_iff dest: bit_imp_le_length)
qed

lemma bitwise_digits:
  assumes "\<And>n. n < 32 \<Longrightarrow> f (bit a n) (bit b n) = bit c n"
  shows "bitwise f a b = c"
proof -
  have "(\<Sum>n \<leftarrow> [0..<32]. if f (digit (uint a) n) (digit (uint b) n) then 2 ^ n else 0) =
    (\<Sum>n = 0..<32. push_bit n (of_bool (bit (uint c) n)) :: int)"
    unfolding interv_sum_list_conv_sum_set_nat
    by (intro sum.cong) (simp_all add: digit_bit assms push_bit_eq_mult bit_uint_iff)
  also have "\<dots> = take_bit 32 (uint c)" by (rule take_bit_sum [symmetric])
  also have "\<dots> = uint c" by (intro take_bit_int_eq_self) (use uint_lt2p [of c] in simp_all)
  finally show ?thesis by (simp add: bitwise_def)
qed

lemma bitwise_value: "bitwise (\<lambda>x y. x = (\<not> y)) a b = a XOR b" "bitwise (\<or>) a b = a OR b" "bitwise (\<and>) a b = a AND b"
  by (rule bitwise_digits; auto simp: bit_simps)+

lemma uint_sums: "word_of_int (uint a + uint b) = (a + b :: u32)" "word_of_int (uint a - uint b) = (a - b :: u32)"
  by simp_all

lemma u32_signed_cast: "u32_signed s a = (if s then scast a else ucast a)"
proof (rule bit_word_eqI)
  fix n assume "n < LENGTH(33)"
  then have "n < 32 \<or> n = 32" by auto
  then show "bit (u32_signed s a) n = bit (if s then scast a else ucast a :: 33 word) n"
    by (auto simp: u32_signed_def bit_simps dest: bit_imp_le_length)
qed

lemma u32_signed_value: "sint (u32_signed s a) = (if s then sint a else uint a)"
proof -
  have u: "0 \<le> uint a" "uint a < 2 ^ 32" using uint_lt2p [of a] by simp_all
  then have "- (2 ^ 32) \<le> sint a" "sint a < 2 ^ 32" using sint_ge [of a] sint_lt [of a] by simp_all
  then have "signed_take_bit 32 (sint a) = sint a" by (intro signed_take_bit_int_eq_self)
  moreover have "signed_take_bit 32 (uint a) = uint a" using u by (intro signed_take_bit_int_eq_self) linarith+
  ultimately show ?thesis by (simp add: u32_signed_cast signed_scast_eq signed_ucast_eq)
qed

lemma mul_res_value:
  "mul_res sel a b = word_of_int ((if sel = 8 \<or> sel = 9 \<or> sel = 10 then sint a else uint a) * (if sel = 8 \<or> sel = 9 then sint b else uint b))"
  by (simp add: mul_res_def Let_def scast_eq u32_signed_value)

lemma high_word: "ucast (drop_bit 32 (word_of_int z :: 66 word)) = (word_of_int (z div 2 ^ 32) :: u32)"
proof -
  have z: "z div 2 ^ 32 = drop_bit 32 z" by (simp add: drop_bit_eq_div)
  show ?thesis unfolding z by (rule bit_word_eqI) (simp add: bit_simps ac_simps)
qed

lemma low_word: "ucast (word_of_int z :: 66 word) = (word_of_int z :: u32)"
  by (rule bit_word_eqI) (simp add: bit_simps)

lemma word_eqs:
  fixes a :: "'a::len word"
  shows "push_bit n a = word_of_int (uint a * 2 ^ n)" "drop_bit n a = word_of_int (uint a div 2 ^ n)"
    "signed_drop_bit n a = word_of_int (sint a div 2 ^ n)"
proof -
  show "push_bit n a = word_of_int (uint a * 2 ^ n)" by (simp add: push_bit_eq_mult)
  show "drop_bit n a = word_of_int (uint a div 2 ^ n)"
  proof -
    have "uint (drop_bit n a) = uint a div 2 ^ n"
      unfolding unsigned_drop_bit_eq by (simp add: drop_bit_eq_div take_bit_int_eq_self)
    then show ?thesis by (metis word_of_int_uint)
  qed
  show "signed_drop_bit n a = word_of_int (sint a div 2 ^ n)"
  proof -
    have "signed_drop_bit n a = word_of_int (sint (signed_drop_bit n a))" by simp
    then show ?thesis by (simp only: sint_signed_drop_bit_eq drop_bit_eq_div)
  qed
qed

lemma alu_value: "\<not> is_div_op (id_ex_alu_sel i) \<Longrightarrow> alu (id_ex_alu_sel i) (alu_a i) (alu_b i) = rv_result i"
proof -
  assume "\<not> is_div_op (id_ex_alu_sel i)"
  define sel a b where "sel = id_ex_alu_sel i" and "a = alu_a i" and "b = alu_b i"
  have shift: "unat (take_bit 5 b) = unat b mod 32" unfolding unsigned_take_bit_eq by (simp add: take_bit_eq_mod)
  have word: "push_bit n a = word_of_int (uint a * 2 ^ n)" "drop_bit n a = word_of_int (uint a div 2 ^ n)"
    "signed_drop_bit n a = word_of_int (sint a div 2 ^ n)" for n
    by (rule word_eqs)+
  have mul: "(ucast (mul_res 8 a b) :: u32) = word_of_int (sint a * sint b)" "(ucast (drop_bit 32 (mul_res 9 a b)) :: u32) = word_of_int (sint a * sint b div 2 ^ 32)"
    "(ucast (drop_bit 32 (mul_res 10 a b)) :: u32) = word_of_int (sint a * uint b div 2 ^ 32)"
    "(ucast (drop_bit 32 (mul_res 11 a b)) :: u32) = word_of_int (uint a * uint b div 2 ^ 32)"
    unfolding mul_res_value high_word low_word by simp_all
  have "sel \<noteq> 16" "sel \<noteq> 17" "sel \<noteq> 18" "sel \<noteq> 19"
    using \<open>\<not> is_div_op (id_ex_alu_sel i)\<close> by (auto simp: is_div_op_def sel_def)
  then show ?thesis
    unfolding rv_result_def alu_def Let_def sel_def [symmetric] a_def [symmetric] b_def [symmetric] shift
    by (simp add: mul word word_sless_alt word_less_def bitwise_value uint_sums)
qed

definition fair :: "(nat \<Rightarrow> bool) \<Rightarrow> bool" where
  "fair other \<longleftrightarrow> (\<forall>t. \<exists>t' \<ge> t. \<not> other t')"

section \<open>Instructions in order\<close>

lemma div_op_cases: "is_div_op sel \<longleftrightarrow> sel = 16 \<or> sel = 17 \<or> sel = 18 \<or> sel = 19"
proof -
  have "is_div_op sel \<longleftrightarrow> unat (drop_bit 2 sel) = unat (4 :: alu_op)" unfolding is_div_op_def by (rule word_unat_eq_iff)
  also have "\<dots> \<longleftrightarrow> unat sel div 4 = 4" using unsigned_less [of sel, where 'a = nat]
    unfolding unsigned_drop_bit_eq by (simp add: drop_bit_eq_div take_bit_nat_eq_self)
  also have "\<dots> \<longleftrightarrow> unat sel = 16 \<or> unat sel = 17 \<or> unat sel = 18 \<or> unat sel = 19" by auto
  finally show ?thesis by (simp add: word_unat_eq_iff)
qed

definition ex_divided :: "ex_op \<Rightarrow> ex_stage \<Rightarrow> bool" where
  "ex_divided i x \<longleftrightarrow> divided (div_is_signed (id_ex_alu_sel i)) (alu_a i) (alu_b i) (divu x)"

lemma ex_result_value:
  assumes "is_div_op (id_ex_alu_sel i) \<Longrightarrow> ex_divided i x"
  shows "ex_result i x = rv_result i"
proof (cases "is_div_op (id_ex_alu_sel i)")
  case True
  then show ?thesis using assms
    by (auto simp: ex_result_def ex_divided_def divided_def rv_result_def div_op_cases div_is_signed_def div_want_rem_def)
next
  case False
  then show ?thesis by (simp add: ex_result_def alu_value)
qed

text \<open>What holds of the stage while the division \<open>i\<close> waits in it: fresh, \<open>k\<close> steps done, finished, or the result ready.\<close>

datatype div_phase = Fresh | Dividing nat | Finished | Ready

definition in_phase :: "ex_op \<Rightarrow> div_phase \<Rightarrow> ex_stage \<Rightarrow> bool" where
  "in_phase i ph x = (case ph of
       Fresh \<Rightarrow> ex_fresh x
     | Dividing k \<Rightarrow> k \<le> 31 \<and> dividing (div_is_signed (id_ex_alu_sel i)) (alu_a i) (alu_b i) k (divu x) \<and> \<not> div_result_ready x
     | Finished \<Rightarrow> ex_divided i x \<and> div_done (divu x) \<and> \<not> div_result_ready x
     | Ready \<Rightarrow> ex_divided i x \<and> \<not> div_done (divu x) \<and> div_result_ready x)"

lemma idle_unit: "\<not> div_busy u \<Longrightarrow> div_unit_clock False a b s u = u\<lparr>div_done := False\<rparr>"
  by (simp add: div_unit_clock_def)

lemma fresh_step:
  assumes "is_div_op (id_ex_alu_sel i)" "ex_fresh x"
  shows "in_phase i (Dividing 0) (ex_clock True i x) \<or> in_phase i Finished (ex_clock True i x)"
  using assms div_starts [of "divu x" "div_is_signed (id_ex_alu_sel i)" "alu_a i" "alu_b i"]
  by (auto simp: in_phase_def ex_clock_def ex_fresh_def ex_divided_def)

lemma dividing_step:
  assumes "in_phase i (Dividing k) x"
  shows "in_phase i (if k < 31 then Dividing (Suc k) else Finished) (ex_clock True i x)"
proof -
  have d: "dividing (div_is_signed (id_ex_alu_sel i)) (alu_a i) (alu_b i) k (divu x)" "\<not> div_result_ready x" "k \<le> 31" "\<not> div_done (divu x)"
    using assms by (simp_all add: in_phase_def dividing_def)
  show ?thesis
  proof (cases "k < 31")
    case True
    then show ?thesis using d(2-) div_step [OF d(1)] by (simp add: in_phase_def ex_clock_def Let_def)
  next
    case False
    then have k: "k = 31" using d(3) by simp
    show ?thesis unfolding k using d(2,4) div_last [OF d(1) [unfolded k]] by (simp add: in_phase_def ex_clock_def ex_divided_def Let_def)
  qed
qed

lemma finished_step: "in_phase i Finished x \<Longrightarrow> in_phase i Ready (ex_clock True i x)"
  by (simp add: in_phase_def ex_clock_def idle_unit ex_divided_def divided_def)

text \<open>An instruction that nothing but other stalls keeps in the stage.\<close>

definition settled :: "ex_op \<Rightarrow> ex_stage \<Rightarrow> bool" where
  "settled i x = (if is_div_op (id_ex_alu_sel i) then in_phase i Ready x else ex_fresh x)"

lemma settled_clock:
  assumes "settled i x"
  shows "settled i (ex_clock True i x)" "ex_fresh (ex_clock False i x)" "\<not> div_stall i x" "ex_result i x = rv_result i"
proof -
  show "settled i (ex_clock True i x)" "ex_fresh (ex_clock False i x)" "\<not> div_stall i x"
    using assms by (auto simp: settled_def in_phase_def ex_clock_def idle_unit ex_divided_def divided_def ex_fresh_def div_stall_def
        split: if_splits)
  show "ex_result i x = rv_result i"
    by (rule ex_result_value) (use assms in \<open>auto simp: settled_def in_phase_def\<close>)
qed

lemma stalled_clock:
  assumes "todo p = i # is" "other (clk p) \<or> div_stall i (ex p)"
  shows "pipe_clock other p = p\<lparr>ex := ex_clock True i (ex p), clk := Suc (clk p)\<rparr>"
  using assms by (simp add: pipe_clock_def Let_def del: div_stall_def)

text \<open>A division reaches its result after at most 35 clocks.\<close>

fun rank :: "div_phase \<Rightarrow> nat" where
  "rank Fresh = 34"
| "rank (Dividing k) = 33 - k"
| "rank Finished = 1"
| "rank Ready = 0"

lemma phase_step:
  assumes "is_div_op (id_ex_alu_sel i)" "in_phase i ph x" "ph \<noteq> Ready"
  shows "div_stall i x" "\<exists>ph'. rank ph' < rank ph \<and> in_phase i ph' (ex_clock True i x)"
proof -
  show "div_stall i x" using assms by (cases ph) (auto simp: div_stall_def in_phase_def ex_fresh_def)
  show "\<exists>ph'. rank ph' < rank ph \<and> in_phase i ph' (ex_clock True i x)"
  proof (cases ph)
    case Fresh
    then have "ex_fresh x" using assms(2) by (simp add: in_phase_def)
    from fresh_step [OF assms(1) this] show ?thesis
      by (elim disjE) (use Fresh in \<open>auto intro: exI [of _ "Dividing 0"] exI [of _ Finished]\<close>)
  next
    case (Dividing k)
    then have "in_phase i (Dividing k) x" "k \<le> 31" using assms(2) by (simp_all add: in_phase_def)
    then show ?thesis using dividing_step [of i k x] Dividing by (auto split: if_splits intro: exI [of _ "Dividing (Suc k)"] exI [of _ Finished])
  next
    case Finished
    then show ?thesis using finished_step [of i x] assms(2) by (auto intro: exI [of _ Ready])
  qed (use assms(3) in simp)
qed

lemma reaches_ready:
  assumes "is_div_op (id_ex_alu_sel i)" "todo p = i # is" "in_phase i ph (ex p)"
  shows "\<exists>k \<le> rank ph. \<exists>q. q = (pipe_clock other ^^ k) p \<and> in_phase i Ready (ex q) \<and> todo q = i # is \<and> results q = results p"
  using assms(2,3)
proof (induction "rank ph" arbitrary: ph p rule: less_induct)
  case less
  show ?case
  proof (cases "ph = Ready")
    case True
    with less.prems show ?thesis by (intro exI [of _ 0]) simp
  next
    case False
    note s = phase_step [OF assms(1) less.prems(2) False]
    let ?p = "pipe_clock other p"
    have p: "?p = p\<lparr>ex := ex_clock True i (ex p), clk := Suc (clk p)\<rparr>" using stalled_clock [OF less.prems(1)] s(1) by blast
    obtain ph' where ph': "rank ph' < rank ph" "in_phase i ph' (ex ?p)" using s(2) p by auto
    obtain k where k: "k \<le> rank ph'" "in_phase i Ready (ex ((pipe_clock other ^^ k) ?p))" "todo ((pipe_clock other ^^ k) ?p) = i # is"
        "results ((pipe_clock other ^^ k) ?p) = results ?p"
      using less.hyps [OF ph'(1) _ ph'(2)] less.prems(1) p by auto
    then show ?thesis using ph'(1) p by (intro exI [of _ "Suc k"]) (simp add: funpow_swap1)
  qed
qed

lemma retires:
  assumes "todo p = i # is" "settled i (ex p)" "\<not> other t" "clk p \<le> t"
  shows "\<exists>k q. q = (pipe_clock other ^^ k) p \<and> todo q = is \<and> results q = results p @ [rv_result i] \<and> ex_fresh (ex q)"
  using assms(1,2,4)
proof (induction "t - clk p" arbitrary: p rule: less_induct)
  case less
  note s = settled_clock [OF less.prems(2)]
  let ?p = "pipe_clock other p"
  show ?case
  proof (cases "other (clk p)")
    case True
    have p: "?p = p\<lparr>ex := ex_clock True i (ex p), clk := Suc (clk p)\<rparr>" using stalled_clock [OF less.prems(1)] True by blast
    have "clk p < t" using True assms(3) less.prems(3) by (cases "clk p = t") auto
    then have "t - clk ?p < t - clk p" "todo ?p = i # is" "settled i (ex ?p)" "clk ?p \<le> t" "results ?p = results p"
      using s(1) less.prems(1) p by simp_all
    then obtain k where "todo ((pipe_clock other ^^ k) ?p) = is" "results ((pipe_clock other ^^ k) ?p) = results p @ [rv_result i]"
        "ex_fresh (ex ((pipe_clock other ^^ k) ?p))"
      using less.hyps by metis
    then show ?thesis by (intro exI [of _ "Suc k"]) (simp add: funpow_swap1)
  next
    case False
    then have "?p = p\<lparr>ex := ex_clock False i (ex p), clk := Suc (clk p), todo := is, results := results p @ [rv_result i]\<rparr>"
      using less.prems(1) s(3,4) by (simp add: pipe_clock_def Let_def)
    then show ?thesis using s(2) by (intro exI [of _ 1]) simp
  qed
qed

lemma one_instruction:
  assumes "todo p = i # is" "ex_fresh (ex p)" "fair other"
  shows "\<exists>k q. q = (pipe_clock other ^^ k) p \<and> todo q = is \<and> results q = results p @ [rv_result i] \<and> ex_fresh (ex q)"
proof -
  obtain j q where q: "q = (pipe_clock other ^^ j) p" "todo q = i # is" "settled i (ex q)" "results q = results p"
  proof (cases "is_div_op (id_ex_alu_sel i)")
    case True
    then show ?thesis using that reaches_ready [OF True assms(1), of Fresh other] assms(2) by (auto simp: settled_def in_phase_def)
  next
    case False
    then show ?thesis using that [of p 0] assms by (simp add: settled_def)
  qed
  obtain t where "\<not> other t" "clk q \<le> t" using assms(3) by (auto simp: fair_def)
  from retires [of q i "is" other t, OF q(2,3) this] obtain k where "todo ((pipe_clock other ^^ k) q) = is"
      "results ((pipe_clock other ^^ k) q) = results p @ [rv_result i]" "ex_fresh (ex ((pipe_clock other ^^ k) q))"
    using q(4) by auto
  then show ?thesis unfolding q(1) by (intro exI [of _ "k + j"]) (simp add: funpow_add)
qed

text \<open>
  C11. The execute stage: instructions that go through it one behind the other, divisions next to divisions included, all leave it, in order,
  each with the result the instruction set prescribes for its own operands, whatever else holds the pipeline meanwhile as long as
  nothing holds it for ever.
\<close>

theorem execute_in_order:
  assumes "ex_fresh (ex p)" "fair other"
  shows "\<exists>k. todo ((pipe_clock other ^^ k) p) = [] \<and> results ((pipe_clock other ^^ k) p) = results p @ map rv_result (todo p)"
  using assms(1)
proof (induction "todo p" arbitrary: p)
  case Nil
  then show ?case by (intro exI [of _ 0]) simp
next
  case (Cons i "is")
  from one_instruction [OF Cons.hyps(2) [symmetric] Cons.prems assms(2)]
  obtain j q where q: "q = (pipe_clock other ^^ j) p" "todo q = is" "results q = results p @ [rv_result i]" "ex_fresh (ex q)" by blast
  from Cons.hyps(1) [OF q(2) [symmetric] q(4)] obtain k where
    "todo ((pipe_clock other ^^ k) q) = []" "results ((pipe_clock other ^^ k) q) = results q @ map rv_result (todo q)" by blast
  then show ?case using q Cons.hyps(2) [symmetric] by (intro exI [of _ "k + j"]) (simp add: funpow_add)
qed

text \<open>How long a division keeps the pipeline: at most 34 clocks until its result is ready.\<close>

theorem division_latency:
  assumes "is_div_op (id_ex_alu_sel i)" "todo p = i # is" "ex_fresh (ex p)"
  shows "\<exists>k \<le> 34. \<not> div_stall i (ex ((pipe_clock other ^^ k) p)) \<and> todo ((pipe_clock other ^^ k) p) = i # is"
  using reaches_ready [OF assms(1,2), of Fresh other] assms(1,3) by (auto simp: in_phase_def div_stall_def)

definition demo_pipe :: pipe where
  "demo_pipe = \<lparr>ex = \<lparr>divu = \<lparr>div_busy = False, div_done = False, quotient = 0, remainder = 0, count = 0, divisor_abs = 0, rq = 0,
       neg_q = False, neg_r = False\<rparr>, div_result_ready = False\<rparr>,
     todo = [\<lparr>id_ex_alu_sel = 16, alu_a = 0xFFFFFFF9, alu_b = 2\<rparr>, \<lparr>id_ex_alu_sel = 18, alu_a = 0xFFFFFFF6, alu_b = 3\<rparr>,
       \<lparr>id_ex_alu_sel = 17, alu_a = 7, alu_b = 0\<rparr>, \<lparr>id_ex_alu_sel = 9, alu_a = 0x80000000, alu_b = 4\<rparr>,
       \<lparr>id_ex_alu_sel = 12, alu_a = 3, alu_b = 5\<rparr>, \<lparr>id_ex_alu_sel = 7, alu_a = 12, alu_b = 10\<rparr>,
       \<lparr>id_ex_alu_sel = 6, alu_a = 12, alu_b = 10\<rparr>, \<lparr>id_ex_alu_sel = 4, alu_a = 12, alu_b = 10\<rparr>],
     results = [], clk = 0\<rparr>"

theorem execute_in_order_witness:
  "\<exists>k. results ((pipe_clock (\<lambda>t. odd t) ^^ k) demo_pipe) = [0xFFFFFFFD, 0xFFFFFFFF, 0xFFFFFFFF, 0xFFFFFFFE, 0xFFFFFFFE, 8, 14, 6]"
proof -
  have "ex_fresh (ex demo_pipe)" by (simp add: ex_fresh_def demo_pipe_def)
  moreover have "fair (\<lambda>t. odd t)" unfolding fair_def by (metis even_Suc le_SucI order_refl)
  moreover have "results demo_pipe @ map rv_result (todo demo_pipe) = [0xFFFFFFFD, 0xFFFFFFFF, 0xFFFFFFFF, 0xFFFFFFFE, 0xFFFFFFFE, 8, 14, 6]"
    by (simp add: demo_pipe_def rv_result_def rv_div_def rv_rem_def signed_divide_int_def signed_modulo_int_def bitwise_value)
  ultimately show ?thesis using execute_in_order [of demo_pipe "\<lambda>t. odd t"] by auto
qed

end
