(* ===== verification/CpuTest.thy ===== *)
theory CpuTest
  imports Prelude
begin

text \<open>
  The program \<^verbatim>\<open>Testbenches/matrix.c\<close>, whose compiled code is run on the processor in simulation: a product of two matrices of
  dimension two with loops over arrays of arrays.
\<close>

type_synonym int22 = "s32 list list"

definition matrix_a :: int22 where "matrix_a = [[1, 2], [3, 4]]"
definition matrix_b :: int22 where "matrix_b = [[5, 6], [7, 8]]"

definition set2 :: "int22 \<Rightarrow> nat \<Rightarrow> nat \<Rightarrow> s32 \<Rightarrow> int22" where
  "set2 m i j v = m[i := (m ! i)[j := v]]"

definition matrix_loops :: "int22 \<Rightarrow> int22 \<Rightarrow> int22 \<Rightarrow> int22" where
  "matrix_loops a b result =
     for_up 2 (\<lambda>i. for_up 2 (\<lambda>j. for_up 2 (\<lambda>k result.
       set2 result i j (result ! i ! j + a ! i ! k * b ! k ! j)))) result"

definition matrix_main :: s32 where
  "matrix_main = matrix_loops matrix_a matrix_b [[0, 0], [0, 0]] ! 1 ! 1"

text \<open>The loops compute the product of any two matrices of that size, whose entries wrap around.\<close>

theorem matrix_loops_product:
  "matrix_loops [[a, b], [c, d]] [[e, f], [g, h]] [[0, 0], [0, 0]] =
     [[a * e + b * g, a * f + b * h], [c * e + d * g, c * f + d * h]]"
  by (simp add: matrix_loops_def set2_def for_up_def numeral_2_eq_2)

theorem matrix_main_value: "matrix_main = 50"
  by (simp add: matrix_main_def matrix_a_def matrix_b_def matrix_loops_product)

end
