(* ===== verification/Spec2Isabelle.thy ===== *)
theory Spec2Isabelle
  imports Terminal CacheTest GemmThreads DcacheRtl Execute CpuTest
begin

text \<open>
  Verification of the C software of the RV32IMAC system-on-chip: the CoreMark benchmark with its port
  (\<^verbatim>\<open>fpga/coremark\<close>), the Zephyr drivers of the cache, the interrupt aggregator, the matrix accelerator and the
  serial port (\<^verbatim>\<open>zephyr/drivers\<close>), and the two sample programs on them (\<^verbatim>\<open>zephyr/samples\<close>). The devices the drivers
  talk to are modelled from the hardware sources of the repository (\<^verbatim>\<open>src/*.v\<close>, \<^verbatim>\<open>chisel/src/MmAccel.scala\<close>) as far as the
  drivers depend on them; the serial port, the interrupt aggregator, the data cache, and the arithmetic of the
  processor's execute stage are modelled clock by clock.

  \<^bold>\<open>Parts and theories.\<close>
  \<^item> \<^verbatim>\<open>Prelude\<close>: machine integers as words, return codes, counting loops, the theorem collections. \<^verbatim>\<open>Kernel\<close>: the
    console of the sample programs and loops that may leave an array.
  \<^item> \<^verbatim>\<open>Crc\<close> (\<^verbatim>\<open>core_util.c\<close>): the checksum functions, equal to the bit-serial CRC-16.
  \<^item> \<^verbatim>\<open>CoreMatrix\<close> (\<^verbatim>\<open>core_matrix.c\<close>): matrices as lists in row order; exactness of the product, the layout after
    initialisation, and that the test restores its input.
  \<^item> \<^verbatim>\<open>CoreState\<close> (\<^verbatim>\<open>core_state.c\<close>): the state machine over bounds-checked memory recognises exactly three number formats; the
    benchmark stays in its block.
  \<^item> \<^verbatim>\<open>CoreList\<close>, \<^verbatim>\<open>CoreSort\<close>, \<^verbatim>\<open>CoreBench\<close>, \<^verbatim>\<open>ListInit\<close> (\<^verbatim>\<open>core_list_join.c\<close>, \<^verbatim>\<open>iterate\<close> of \<^verbatim>\<open>core_main.c\<close>): the list over an
    explicit heap of cells and data, with null dereferences as failure; insertion, removal, reversal and search, the merge
    sort with both comparison functions although one of them runs the other kernels and writes
    their results into the list, the benchmark that puts the list back, and the initial list.
  \<^item> \<^verbatim>\<open>EePrintf\<close> (\<^verbatim>\<open>ee_printf.c\<close>), \<^verbatim>\<open>Double\<close>, \<^verbatim>\<open>Cvt\<close> (\<^verbatim>\<open>cvt.c\<close>): formatted output down to the transmitter of the serial port;
    finite doubles as rationals with rounding to 53 bits; the printed digits of a number are accurate.
  \<^item> \<^verbatim>\<open>CoreMain\<close> (\<^verbatim>\<open>core_main.c\<close>, \<^verbatim>\<open>core_util.c\<close>, \<^verbatim>\<open>core_portme.c\<close>): parameters, memory blocks, calibration, timing, validation
    and report. The whole program returns and has sent exactly its report.
  \<^item> \<^verbatim>\<open>Dcache\<close> (\<^verbatim>\<open>dcache_bram.v\<close>), \<^verbatim>\<open>CacheDriver\<close> (\<^verbatim>\<open>cache_rv32_5stage.c\<close>): the write-back cache at the level of CPU accesses and the
    driver that displaces lines by reading its own buffer. Flush, invalidate and the DMA protocol.
  \<^item> \<^verbatim>\<open>DcacheRtl\<close> (\<^verbatim>\<open>dcache_bram.v\<close>, \<^verbatim>\<open>partial_store.v\<close>, \<^verbatim>\<open>partial_load.v\<close>, the stall contract of \<^verbatim>\<open>cpu.v\<close>): the same cache clock by clock,
    with speculated array reads, the bypass and the miss states. It implements the accesses of \<^verbatim>\<open>Dcache\<close>, answers
    like a plain memory, and serves every request.
  \<^item> \<^verbatim>\<open>Gemm\<close> (\<^verbatim>\<open>gemm_rv32_5stage.c\<close>, \<^verbatim>\<open>gemm.h\<close>), \<^verbatim>\<open>Accel\<close> (\<^verbatim>\<open>MmAccel.scala\<close>): the accelerator's driver with both ways of waiting, errors and
    statistics; the accelerator's registers, and its datapath with the systolic array cycle by cycle.
  \<^item> \<^verbatim>\<open>Intc\<close> (\<^verbatim>\<open>intc_rv32_5stage.c\<close>, \<^verbatim>\<open>intc.v\<close>), \<^verbatim>\<open>Uart\<close> (\<^verbatim>\<open>uart_rv32_5stage.c\<close>, \<^verbatim>\<open>uart_mmio.v\<close>, \<^verbatim>\<open>uart_tx.v\<close>): interrupt
    dispatch and the serial port, on hardware that runs cycle by cycle beside the driver.
  \<^item> \<^verbatim>\<open>UartRx\<close> (\<^verbatim>\<open>uart_rx.v\<close>): the receiver clock by clock at the other end of the line, with its own bit period and phase; for
    periods that agree it delivers exactly the bytes sent. \<^verbatim>\<open>Terminal\<close>: what a terminal receives of the benchmark's report and of the
    debug printing of \<^verbatim>\<open>core_matrix.c\<close>.
  \<^item> \<^verbatim>\<open>Execute\<close> (\<^verbatim>\<open>alu.v\<close>, \<^verbatim>\<open>div_unit.v\<close>, the division control of \<^verbatim>\<open>cpu.v\<close>): integer instructions leave the execute stage with the
    results of the instruction set, in order and under any other stalls. \<^verbatim>\<open>CpuTest\<close> (\<^verbatim>\<open>Testbenches/matrix.c\<close>): the processor's C test program.
  \<^item> \<^verbatim>\<open>CacheTest\<close>, \<^verbatim>\<open>GemmThreads\<close> (\<^verbatim>\<open>samples/cache_test\<close>, \<^verbatim>\<open>samples/gemm_threads\<close>): the two programs from start to end on
    the drivers and devices above.

  \<^bold>\<open>How the parts interact.\<close> \<^verbatim>\<open>CoreMain.main\<close> runs \<open>iterate\<close>, which runs the list benchmark, whose comparison function runs the
  matrix and state kernels, all of which use the checksums; its output goes through \<open>ee_printf\<close> to the
  serial port of \<^verbatim>\<open>Uart\<close>. The accelerator's driver uses the cache driver's range operations through the interface
  \<open>cache_maint\<close>; the sample programs use both drivers. The serial port's interrupt reaches the CPU through the aggregator of \<^verbatim>\<open>Intc\<close>.
  The ghost field \<open>wire\<close> of the transmitter is the line that the receiver of \<^verbatim>\<open>UartRx\<close> samples. The field \<open>arrays\<close> of the clocked cache is the state of
  the access-level cache, on which the cache driver is verified; \<open>byte_run\<close> links the two.

  \<^bold>\<open>Correspondence.\<close> Definitions carry the names of the functions they translate. State is passed explicitly: a record per
  device or program (\<open>dcsys\<close>, \<open>gemm_sys\<close>, \<open>uart_sys\<close>, \<open>cstate\<close>, \<open>board\<close>, \<open>gt_sys\<close>, \<open>uart_rx\<close>, \<open>dc_hw\<close>, \<open>ex_stage\<close>), whose fields are the statics, structures and registers of
  the source. Failure is an option or a return code: \<^const>\<open>None\<close> stands for undefined behaviour (a null or out-of-bounds
  access, a signed overflow, a division by zero) or for a call that never returns, \<open>RC_ERR\<close> for a negative return code. Every theorem
  about a result also states that the call returns.

  \<^bold>\<open>Interfaces.\<close> \<open>wb_cache\<close> is the contract of a write-back cache, given by \<open>dcache_geometry\<close> for every number of sets and
  interpreted for both builds; \<open>cache_maint\<close> is what a device driver may assume of range operations,
  given by the flush and the invalidate operation of every well-placed cache driver. The other locales of the theories are interpreted on the definitions they
  are about in the same way.

  \<^bold>\<open>Bounds and fuel.\<close> No definition takes fuel. Loops with a fixed bound are \<open>for_up\<close> or \<open>for_opt\<close>; loops over data are recursive functions with
  a measure; loops that may not end (waiting for a device, the cursor of a range, merge passes) are partial
  functions into option, and their termination is proved under stated conditions. The properties of the whole benchmark
  program assume at most \<open>2 ^ 22\<close> iterations, which keeps the printed rate within the buffer of the output function. The serial line theorems assume bit periods that agree (\<open>rates_agree\<close>; \<open>tolerance_520\<close> gives the interval at the
  divisor of the boards) and a divisor that fits the 16-bit counter of the transmitter. The clocked cache serves a request before memory has been ready in eight clocks.

  \<^bold>\<open>Parameters.\<close> What is outside the sources is an argument: the readings of cycle counters, the time an iteration takes, when a batch or an
  interrupt arrives, bytes received on the wire (in \<^verbatim>\<open>Uart\<close>; \<^verbatim>\<open>UartRx\<close> supplies them), the delays of the memory behind the cache and what its arrays put out for a byte that is
  read while it is written, stalls of other pipeline stages, the linker's addresses, scheduling and the kernel's
  accounting of threads.

  \<^bold>\<open>Not modelled.\<close> Code that the configuration does not compile (\<^verbatim>\<open>CORE_DEBUG\<close> except the matrix printing, heap or stack memory, several
  contexts, no floating point); the device-tree macros and interrupt connections of the drivers; the processor outside the arithmetic of its execute stage and
  its load and store lanes (fetch, decode, forwarding, traps, atomics), the instruction cache, the tightly coupled
  memory, the buses, and the timing of the accelerator's transfer engines, of which only the effect of whole batches is used; memory accesses of other threads during a wait, which are placed between
  the batches; infinities and NaN, which the code never produces from finite arguments.
\<close>

end
